(* ===== verification/Prelude.thy ===== *)
theory Prelude
  imports Main "HOL-Library.Word"
begin

text \<open>
  The vocabulary shared by every component: machine integers, byte strings and the
  fixed-offset reads and writes the codecs are made of, error values, and the binary search of
  Go's \<^verbatim>\<open>sort\<close> package. Integers keep their width; an \<^verbatim>\<open>int64\<close> is kept
  as the same 64 bits and compared through \<^const>\<open>sint\<close>. A \<^verbatim>\<open>[16]byte\<close>
  or \<^verbatim>\<open>[32]byte\<close> array is the word whose big-endian bytes are the array's elements.
\<close>

unbundle bit_operations_syntax

named_theorems slices \<open>reads of a fixed-offset field through the writes below it\<close>
named_theorems lsn_arith \<open>arithmetic on log sequence numbers that stay below the reserved one\<close>

type_synonym u8 = "8 word"
type_synonym u16 = "16 word"
type_synonym u32 = "32 word"
type_synonym u64 = "64 word"
type_synonym i64 = "64 word"
type_synonym bytes = "u8 list"
type_synonym bytes16 = "128 word"
type_synonym bytes32 = "256 word"


section \<open>Errors\<close>

text \<open>
  A Go error is known to its callers by the sentinels it wraps: \<^verbatim>\<open>errors.Is\<close> asks
  whether one of them is there. An error value is therefore the list of the sentinels it wraps,
  outermost first; an error made by \<^verbatim>\<open>fmt.Errorf\<close> with no \<^verbatim>\<open>%w\<close> is the
  empty list. Message texts are not modelled. A run-time panic is no error value; where the code can
  panic, the outcome is marked by \<^verbatim>\<open>GoPanic\<close>, which no error wraps.
\<close>

datatype (plugins only: code) sentinel =
    SegErrInvalidSegment | SegErrUnsupportedVersion | SegErrUnsupportedCodec
  | SegErrUnsupportedHashAlgo | SegErrUnsupportedRecord | SegErrRecordTooLarge
  | SegErrBlockTooLarge | SegErrIntegrityMismatch | SegErrBlockIndexMismatch
  | ErrInvalidObject | ErrUnsupportedVersion | ErrUnsupportedLayout | ErrIntegrityMismatch
  | ErrInvalidRequest | ErrInvalidSegment | ErrConflict | ErrStaleWriter | ErrFenceExhausted
  | ErrFenceIndeterminate | ErrGenerationExhausted | ErrCommitIndeterminate | ErrTimestampOrder
  | ErrLSNExhausted | ErrRetentionRegression | ErrRetentionUnsupported
  | ErrIndexFull | ErrInvalidStreamID
  | ErrObjectNotFound | ErrImmutableConflict | BlobErrInvalidRequest
  | ReadErrInvalidOptions | ReadErrInvalidSegment | ErrStoreRead | ErrCorruptData
  | WriteErrInvalidOptions | ErrWriterClosed | ErrWriterAborted | ErrAppendNotAccepted | ErrEmptySegment
  | ErrNonContiguousLSN | WriteErrLSNExhausted | WriteErrTimestampOrder | ErrPackerClosed | ErrPackerAborted
  | ErrBodySealed | ErrBodyNotSealed | ErrEmptyObject | ErrSinkContract | ErrTxnAborted | ErrTxnCompleted
  | ErrTxnCommitIndeterminate
  | LifeErrInvalidOptions | ErrLeaseHeld | ErrLeaseLost | ErrCorruptState
  | ContextCanceled | DeadlineExceeded
  | GoPanic

type_synonym goerr = "sentinel list"

definition errors_Is :: "goerr \<Rightarrow> sentinel \<Rightarrow> bool" where
  "errors_Is err s \<longleftrightarrow> s \<in> set err"

type_synonym 'a res = "goerr + 'a"

text \<open>A context is known by what \<^verbatim>\<open>ctx.Err()\<close> returns when it is asked.\<close>

type_synonym ctx = "goerr option"

definition bindE :: "'e + 'a \<Rightarrow> ('a \<Rightarrow> 'e + 'b) \<Rightarrow> 'e + 'b" where
  "bindE m f = (case m of Inl e \<Rightarrow> Inl e | Inr x \<Rightarrow> f x)"

lemma bindE_simps [simp]:
  "bindE (Inl e) f = Inl e"
  "bindE (Inr x) f = f x"
  by (simp_all add: bindE_def)

lemma bindE_eq_Inr [simp]: "bindE m f = Inr y \<longleftrightarrow> (\<exists>x. m = Inr x \<and> f x = Inr y)"
  by (cases m) (auto simp: bindE_def)

lemma bindE_eq_Inl: "bindE m f = Inl e \<longleftrightarrow> m = Inl e \<or> (\<exists>x. m = Inr x \<and> f x = Inl e)"
  by (cases m) (auto simp: bindE_def)

lemma bindE_cong [fundef_cong]:
  "m = m' \<Longrightarrow> (\<And>x. m' = Inr x \<Longrightarrow> f x = f' x) \<Longrightarrow> bindE m f = bindE m' f'"
  by (cases m') (auto simp: bindE_def)

definition map_err :: "('e \<Rightarrow> 'f) \<Rightarrow> 'e + 'a \<Rightarrow> 'f + 'a" where
  "map_err g m = (case m of Inl e \<Rightarrow> Inl (g e) | Inr x \<Rightarrow> Inr x)"

lemma map_err_simps [simp]:
  "map_err g (Inl e) = Inl (g e)"
  "map_err g (Inr x) = Inr x"
  "map_err g m = Inr x \<longleftrightarrow> m = Inr x"
  by (auto simp: map_err_def split: sum.splits)

text \<open>A loop that fills a slice element by element and leaves at the first error.\<close>

fun mapE :: "('a \<Rightarrow> 'e + 'b) \<Rightarrow> 'a list \<Rightarrow> 'e + 'b list" where
  "mapE f [] = Inr []"
| "mapE f (x # xs) = bindE (f x) (\<lambda>y. bindE (mapE f xs) (\<lambda>ys. Inr (y # ys)))"

lemma mapE_eq_Inr: "mapE f xs = Inr ys \<longleftrightarrow> list_all2 (\<lambda>x y. f x = Inr y) xs ys"
  by (induction xs arbitrary: ys) (auto simp: list_all2_Cons1)

lemma mapE_length: "mapE f xs = Inr ys \<Longrightarrow> length ys = length xs"
  by (auto simp: mapE_eq_Inr dest: list_all2_lengthD)

lemma mapE_cong [fundef_cong]:
  "xs = ys \<Longrightarrow> (\<And>x. x \<in> set ys \<Longrightarrow> f x = g x) \<Longrightarrow> mapE f xs = mapE g ys"
proof (induction xs arbitrary: ys)
  case (Cons x xs)
  then show ?case by (auto intro: bindE_cong)
qed simp

text \<open>
  A loop over a slice that threads a value, leaves at the first error and stops early once
  \<open>stop\<close> holds of the value.
\<close>

fun loopE :: "('c \<Rightarrow> bool) \<Rightarrow> ('c \<Rightarrow> 'a \<Rightarrow> 'e + 'c) \<Rightarrow> 'c \<Rightarrow> 'a list \<Rightarrow> 'e + 'c" where
  "loopE stop f c [] = Inr c"
| "loopE stop f c (x # xs) = (if stop c then Inr c else bindE (f c x) (\<lambda>c'. loopE stop f c' xs))"

lemma loopE_cong [fundef_cong]:
  "stop = stop' \<Longrightarrow> c = c' \<Longrightarrow> xs = ys \<Longrightarrow> (\<And>c x. x \<in> set ys \<Longrightarrow> f c x = g c x) \<Longrightarrow>
     loopE stop f c xs = loopE stop' g c' ys"
proof (induction xs arbitrary: ys c c')
  case (Cons x xs)
  then show ?case by (auto intro: bindE_cong)
qed simp

lemma loopE_foldl:
  assumes "\<And>c x. x \<in> set xs \<Longrightarrow> f c x = Inr (g c x)" "\<And>c x. stop c \<Longrightarrow> g c x = c"
  shows "loopE stop f c xs = Inr (foldl g c xs)"
proof -
  have "stop c \<Longrightarrow> foldl g c ys = c" for c ys by (induction ys) (simp_all add: assms(2))
  with assms(1) show ?thesis by (induction xs arbitrary: c) (auto simp: assms(2))
qed

lemma mapE_all_Inr: "(\<And>x. x \<in> set xs \<Longrightarrow> f x = Inr (g x)) \<Longrightarrow> mapE f xs = Inr (map g xs)"
  by (induction xs) auto


section \<open>Big-endian integers\<close>

text \<open>
  \<^verbatim>\<open>binary.BigEndian.PutUintN\<close> and \<^verbatim>\<open>UintN\<close>. The low byte is written last.
\<close>

fun be_bytes :: "nat \<Rightarrow> 'a::len word \<Rightarrow> bytes" where
  "be_bytes 0 w = []"
| "be_bytes (Suc n) w = be_bytes n (drop_bit 8 w) @ [ucast w]"

definition be_word :: "bytes \<Rightarrow> 'a::len word" where
  "be_word bs = foldl (\<lambda>acc b. push_bit 8 acc OR ucast b) 0 bs"

lemma length_be_bytes [simp]: "length (be_bytes n w) = n"
  by (induction n arbitrary: w) auto

lemma be_word_snoc: "be_word (bs @ [b]) = push_bit 8 (be_word bs) OR ucast b"
  by (simp add: be_word_def)

lemma be_word_be_bytes: "be_word (be_bytes n w) = take_bit (8 * n) (w :: 'a::len word)"
proof (induction n arbitrary: w)
  case 0
  show ?case by (simp add: be_word_def)
next
  case (Suc n)
  have "be_word (be_bytes (Suc n) w)
      = push_bit 8 (take_bit (8 * n) (drop_bit 8 w)) OR (ucast (ucast w :: 8 word) :: 'a word)"
    using Suc by (simp add: be_word_snoc)
  also have "\<dots> = take_bit (8 * Suc n) w"
  proof (rule bit_word_eqI)
    fix i
    assume "i < LENGTH('a)"
    then show "bit (push_bit 8 (take_bit (8 * n) (drop_bit 8 w)) OR
          (ucast (ucast w :: 8 word) :: 'a word)) i = bit (take_bit (8 * Suc n) w) i"
      by (cases "i < 8") (auto simp: bit_simps)
  qed
  finally show ?case .
qed

lemma be_word_roundtrip: "LENGTH('a) \<le> 8 * n \<Longrightarrow> be_word (be_bytes n w) = (w :: 'a::len word)"
  by (simp add: be_word_be_bytes take_bit_word_eq_self)

lemma be_word_field [simp]:
  "be_word (be_bytes 2 (b :: u16)) = b"
  "be_word (be_bytes 4 (c :: u32)) = c"
  "be_word (be_bytes 8 (d :: u64)) = d"
  "be_word (be_bytes 16 (e :: bytes16)) = e"
  "be_word (be_bytes 32 (f :: bytes32)) = f"
  by (simp_all add: be_word_roundtrip)

lemma be_bytes_be_word:
  "length bs = n \<Longrightarrow> 8 * n \<le> LENGTH('a) \<Longrightarrow> be_bytes n (be_word bs :: 'a::len word) = bs"
proof (induction bs arbitrary: n rule: rev_induct)
  case Nil
  then show ?case by simp
next
  case (snoc b bs)
  then obtain m where n: "n = Suc m" "length bs = m" by auto
  have low: "ucast (push_bit 8 (be_word bs) OR (ucast b :: 'a word)) = (b :: 8 word)"
    using snoc.prems n by (intro bit_word_eqI) (auto simp: bit_simps)
  have high: "drop_bit 8 (push_bit 8 (be_word bs :: 'a word) OR ucast b)
      = take_bit (LENGTH('a) - 8) (be_word bs :: 'a word)"
  proof (rule bit_word_eqI)
    fix i
    assume "i < LENGTH('a)"
    have "\<not> bit b (8 + i)" using bit_imp_le_length[of b "8 + i"] by auto
    then show "bit (drop_bit 8 (push_bit 8 (be_word bs :: 'a word) OR ucast b)) i
        = bit (take_bit (LENGTH('a) - 8) (be_word bs :: 'a word)) i"
      by (auto simp: bit_simps)
  qed
  have trunc: "be_bytes m (take_bit k (w :: 'a word)) = be_bytes m w" if "8 * m \<le> k" for k m w
    using that
  proof (induction m arbitrary: k w)
    case (Suc m)
    have "drop_bit 8 (take_bit k w) = take_bit (k - 8) (drop_bit 8 w)"
      using Suc.prems by (simp add: drop_bit_take_bit)
    moreover have "ucast (take_bit k w) = (ucast w :: 8 word)"
      using Suc.prems by (intro bit_word_eqI) (auto simp: bit_simps)
    ultimately show ?case using Suc by simp
  qed simp
  have "be_bytes n (be_word (bs @ [b]) :: 'a word)
      = be_bytes m (take_bit (LENGTH('a) - 8) (be_word bs :: 'a word)) @ [b]"
    by (simp only: n be_word_snoc be_bytes.simps high low)
  also have "\<dots> = be_bytes m (be_word bs :: 'a word) @ [b]"
    using snoc.prems n by (subst trunc) auto
  finally show ?case using snoc n by simp
qed

lemma be_bytes_field:
  "length bs = 2 \<Longrightarrow> be_bytes 2 (be_word bs :: u16) = bs"
  "length bs = 4 \<Longrightarrow> be_bytes 4 (be_word bs :: u32) = bs"
  "length bs = 8 \<Longrightarrow> be_bytes 8 (be_word bs :: u64) = bs"
  "length bs = 16 \<Longrightarrow> be_bytes 16 (be_word bs :: bytes16) = bs"
  "length bs = 32 \<Longrightarrow> be_bytes 32 (be_word bs :: bytes32) = bs"
  by (simp_all add: be_bytes_be_word)

lemma be_bytes_eq_iff:
  "length bs = 2 \<Longrightarrow> be_bytes 2 (v :: u16) = bs \<longleftrightarrow> v = be_word bs"
  "length bs = 4 \<Longrightarrow> be_bytes 4 (w :: u32) = bs \<longleftrightarrow> w = be_word bs"
  "length bs = 8 \<Longrightarrow> be_bytes 8 (x :: u64) = bs \<longleftrightarrow> x = be_word bs"
  by (auto simp: be_bytes_field)


section \<open>Buffers and fixed offsets\<close>

text \<open>
  \<^term>\<open>subslice lo hi src\<close> is \<^verbatim>\<open>src[lo:hi]\<close> on a buffer that is long enough, and
  \<^term>\<open>put off bs dst\<close> writes \<open>bs\<close> over \<^verbatim>\<open>dst[off:]\<close>, as
  \<^verbatim>\<open>copy\<close> and \<^verbatim>\<open>PutUintN\<close> do when the bytes fit.
\<close>

definition subslice :: "nat \<Rightarrow> nat \<Rightarrow> 'a list \<Rightarrow> 'a list" where
  "subslice lo hi xs = take (hi - lo) (drop lo xs)"

definition put :: "nat \<Rightarrow> 'a list \<Rightarrow> 'a list \<Rightarrow> 'a list" where
  "put off bs dst = take off dst @ bs @ drop (off + length bs) dst"

definition zeros :: "nat \<Rightarrow> bytes" where
  "zeros n = replicate n 0"

definition all_zero :: "bytes \<Rightarrow> bool" where
  "all_zero bs \<longleftrightarrow> list_all (\<lambda>b. b = 0) bs"

lemma length_zeros [simp]: "length (zeros n) = n"
  by (simp add: zeros_def)

lemma length_slice [simp]: "length (subslice lo hi xs) = min (hi - lo) (length xs - lo)"
  by (simp add: subslice_def)

lemma length_put [simp]:
  "length dst = n \<Longrightarrow> off + length bs \<le> n \<Longrightarrow> length (put off bs dst) = n"
  by (auto simp: put_def)

lemma slice_zeros [slices]: "hi \<le> n \<Longrightarrow> subslice lo hi (zeros n) = zeros (hi - lo)"
  by (simp add: subslice_def zeros_def)

lemma slice_put_same [slices]:
  "off + length bs \<le> length dst \<Longrightarrow> lo = off \<Longrightarrow> hi = off + length bs \<Longrightarrow>
     subslice lo hi (put off bs dst) = bs"
  by (simp add: subslice_def put_def)

lemma slice_put_below [slices]:
  "off + length bs \<le> length dst \<Longrightarrow> hi \<le> off \<Longrightarrow> subslice lo hi (put off bs dst) = subslice lo hi dst"
  by (cases "lo \<le> hi") (simp_all add: subslice_def put_def take_drop min_def)

lemma slice_put_above [slices]:
  "off + length bs \<le> length dst \<Longrightarrow> off + length bs \<le> lo \<Longrightarrow>
     subslice lo hi (put off bs dst) = subslice lo hi dst"
  by (simp add: subslice_def put_def)

lemma all_zero_zeros [simp]: "all_zero (zeros n)"
  by (simp add: all_zero_def zeros_def list_all_length)

lemma all_zero_iff: "all_zero bs \<longleftrightarrow> bs = zeros (length bs)"
  unfolding all_zero_def zeros_def
  by (induction bs) auto

lemma slice_append_left [simp]: "hi \<le> length xs \<Longrightarrow> subslice lo hi (xs @ ys) = subslice lo hi xs"
  by (simp add: subslice_def)

lemma slice_append_right:
  "length xs \<le> lo \<Longrightarrow> subslice lo hi (xs @ ys) = subslice (lo - length xs) (hi - length xs) ys"
  by (simp add: subslice_def)

lemma slice_all: "hi = length xs \<Longrightarrow> subslice 0 hi xs = xs"
  by (simp add: subslice_def)

lemma slice_slice: "hi' \<le> hi - lo \<Longrightarrow> subslice lo' hi' (subslice lo hi xs) = subslice (lo + lo') (lo + hi') xs"
  by (cases "lo' \<le> hi'") (simp_all add: subslice_def take_drop min_def add.commute)

lemma nth_put_same [slices]: "off < length dst \<Longrightarrow> n = off \<Longrightarrow> put off [b] dst ! n = b"
  by (simp add: put_def nth_append)

lemma nth_put_below [slices]: "off \<le> length dst \<Longrightarrow> n < off \<Longrightarrow> put off bs dst ! n = dst ! n"
  by (simp add: put_def nth_append)

lemma nth_put_above [slices]:
  "off + length bs \<le> length dst \<Longrightarrow> off + length bs \<le> n \<Longrightarrow> put off bs dst ! n = dst ! n"
  by (auto simp: put_def nth_append)

lemma nth_zeros [slices]: "n < k \<Longrightarrow> zeros k ! n = 0"
  by (simp add: zeros_def)

lemma slice_single: "n < length xs \<Longrightarrow> hi = Suc n \<Longrightarrow> subslice n hi xs = [xs ! n]"
  by (simp add: subslice_def take_Suc_conv_app_nth)

lemma put_put_same: "length bs = length cs \<Longrightarrow> off + length cs \<le> length dst \<Longrightarrow>
    put off bs (put off cs dst) = put off bs dst"
  by (simp add: put_def)

lemma put_subslice: "off + n \<le> length dst \<Longrightarrow> put off (subslice off (off + n) dst) dst = dst"
  by (simp add: put_def subslice_def) (metis append_take_drop_id add.commute drop_drop)

text \<open>
  A buffer is the concatenation of its fields: \<^term>\<open>cuts bps xs\<close> cuts it at the given
  offsets, so two buffers with equal fields are equal.
\<close>

fun cuts :: "nat list \<Rightarrow> 'a list \<Rightarrow> 'a list list" where
  "cuts (a # b # bps) xs = subslice a b xs # cuts (b # bps) xs"
| "cuts bps xs = []"

lemma slice_split: "a \<le> b \<Longrightarrow> b \<le> c \<Longrightarrow> subslice a c xs = subslice a b xs @ subslice b c xs"
proof -
  assume le: "a \<le> b" "b \<le> c"
  then have "c - a = (b - a) + (c - b)" by simp
  then have "take (c - a) (drop a xs) = take (b - a) (drop a xs) @ take (c - b) (drop (b - a) (drop a xs))"
    by (simp only: take_add)
  then show ?thesis using le by (simp add: subslice_def)
qed

lemma concat_cuts: "sorted (a # bps) \<Longrightarrow> concat (cuts (a # bps) xs) = subslice a (last (a # bps)) xs"
proof (induction bps arbitrary: a)
  case Nil
  then show ?case by (simp add: subslice_def)
next
  case (Cons b bps)
  then have "b \<le> last (b # bps)" by (cases bps rule: rev_cases) auto
  with Cons show ?case using slice_split[of a b "last (b # bps)" xs] by simp
qed

lemma cuts_eqI:
  assumes "length xs = n" "length ys = n" "sorted (0 # bps)" "last (0 # bps) = n"
    and "cuts (0 # bps) xs = cuts (0 # bps) ys"
  shows "xs = ys"
proof -
  have "subslice 0 n xs = subslice 0 n ys"
    using assms(3,4,5) concat_cuts[of 0 bps xs] concat_cuts[of 0 bps ys] by simp
  then show ?thesis using assms(1,2) by (simp add: slice_all)
qed


lemma map_eq_upt: "length xs = n \<Longrightarrow> map f xs = [a..<a + n] \<longleftrightarrow> (\<forall>k<n. f (xs ! k) = a + k)"
proof
  assume n: "length xs = n" and eq: "map f xs = [a..<a + n]"
  show "\<forall>k<n. f (xs ! k) = a + k"
  proof (intro allI impI)
    fix k assume "k < n"
    then have "map f xs ! k = a + k" unfolding eq by simp
    then show "f (xs ! k) = a + k" using \<open>k < n\<close> n by simp
  qed
next
  assume "length xs = n" "\<forall>k<n. f (xs ! k) = a + k"
  then show "map f xs = [a..<a + n]" by (intro nth_equalityI) simp_all
qed

section \<open>Binary search\<close>

text \<open>
  \<^verbatim>\<open>sort.Search(n, f)\<close>: the loop of Go's standard library over the half-open range
  \<open>[i, j)\<close>.
\<close>

function search_loop :: "(nat \<Rightarrow> bool) \<Rightarrow> nat \<Rightarrow> nat \<Rightarrow> nat" where
  "search_loop f i j =
     (if i < j
      then let h = (i + j) div 2
           in if \<not> f h then search_loop f (h + 1) j else search_loop f i h
      else i)"
  by pat_completeness auto
termination
  by (relation "measure (\<lambda>(f, i, j). j - i)") auto

declare search_loop.simps [simp del]

definition sort_Search :: "nat \<Rightarrow> (nat \<Rightarrow> bool) \<Rightarrow> nat" where
  "sort_Search n f = search_loop f 0 n"

definition search_list :: "('a \<Rightarrow> bool) \<Rightarrow> 'a list \<Rightarrow> nat" where
  "search_list P xs = sort_Search (length xs) (\<lambda>i. P (xs ! i))"

lemma search_loop_spec:
  "i \<le> j \<Longrightarrow> i \<le> search_loop f i j \<and> search_loop f i j \<le> j
     \<and> (search_loop f i j < j \<longrightarrow> f (search_loop f i j))
     \<and> (i < search_loop f i j \<longrightarrow> \<not> f (search_loop f i j - 1))"
proof (induction f i j rule: search_loop.induct)
  case (1 f i j)
  show ?case
  proof (cases "i < j")
    case False
    then have "search_loop f i j = i" by (subst search_loop.simps) simp
    with False 1 show ?thesis by simp
  next
    case True
    define h where "h = (i + j) div 2"
    have h: "i \<le> h" "h < j" using True by (auto simp: h_def)
    show ?thesis
    proof (cases "f h")
      case True
      have IH: "i \<le> search_loop f i h \<and> search_loop f i h \<le> h
          \<and> (search_loop f i h < h \<longrightarrow> f (search_loop f i h))
          \<and> (i < search_loop f i h \<longrightarrow> \<not> f (search_loop f i h - 1))"
        using 1(2)[OF \<open>i < j\<close> h_def] True h by simp
      have "search_loop f i j = search_loop f i h"
        using \<open>i < j\<close> True by (simp add: search_loop.simps[of f i j] h_def)
      then show ?thesis using IH True h by (cases "search_loop f i h = h") auto
    next
      case False
      have IH: "h + 1 \<le> search_loop f (h + 1) j \<and> search_loop f (h + 1) j \<le> j
          \<and> (search_loop f (h + 1) j < j \<longrightarrow> f (search_loop f (h + 1) j))
          \<and> (h + 1 < search_loop f (h + 1) j \<longrightarrow> \<not> f (search_loop f (h + 1) j - 1))"
        using 1(1)[OF \<open>i < j\<close> h_def] False h by simp
      have "search_loop f i j = search_loop f (h + 1) j"
        using \<open>i < j\<close> False by (simp add: search_loop.simps[of f i j] h_def)
      then show ?thesis using IH False h by (cases "search_loop f (h + 1) j = h + 1") auto
    qed
  qed
qed

lemma search_loop_cong: "(\<And>n. n < j \<Longrightarrow> f n = g n) \<Longrightarrow> search_loop f i j = search_loop g i j"
proof (induction f i j rule: search_loop.induct)
  case (1 f i j)
  have "(i + j) div 2 < j" if "i < j" using that by simp
  then show ?case
    using 1 by (simp add: search_loop.simps[of f i j] search_loop.simps[of g i j] Let_def)
qed

lemma search_list_cong: "(\<And>x. x \<in> set xs \<Longrightarrow> P x = Q x) \<Longrightarrow> search_list P xs = search_list Q xs"
  unfolding search_list_def sort_Search_def by (rule search_loop_cong) simp

lemma search_list_le: "search_list P xs \<le> length xs"
  using search_loop_spec[of 0 "length xs" "\<lambda>i. P (xs ! i)"] by (simp add: search_list_def sort_Search_def)

lemma search_list_hit: "search_list P xs < length xs \<Longrightarrow> P (xs ! search_list P xs)"
  using search_loop_spec[of 0 "length xs" "\<lambda>i. P (xs ! i)"] by (simp add: search_list_def sort_Search_def)

lemma search_list_miss: "0 < search_list P xs \<Longrightarrow> \<not> P (xs ! (search_list P xs - 1))"
  using search_loop_spec[of 0 "length xs" "\<lambda>i. P (xs ! i)"] by (simp add: search_list_def sort_Search_def)

text \<open>
  On a slice where the predicate, once true, stays true, the search is the linear scan.
\<close>

lemma search_list_takeWhile:
  assumes "sorted_wrt (\<lambda>x y. P x \<longrightarrow> P y) xs"
  shows "search_list P xs = length (takeWhile (\<lambda>x. \<not> P x) xs)"
proof -
  let ?r = "search_list P xs" and ?t = "length (takeWhile (\<lambda>x. \<not> P x) xs)"
  have mono: "P (xs ! i) \<Longrightarrow> i \<le> j \<Longrightarrow> j < length xs \<Longrightarrow> P (xs ! j)" for i j
    using assms unfolding sorted_wrt_iff_nth_less by (cases "i = j") (auto simp: le_less)
  have t_le: "?t \<le> length xs" by (rule length_takeWhile_le)
  have "\<not> ?t < ?r"
  proof
    assume lt: "?t < ?r"
    then have "?t < length xs" using search_list_le[of P xs] by linarith
    then have "P (xs ! ?t)" using nth_length_takeWhile[of "\<lambda>x. \<not> P x" xs] by simp
    moreover have "?r - 1 < length xs" using lt search_list_le[of P xs] by linarith
    ultimately have "P (xs ! (?r - 1))" using mono[of ?t "?r - 1"] lt by linarith
    then show False using search_list_miss[of P xs] lt by simp
  qed
  moreover have "\<not> ?r < ?t"
  proof
    assume lt: "?r < ?t"
    then have "xs ! ?r \<in> set (takeWhile (\<lambda>x. \<not> P x) xs)"
      using nth_mem[of ?r "takeWhile (\<lambda>x. \<not> P x) xs"] by (simp add: takeWhile_nth)
    then have "\<not> P (xs ! ?r)" by (auto dest: set_takeWhileD)
    then show False using search_list_hit[of P xs] lt t_le by linarith
  qed
  ultimately show ?thesis by linarith
qed

lemma drop_search_list:
  "sorted_wrt (\<lambda>x y. P x \<longrightarrow> P y) xs \<Longrightarrow> drop (search_list P xs) xs = dropWhile (\<lambda>x. \<not> P x) xs"
  by (simp add: search_list_takeWhile dropWhile_eq_drop)

lemma take_search_list:
  "sorted_wrt (\<lambda>x y. P x \<longrightarrow> P y) xs \<Longrightarrow> take (search_list P xs) xs = takeWhile (\<lambda>x. \<not> P x) xs"
  using takeWhile_eq_take[of "\<lambda>x. \<not> P x" xs] by (simp add: search_list_takeWhile)


lemma find_takeWhile:
  "List.find P xs = (if length (takeWhile (\<lambda>x. \<not> P x) xs) = length xs then None
     else Some (xs ! length (takeWhile (\<lambda>x. \<not> P x) xs)))"
  by (induction xs) auto


section \<open>Widths\<close>

lemma unat_ucast_32_64 [simp]: "unat (ucast (x :: u32) :: u64) = unat x"
  by (simp add: unsigned_ucast_eq take_bit_nat_eq_self unsigned_less[THEN less_le_trans])

lemma unat_u32_less: "unat (x :: u32) < 4294967296"
  using unsigned_less[of x, where ?'a = nat] by simp

lemma unat_u64_less: "unat (x :: u64) < 18446744073709551616"
  using unsigned_less[of x, where ?'a = nat] by simp

lemma unat_max_u64 [simp]: "unat (NOT 0 :: u64) = 18446744073709551615"
  by (simp add: unsigned_minus_1_eq_mask mask_eq_exp_minus_1)

lemma unat_add_u64:
  "unat a + unat b < 18446744073709551616 \<Longrightarrow> unat (a + b :: u64) = unat a + unat b"
  by (simp add: unat_word_ariths)

lemma unat_diff_u64: "b \<le> a \<Longrightarrow> unat (a - b :: u64) = unat a - unat b"
  by (rule unat_sub)

lemma unat_max_diff [simp]: "unat (- 1 - x :: u64) = 18446744073709551615 - unat x"
  using unat_sub[of x "- 1"] by (simp add: unsigned_minus_1_eq_mask mask_eq_exp_minus_1)


section \<open>Log sequence numbers\<close>

definition MaxRecordLSN :: u64 where
  "MaxRecordLSN = NOT 0 - 1"

definition ReservedLSN :: u64 where
  "ReservedLSN = NOT 0"

definition MaxUint64 :: u64 where
  "MaxUint64 = NOT 0"

lemma unat_MaxRecordLSN [simp]: "unat MaxRecordLSN = 18446744073709551614"
  by (simp add: MaxRecordLSN_def)

lemma le_MaxRecordLSN_iff: "x \<le> MaxRecordLSN \<longleftrightarrow> x \<noteq> ReservedLSN"
proof -
  have "x \<le> MaxRecordLSN \<longleftrightarrow> unat x \<le> 18446744073709551614"
    by (simp add: MaxRecordLSN_def word_le_nat_alt)
  also have "\<dots> \<longleftrightarrow> unat x \<noteq> 18446744073709551615"
    using unsigned_less[of x, where ?'a = nat] by auto
  also have "\<dots> \<longleftrightarrow> x \<noteq> ReservedLSN"
    by (simp add: ReservedLSN_def word_unat_eq_iff unsigned_minus_1_eq_mask mask_eq_exp_minus_1)
  finally show ?thesis .
qed

lemma less_ReservedLSN_iff: "x < ReservedLSN \<longleftrightarrow> x \<noteq> ReservedLSN"
  by (auto simp: ReservedLSN_def word_order.not_eq_extremum)

lemma le_ReservedLSN [simp]: "x \<le> ReservedLSN"
  by (simp add: ReservedLSN_def)

lemma unat_succ_lsn [lsn_arith]: "x \<le> MaxRecordLSN \<Longrightarrow> unat (x + 1) = unat x + 1"
  using unatSuc[of x] by (simp add: le_MaxRecordLSN_iff ReservedLSN_def add.commute)
    (metis add.commute add_eq_0_iff)

lemma lsn_less_succ [lsn_arith]: "x \<le> MaxRecordLSN \<Longrightarrow> x < x + 1"
  by (simp add: word_less_nat_alt unat_succ_lsn)

lemma lsn_succ_le: "x < y \<Longrightarrow> x + 1 \<le> (y :: u64)"
  by (rule inc_le)

lemma lsn_less_succ_iff: "x \<le> MaxRecordLSN \<Longrightarrow> y < x + 1 \<longleftrightarrow> y \<le> x"
  by (simp add: word_less_nat_alt word_le_nat_alt unat_succ_lsn) linarith

lemma lsn_succ_le_iff: "x \<le> MaxRecordLSN \<Longrightarrow> x + 1 \<le> y \<longleftrightarrow> x < y"
  using lsn_less_succ_iff[of x y] by (metis not_le)

end
