(* ===== verification/Go_Std.thy ===== *)
theory Go_Std
  imports Prelude
begin

text \<open>
  The parts of Go's standard library the program calls on data: decimal and hexadecimal
  formatting, \<^verbatim>\<open>strings.Trim\<close>, \<^verbatim>\<open>strings.Join\<close>, UTF-8 decoding, the
  CRC-32C checksum of \<^verbatim>\<open>hash/crc32\<close> and the digest of \<^verbatim>\<open>crypto/sha256\<close>.
  Go strings are byte strings, as the list of 8-bit characters \<^typ>\<open>string\<close> is.
\<close>


section \<open>Formatting\<close>

definition bytes_of_string :: "string \<Rightarrow> bytes" where
  "bytes_of_string s = map of_char s"

definition digit :: "nat \<Rightarrow> char" where
  "digit n = char_of (48 + n)"

definition undigit :: "char \<Rightarrow> nat" where
  "undigit c = of_char c - 48"

text \<open>Base-10 digits of a number without padding: \<^verbatim>\<open>%d\<close>.\<close>

fun decimal :: "nat \<Rightarrow> string" where
  "decimal n = (if n < 10 then [digit n] else decimal (n div 10) @ [digit (n mod 10)])"

declare decimal.simps [simp del]

text \<open>\<^verbatim>\<open>%0<w>d\<close>: zeros on the left up to width \<open>w\<close>, never a truncation.\<close>

definition pad0 :: "nat \<Rightarrow> string \<Rightarrow> string" where
  "pad0 w s = replicate (w - length s) (CHR ''0'') @ s"

definition fmt_d :: "nat \<Rightarrow> 'a::len word \<Rightarrow> string" where
  "fmt_d w x = pad0 w (decimal (unat x))"

definition hex_digit :: "nat \<Rightarrow> char" where
  "hex_digit n = (if n < 10 then char_of (48 + n) else char_of (87 + n))"

definition hex_EncodeToString :: "bytes \<Rightarrow> string" where
  "hex_EncodeToString bs = concat (map (\<lambda>b. [hex_digit (unat b div 16), hex_digit (unat b mod 16)]) bs)"

text \<open>Base-16 digits without padding: \<^verbatim>\<open>%x\<close>.\<close>

fun hexadecimal :: "nat \<Rightarrow> string" where
  "hexadecimal n = (if n < 16 then [hex_digit n] else hexadecimal (n div 16) @ [hex_digit (n mod 16)])"

declare hexadecimal.simps [simp del]

definition undecimal :: "string \<Rightarrow> nat" where
  "undecimal s = foldl (\<lambda>acc c. acc * 10 + undigit c) 0 s"

lemma undigit_digit [simp]: "n < 10 \<Longrightarrow> undigit (digit n) = n"
  by (simp add: digit_def undigit_def)

lemma undecimal_snoc: "undecimal (s @ [c]) = undecimal s * 10 + undigit c"
  by (simp add: undecimal_def)

lemma undecimal_decimal: "undecimal (decimal n) = n"
proof (induction n rule: decimal.induct)
  case (1 n)
  show ?case
  proof (cases "n < 10")
    case True
    then show ?thesis by (subst decimal.simps) (simp add: undecimal_def)
  next
    case False
    with 1 have "undecimal (decimal (n div 10)) = n div 10" by simp
    with False show ?thesis by (subst decimal.simps) (simp add: undecimal_snoc)
  qed
qed

lemma undecimal_pad0: "undecimal (pad0 w s) = undecimal s"
proof -
  have "undecimal (replicate k (CHR ''0'') @ s) = undecimal s" for k
    by (induction k) (simp_all add: undecimal_def undigit_def)
  then show ?thesis by (simp add: pad0_def)
qed

lemma undecimal_fmt_d [simp]: "undecimal (fmt_d w x) = unat x"
  by (simp add: fmt_d_def undecimal_pad0 undecimal_decimal)

lemma fmt_d_inject [simp]: "fmt_d w x = fmt_d w y \<longleftrightarrow> x = y"
  by (metis undecimal_fmt_d word_unat_eq_iff)

lemma length_decimal: "n < 10 ^ k \<Longrightarrow> 0 < k \<Longrightarrow> length (decimal n) \<le> k"
proof (induction n arbitrary: k rule: decimal.induct)
  case (1 n)
  show ?case
  proof (cases "n < 10")
    case True
    then show ?thesis using 1 by (subst decimal.simps) simp
  next
    case False
    with 1 obtain m where k: "k = Suc m" "0 < m" by (cases k; cases "k - 1") auto
    then have "n div 10 < 10 ^ m" using 1(2) by (simp add: less_mult_imp_div_less mult.commute)
    with 1 False k have "length (decimal (n div 10)) \<le> m" by blast
    with False k show ?thesis by (subst decimal.simps) simp
  qed
qed

lemma length_fmt_d20 [simp]: "length (fmt_d 20 (x :: u64)) = 20"
proof -
  have "unat x < 10 ^ 20"
    using unsigned_less[of x, where ?'a = nat] by simp
  then show ?thesis using length_decimal[of "unat x" 20] by (simp add: fmt_d_def pad0_def)
qed

lemma length_hex [simp]: "length (hex_EncodeToString bs) = 2 * length bs"
  by (induction bs) (simp_all add: hex_EncodeToString_def)


section \<open>Strings\<close>

definition trim_slash :: "string \<Rightarrow> string" where
  "trim_slash s = rev (dropWhile (\<lambda>c. c = CHR ''/'') (rev (dropWhile (\<lambda>c. c = CHR ''/'') s)))"

fun join_slash :: "string list \<Rightarrow> string" where
  "join_slash [] = []"
| "join_slash [s] = s"
| "join_slash (s # t # ss) = s @ CHR ''/'' # join_slash (t # ss)"

fun split_slash :: "string \<Rightarrow> string list" where
  "split_slash [] = [[]]"
| "split_slash (c # cs) =
     (if c = CHR ''/'' then [] # split_slash cs
      else case split_slash cs of [] \<Rightarrow> [[c]] | s # ss \<Rightarrow> (c # s) # ss)"

lemma dropWhile_idem [simp]: "dropWhile P (dropWhile P xs) = dropWhile P xs"
  by (induction xs) auto

lemma dropWhile_snoc_stop: "\<not> P x \<Longrightarrow> dropWhile P (xs @ [x]) = dropWhile P xs @ [x]"
  by (induction xs) auto

lemma dropWhile_rtrim:
  "dropWhile P (rev (dropWhile P (rev (dropWhile P s)))) = rev (dropWhile P (rev (dropWhile P s)))"
proof (cases "dropWhile P s")
  case Nil
  then show ?thesis by (simp only: rev.simps dropWhile.simps)
next
  case (Cons c cs)
  then have c: "\<not> P c" using hd_dropWhile[of P s] by force
  then have "dropWhile P (rev (c # cs)) = dropWhile P (rev cs) @ [c]"
    by (simp add: dropWhile_snoc_stop)
  with c Cons show ?thesis by simp
qed

lemma trim_slash_idem [simp]: "trim_slash (trim_slash s) = trim_slash s"
  by (simp add: trim_slash_def dropWhile_rtrim)

text \<open>
  \<^verbatim>\<open>utf8.DecodeRune\<close> on the front of a non-empty byte string: the rune and its
  width, or \<open>None\<close> where the standard library reports an encoding error.
\<close>

definition is_cont :: "nat \<Rightarrow> bool" where
  "is_cont b \<longleftrightarrow> 128 \<le> b \<and> b < 192"

definition decode_rune :: "nat list \<Rightarrow> (nat \<times> nat) option" where
  "decode_rune bs =
     (let n = length bs; a = bs ! 0; b = bs ! 1; c = bs ! 2; d = bs ! 3
      in if a < 128 then Some (a, 1)
      else if 194 \<le> a \<and> a < 224 \<and> 2 \<le> n \<and> is_cont b
        then Some ((a - 192) * 64 + (b - 128), 2)
      else if 224 \<le> a \<and> a < 240 \<and> 3 \<le> n \<and> is_cont b \<and> is_cont c
          \<and> (a = 224 \<longrightarrow> 160 \<le> b) \<and> (a = 237 \<longrightarrow> b < 160)
        then Some ((a - 224) * 4096 + (b - 128) * 64 + (c - 128), 3)
      else if 240 \<le> a \<and> a < 245 \<and> 4 \<le> n \<and> is_cont b \<and> is_cont c \<and> is_cont d
          \<and> (a = 240 \<longrightarrow> 144 \<le> b) \<and> (a = 244 \<longrightarrow> b < 144)
        then Some ((a - 240) * 262144 + (b - 128) * 4096 + (c - 128) * 64 + (d - 128), 4)
      else None)"

lemma decode_rune_advances: "decode_rune bs = Some (r, n) \<Longrightarrow> 0 < n"
  by (simp add: decode_rune_def Let_def split: if_splits)

function runes :: "nat list \<Rightarrow> nat list option" where
  "runes bs =
     (if bs = [] then Some []
      else case decode_rune bs of
        None \<Rightarrow> None
      | Some (r, n) \<Rightarrow> map_option (Cons r) (runes (drop n bs)))"
  by pat_completeness auto
termination
  by (relation "measure length") (auto dest: decode_rune_advances)

declare runes.simps [simp del]

definition utf8_runes :: "string \<Rightarrow> nat list option" where
  "utf8_runes s = runes (map of_char s)"

text \<open>\<^verbatim>\<open>unicode.IsControl\<close>: the category Cc.\<close>

definition is_control :: "nat \<Rightarrow> bool" where
  "is_control r \<longleftrightarrow> r < 32 \<or> 127 \<le> r \<and> r < 160"

section \<open>CRC-32C\<close>

text \<open>
  \<^verbatim>\<open>crc32.Checksum\<close> with the Castagnoli table: the reflected polynomial
  \<^verbatim>\<open>0x82f63b78\<close>, one table step per byte.
\<close>

definition crc_shift :: "u32 \<Rightarrow> u32" where
  "crc_shift c = (if bit c 0 then drop_bit 1 c XOR 0x82f63b78 else drop_bit 1 c)"

definition crc_table :: "u8 \<Rightarrow> u32" where
  "crc_table i = (crc_shift ^^ 8) (ucast i)"

definition crc_update :: "u32 \<Rightarrow> bytes \<Rightarrow> u32" where
  "crc_update crc bs = NOT (foldl (\<lambda>c b. crc_table (ucast c XOR b) XOR drop_bit 8 c) (NOT crc) bs)"

definition crc32c :: "bytes \<Rightarrow> u32" where
  "crc32c bs = crc_update 0 bs"

text \<open>Hashing a stream in pieces is hashing the concatenation.\<close>

lemma crc_update_append: "crc_update c (xs @ ys) = crc_update (crc_update c xs) ys"
  by (simp add: crc_update_def)

text \<open>
  One byte step is a bijection of the register, and of the byte, so changing a single byte
  changes the checksum. The shift is linear and loses nothing: the polynomial sets the top bit
  exactly when a one was shifted out.
\<close>

definition crc_step :: "u32 \<Rightarrow> u8 \<Rightarrow> u32" where
  "crc_step c b = crc_table (ucast c XOR b) XOR drop_bit 8 c"

lemma crc_update_step: "crc_update crc bs = NOT (foldl crc_step (NOT crc) bs)"
  by (simp add: crc_update_def crc_step_def[abs_def])

lemma crc_shift_xor: "crc_shift (x XOR y) = crc_shift x XOR crc_shift y"
  by (rule bit_word_eqI) (auto simp: crc_shift_def bit_simps)

lemma crc_shift_pow_xor: "(crc_shift ^^ n) (x XOR y) = (crc_shift ^^ n) x XOR (crc_shift ^^ n) y"
  by (induction n) (simp_all add: crc_shift_xor)

lemma crc_shift_zero: "crc_shift x = 0 \<Longrightarrow> x = 0"
proof -
  assume z: "crc_shift x = 0"
  have top: "bit (0x82f63b78 :: u32) 31" by (simp add: bit_numeral_word_iff)
  have "\<not> bit x 0"
  proof
    assume "bit x 0"
    then have "bit (crc_shift x) 31"
      using top bit_imp_le_length[of x 32] by (auto simp: crc_shift_def bit_xor_iff bit_drop_bit_eq)
    then show False using z by simp
  qed
  then have d: "drop_bit 1 x = 0" "\<not> bit x 0" using z by (simp_all add: crc_shift_def)
  have "\<not> bit x n" for n
  proof (cases n)
    case (Suc m)
    have "\<not> bit (drop_bit 1 x) m" using d(1) by simp
    then show ?thesis using Suc by (simp add: bit_drop_bit_eq)
  qed (use d(2) in simp)
  then show "x = 0" by (simp add: bit_word_eqI)
qed

lemma crc_shift_pow_zero: "(crc_shift ^^ n) x = 0 \<Longrightarrow> x = 0"
  by (induction n) (auto dest: crc_shift_zero)

lemma crc_shift_pow_inject: "(crc_shift ^^ n) x = (crc_shift ^^ n) y \<Longrightarrow> x = y"
proof -
  assume "(crc_shift ^^ n) x = (crc_shift ^^ n) y"
  then have "x XOR y = 0" using crc_shift_pow_xor[of n x y] crc_shift_pow_zero[of n "x XOR y"] by simp
  then have "x XOR y XOR y = 0 XOR y" by (simp only: xor.assoc[symmetric])
  then show ?thesis by (simp add: xor.assoc)
qed

lemma crc_shift_pow_low:
  "(\<forall>i<n. \<not> bit z i) \<Longrightarrow> (crc_shift ^^ n) z = drop_bit n z"
proof (induction n)
  case (Suc n)
  then have "(crc_shift ^^ n) z = drop_bit n z" "\<not> bit (drop_bit n z) 0"
    by (auto simp: bit_drop_bit_eq)
  then have "crc_shift ((crc_shift ^^ n) z) = drop_bit 1 (drop_bit n z)"
    by (simp add: crc_shift_def[of "drop_bit n z"])
  then show ?case by simp
qed simp

lemma crc_step_shift: "crc_step c b = (crc_shift ^^ 8) (c XOR ucast b)"
proof -
  define hi where "hi = push_bit 8 (drop_bit 8 c)"
  have split: "c XOR ucast b = ucast (ucast c XOR b) XOR hi"
    by (rule bit_word_eqI) (auto simp: hi_def bit_simps)
  have "(crc_shift ^^ 8) hi = drop_bit 8 hi"
    by (rule crc_shift_pow_low) (simp add: hi_def bit_simps)
  also have "\<dots> = drop_bit 8 c"
    using bit_imp_le_length[of c] by (intro bit_word_eqI) (fastforce simp: hi_def bit_simps)
  finally show ?thesis by (simp add: crc_step_def crc_table_def split crc_shift_pow_xor)
qed

lemma crc_step_inject:
  "crc_step c b = crc_step c' b \<longleftrightarrow> c = c'"
  "crc_step c b = crc_step c b' \<longleftrightarrow> b = b'"
proof -
  have x: "x XOR z = y XOR z \<longleftrightarrow> x = y" for x y z :: u32
    by (metis xor.assoc xor.right_neutral xor_self_eq)
  have "unat (ucast x :: u32) = unat x" for x :: u8
    by (simp add: unsigned_ucast_eq take_bit_nat_eq_self unsigned_less[THEN less_le_trans])
  then have u: "ucast b = (ucast b' :: u32) \<longleftrightarrow> b = b'" by (metis word_unat_eq_iff)
  show "crc_step c b = crc_step c' b \<longleftrightarrow> c = c'"
    using crc_shift_pow_inject[of 8 "c XOR ucast b" "c' XOR ucast b"] x
    unfolding crc_step_shift by blast
  show "crc_step c b = crc_step c b' \<longleftrightarrow> b = b'"
    using crc_shift_pow_inject[of 8 "c XOR ucast b" "c XOR ucast b'"] x[of "ucast b" c] u
    unfolding crc_step_shift by (metis xor.commute)
qed

lemma foldl_crc_step_inject: "foldl crc_step c ys = foldl crc_step c' ys \<longleftrightarrow> c = c'"
  by (induction ys arbitrary: c c') (simp_all add: crc_step_inject)

lemma crc32c_single_byte: "crc32c (xs @ b # ys) = crc32c (xs @ b' # ys) \<longleftrightarrow> b = b'"
  by (simp add: crc32c_def crc_update_step foldl_crc_step_inject crc_step_inject)


section \<open>SHA-256\<close>

text \<open>\<^verbatim>\<open>sha256.Sum256\<close> (FIPS 180-4) on a byte string.\<close>

text \<open>
  The constants are the first 32 bits of the fractional parts of the cube roots of the first 64
  primes, and of the square roots of the first eight: the integer root of the prime shifted left
  by 32 bits per factor, truncated to a word.
\<close>

definition iroot :: "nat \<Rightarrow> nat \<Rightarrow> nat" where
  "iroot k n = sort_Search (2 ^ 40) (\<lambda>r. n < (r + 1) ^ k)"

definition sha_primes :: "nat list" where
  "sha_primes = filter (\<lambda>p. list_all (\<lambda>d. p mod d \<noteq> 0) [2..<p]) [2..<312]"

definition sha_K :: "u32 list" where
  "sha_K = map (\<lambda>p. of_nat (iroot 3 (p * 2 ^ 96))) sha_primes"

datatype sha_state = Sha u32 u32 u32 u32 u32 u32 u32 u32

definition sha_root :: "nat \<Rightarrow> u32" where
  "sha_root p = of_nat (iroot 2 (p * 2 ^ 64))"

definition sha_init :: sha_state where
  "sha_init = Sha (sha_root 2) (sha_root 3) (sha_root 5) (sha_root 7)
                  (sha_root 11) (sha_root 13) (sha_root 17) (sha_root 19)"

definition sha_pad :: "bytes \<Rightarrow> bytes" where
  "sha_pad m = m @ [0x80] @ zeros ((119 - length m mod 64) mod 64)
     @ be_bytes 8 (of_nat (8 * length m) :: u64)"

definition sha_sched_next :: "u32 list \<Rightarrow> u32" where
  "sha_sched_next w =
     (let n = length w; a = w ! (n - 15); b = w ! (n - 2);
          s0 = word_rotr 7 a XOR word_rotr 18 a XOR drop_bit 3 a;
          s1 = word_rotr 17 b XOR word_rotr 19 b XOR drop_bit 10 b
      in w ! (n - 16) + s0 + w ! (n - 7) + s1)"

fun sha_sched :: "nat \<Rightarrow> u32 list \<Rightarrow> u32 list" where
  "sha_sched 0 w = w"
| "sha_sched (Suc k) w = sha_sched k (w @ [sha_sched_next w])"

fun words32 :: "bytes \<Rightarrow> u32 list" where
  "words32 (a # b # c # d # r) = be_word [a, b, c, d] # words32 r"
| "words32 _ = []"

fun sha_round :: "sha_state \<Rightarrow> u32 \<times> u32 \<Rightarrow> sha_state" where
  "sha_round (Sha a b c d e f g h) (k, w) =
     (let s1 = word_rotr 6 e XOR word_rotr 11 e XOR word_rotr 25 e;
          ch = (e AND f) XOR (NOT e AND g);
          t1 = h + s1 + ch + k + w;
          s0 = word_rotr 2 a XOR word_rotr 13 a XOR word_rotr 22 a;
          mj = (a AND b) XOR (a AND c) XOR (b AND c)
      in Sha (t1 + (s0 + mj)) a b c (d + t1) e f g)"

fun sha_add :: "sha_state \<Rightarrow> sha_state \<Rightarrow> sha_state" where
  "sha_add (Sha a b c d e f g h) (Sha a' b' c' d' e' f' g' h') =
     Sha (a + a') (b + b') (c + c') (d + d') (e + e') (f + f') (g + g') (h + h')"

fun sha_words :: "sha_state \<Rightarrow> u32 list" where
  "sha_words (Sha a b c d e f g h) = [a, b, c, d, e, f, g, h]"

definition sha_block :: "sha_state \<Rightarrow> bytes \<Rightarrow> sha_state" where
  "sha_block st blk = sha_add st (foldl sha_round st (zip sha_K (sha_sched 48 (words32 blk))))"

fun sha_blocks :: "nat \<Rightarrow> sha_state \<Rightarrow> bytes \<Rightarrow> sha_state" where
  "sha_blocks 0 st m = st"
| "sha_blocks (Suc n) st m = sha_blocks n (sha_block st (take 64 m)) (drop 64 m)"

definition sha256 :: "bytes \<Rightarrow> bytes32" where
  "sha256 m =
     (let p = sha_pad m
      in be_word (concat (map (be_bytes 4) (sha_words (sha_blocks (length p div 64) sha_init p)))))"

end
