(* ===== verification/Fixed_Codec.thy ===== *)
theory Fixed_Codec
  imports Prelude
begin

text \<open>
  The interface between the fixed-width record codecs and the objects built from them. A codec
  has a width, an encoder and a decoder; its laws are that the encoder fills the width, that a
  well-formed value decodes to itself, and that whatever decodes is well-formed and re-encodes to
  the very bytes it came from. The entry sequences of catalog pages, heads and segment indexes
  are derived here once.
\<close>

text \<open>\<^term>\<open>chunks width n bs\<close> are the windows a parse loop reads at a growing offset.\<close>

fun chunks :: "nat \<Rightarrow> nat \<Rightarrow> 'a list \<Rightarrow> 'a list list" where
  "chunks width 0 bs = []"
| "chunks width (Suc n) bs = take width bs # chunks width n (drop width bs)"

locale fixed_codec =
  fixes width :: nat
    and enc :: "'a \<Rightarrow> bytes"
    and dec :: "bytes \<Rightarrow> 'a res"
    and ok :: "'a \<Rightarrow> bool"
  assumes length_enc: "length (enc x) = width"
    and dec_enc: "ok x \<Longrightarrow> dec (enc x) = Inr x"
    and enc_dec: "dec bs = Inr x \<Longrightarrow> enc x = bs"
    and dec_ok: "dec bs = Inr x \<Longrightarrow> ok x"
begin

lemma dec_length: "dec bs = Inr x \<Longrightarrow> length bs = width"
  using enc_dec length_enc by fastforce

lemma enc_inject: "ok x \<Longrightarrow> ok y \<Longrightarrow> enc x = enc y \<Longrightarrow> x = y"
  by (metis dec_enc sum.inject(2))

lemma length_enc_seq: "length (concat (map enc xs)) = length xs * width"
  by (induction xs) (auto simp: length_enc)

lemma dec_enc_seq:
  "list_all ok xs \<Longrightarrow> mapE dec (chunks width (length xs) (concat (map enc xs) @ rest)) = Inr xs"
  by (induction xs) (auto simp: length_enc dec_enc)

lemma enc_dec_seq:
  "mapE dec (chunks width n bs) = Inr xs \<Longrightarrow> n * width \<le> length bs \<Longrightarrow>
     length xs = n \<and> list_all ok xs \<and> concat (map enc xs) = take (n * width) bs"
proof (induction n arbitrary: bs xs)
  case 0
  then show ?case by auto
next
  case (Suc n)
  from Suc.prems(1) obtain y ys where ys: "xs = y # ys" "dec (take width bs) = Inr y"
      "mapE dec (chunks width n (drop width bs)) = Inr ys" by auto
  moreover have "n * width \<le> length (drop width bs)" using Suc.prems(2) by auto
  ultimately have IH: "length ys = n" "list_all ok ys"
      "concat (map enc ys) = take (n * width) (drop width bs)" using Suc.IH by blast+
  have "enc y = take width bs" "ok y" using ys(2) enc_dec dec_ok by auto
  with IH ys(1) show ?case by (simp add: take_add)
qed

end

end
