(* ===== verification/Seg_Format.thy ===== *)
theory Seg_Format
  imports Go_Std Fixed_Codec
begin

text \<open>
  The segment object format (\<^verbatim>\<open>internal/segformat\<close>): codec and hash identifiers, the five
  fixed-width regions (file preamble, block preamble, index preamble, index entry, trailer), what
  each must satisfy, and their byte layouts. XXH64 is a third-party package, so the hash of
  \<^verbatim>\<open>HashXXH64\<close> is the parameter \<open>xxh\<close> of every definition that hashes.
\<close>


section \<open>Identifiers and limits\<close>

definition FilePreambleSize :: nat where "FilePreambleSize = 64"
definition BlockPreambleSize :: nat where "BlockPreambleSize = 64"
definition IndexPreambleSize :: nat where "IndexPreambleSize = 64"
definition BlockIndexEntrySize :: nat where "BlockIndexEntrySize = 64"
definition SegTrailerSize :: nat where "SegTrailerSize = 192"
definition RecordHeaderSize :: nat where "RecordHeaderSize = 16"
definition MaxRawBlockSize :: nat where "MaxRawBlockSize = 16777216"
definition MaxStoredBlockSize :: nat where "MaxStoredBlockSize = 20971520"
definition MaxRecordHeaders :: nat where "MaxRecordHeaders = 64"
definition MaxRecordHeaderBytes :: nat where "MaxRecordHeaderBytes = 262144"
definition MaxRecordHeaderKeyLen :: nat where "MaxRecordHeaderKeyLen = 1024"
definition MaxRecordHeaderValueLen :: nat where "MaxRecordHeaderValueLen = 65535"
definition MaxRecordValueLen :: nat where "MaxRecordValueLen = 4194304"
definition MaxBlockCount :: nat where
  "MaxBlockCount = (2 ^ 32 - 1 - IndexPreambleSize) div BlockIndexEntrySize"
definition MaxRecordCount :: nat where "MaxRecordCount = 4294967295"

definition SegVersion :: u16 where "SegVersion = 2"

lemmas seg_sizes [simp] =
  FilePreambleSize_def BlockPreambleSize_def IndexPreambleSize_def BlockIndexEntrySize_def
  SegTrailerSize_def RecordHeaderSize_def

definition fileMagic :: bytes where "fileMagic = bytes_of_string ''PLSG''"
definition blockMagic :: bytes where "blockMagic = bytes_of_string ''PLBK''"
definition segIndexMagic :: bytes where "segIndexMagic = bytes_of_string ''PLIX''"
definition segTrailerMagic :: bytes where "segTrailerMagic = bytes_of_string ''PLFT''"

lemma length_seg_magics [simp]:
  "length fileMagic = 4" "length blockMagic = 4" "length segIndexMagic = 4"
  "length segTrailerMagic = 4"
  by (simp_all add: fileMagic_def blockMagic_def segIndexMagic_def segTrailerMagic_def
      bytes_of_string_def)

text \<open>
  A codec, hash or record format is the 16-bit identifier stored on disk; any value can be read,
  and \<^verbatim>\<open>Validate\<close> accepts the known ones.
\<close>

type_synonym Codec = u16
type_synonym HashAlgo = u16
type_synonym RecordFormat = u16

definition CodecNone :: Codec where "CodecNone = 0"
definition CodecZstd :: Codec where "CodecZstd = 1"
definition HashCRC32C :: HashAlgo where "HashCRC32C = 0"
definition HashXXH64 :: HashAlgo where "HashXXH64 = 1"
definition RecordFormatV1 :: RecordFormat where "RecordFormatV1 = 1"

definition Codec_Validate :: "Codec \<Rightarrow> unit res" where
  "Codec_Validate c =
     (if c = CodecNone \<or> c = CodecZstd then Inr () else Inl [SegErrUnsupportedCodec])"

definition HashAlgo_Validate :: "HashAlgo \<Rightarrow> unit res" where
  "HashAlgo_Validate h =
     (if h = HashCRC32C \<or> h = HashXXH64 then Inr () else Inl [SegErrUnsupportedHashAlgo])"

definition RecordFormat_Validate :: "RecordFormat \<Rightarrow> unit res" where
  "RecordFormat_Validate f = (if f = RecordFormatV1 then Inr () else Inl [SegErrUnsupportedRecord])"

lemma id_Validate_unit [simp]:
  "Codec_Validate c = Inr u \<longleftrightarrow> c = CodecNone \<or> c = CodecZstd"
  "HashAlgo_Validate h = Inr u \<longleftrightarrow> h = HashCRC32C \<or> h = HashXXH64"
  "RecordFormat_Validate f = Inr u \<longleftrightarrow> f = RecordFormatV1"
  by (simp_all add: Codec_Validate_def HashAlgo_Validate_def RecordFormat_Validate_def)

definition HashBytes :: "(bytes \<Rightarrow> u64) \<Rightarrow> HashAlgo \<Rightarrow> bytes \<Rightarrow> u64 res" where
  "HashBytes xxh algo data =
     (if algo = HashCRC32C then Inr (ucast (crc32c data))
      else if algo = HashXXH64 then Inr (xxh data)
      else Inl [SegErrUnsupportedHashAlgo])"

lemma HashBytes_ok: "HashAlgo_Validate algo = Inr () \<Longrightarrow> \<exists>h. HashBytes xxh algo data = Inr h"
  by (auto simp: HashBytes_def)


section \<open>Regions\<close>

record FilePreamble =
  fp_Flags :: u32
  fp_Partition :: u32
  fp_Codec :: Codec
  fp_HashAlgo :: HashAlgo
  fp_RecordFormat :: RecordFormat
  fp_BaseLSN :: u64
  fp_SegmentUUID :: bytes16
  fp_WriterTag :: bytes16

record BlockPreamble =
  bp_Flags :: u16
  bp_StoredSize :: u32
  bp_RawSize :: u32
  bp_RecordCount :: u32
  bp_BaseLSN :: u64
  bp_MinTimestampMS :: i64
  bp_MaxTimestampMS :: i64
  bp_BlockHash :: u64

record IndexPreamble =
  ip_Flags :: u16
  ip_EntrySize :: u32
  ip_EntryCount :: u32
  ip_IndexHash :: u64

record BlockIndexEntry =
  bi_BlockOffset :: u64
  bi_StoredSize :: u32
  bi_RawSize :: u32
  bi_RecordCount :: u32
  bi_BaseLSN :: u64
  bi_MinTimestampMS :: i64
  bi_MaxTimestampMS :: i64
  bi_BlockHash :: u64

record SegTrailer =
  st_Flags :: u32
  st_Partition :: u32
  st_Codec :: Codec
  st_HashAlgo :: HashAlgo
  st_RecordFormat :: RecordFormat
  st_BaseLSN :: u64
  st_LastLSN :: u64
  st_MinTimestampMS :: i64
  st_MaxTimestampMS :: i64
  st_RecordCount :: u32
  st_BlockCount :: u32
  st_BlockIndexOffset :: u64
  st_BlockIndexLength :: u32
  st_TotalSize :: u64
  st_CreatedUnixMS :: i64
  st_SegmentUUID :: bytes16
  st_WriterTag :: bytes16
  st_SegmentHash :: u64
  st_TrailerHash :: u64


section \<open>Validation\<close>

definition lastLSN :: "u64 \<Rightarrow> u32 \<Rightarrow> u64 res" where
  "lastLSN base count =
     (if count = 0 then Inl [SegErrInvalidSegment]
      else let delta = ucast (count - 1)
           in if base > MaxRecordLSN - delta then Inl [SegErrInvalidSegment]
              else Inr (base + delta))"

definition nextLSN :: "u64 \<Rightarrow> u32 \<Rightarrow> u64 res" where
  "nextLSN base count = bindE (lastLSN base count) (\<lambda>last. Inr (last + 1))"

definition nextBlockOffset :: "u64 \<Rightarrow> u32 \<Rightarrow> u64 res" where
  "nextBlockOffset offset storedSize =
     (if offset > NOT 0 - 64 then Inl [SegErrInvalidSegment]
      else let offset' = offset + 64
           in if offset' > NOT 0 - ucast storedSize then Inl [SegErrInvalidSegment]
              else Inr (offset' + ucast storedSize))"

definition FilePreamble_Validate :: "FilePreamble \<Rightarrow> unit res" where
  "FilePreamble_Validate p =
     (if fp_Flags p \<noteq> 0 then Inl [SegErrInvalidSegment]
      else if fp_BaseLSN p > MaxRecordLSN then Inl [SegErrInvalidSegment]
      else bindE (Codec_Validate (fp_Codec p)) (\<lambda>_.
           bindE (HashAlgo_Validate (fp_HashAlgo p)) (\<lambda>_.
           RecordFormat_Validate (fp_RecordFormat p))))"

definition BlockPreamble_Validate :: "BlockPreamble \<Rightarrow> unit res" where
  "BlockPreamble_Validate p =
     (if bp_Flags p \<noteq> 0 then Inl [SegErrInvalidSegment]
      else if bp_StoredSize p = 0 then Inl [SegErrInvalidSegment]
      else if unat (bp_StoredSize p) > MaxStoredBlockSize then Inl [SegErrBlockTooLarge]
      else if bp_RawSize p = 0 then Inl [SegErrInvalidSegment]
      else if unat (bp_RawSize p) > MaxRawBlockSize then Inl [SegErrBlockTooLarge]
      else if bp_RecordCount p = 0 then Inl [SegErrInvalidSegment]
      else if bp_RecordCount p > bp_RawSize p div 16 then Inl [SegErrInvalidSegment]
      else bindE (lastLSN (bp_BaseLSN p) (bp_RecordCount p)) (\<lambda>_.
        if sint (bp_MaxTimestampMS p) < sint (bp_MinTimestampMS p) then Inl [SegErrInvalidSegment]
        else Inr ()))"

definition IndexPreamble_Validate :: "IndexPreamble \<Rightarrow> unit res" where
  "IndexPreamble_Validate p =
     (if ip_Flags p \<noteq> 0 then Inl [SegErrInvalidSegment]
      else if ip_EntrySize p \<noteq> of_nat BlockIndexEntrySize then Inl [SegErrInvalidSegment]
      else if ip_EntryCount p = 0 then Inl [SegErrInvalidSegment]
      else if unat (ip_EntryCount p) > MaxBlockCount then Inl [SegErrInvalidSegment]
      else Inr ())"

definition BlockIndexEntry_Validate :: "BlockIndexEntry \<Rightarrow> unit res" where
  "BlockIndexEntry_Validate e =
     (if bi_StoredSize e = 0 then Inl [SegErrInvalidSegment]
      else if unat (bi_StoredSize e) > MaxStoredBlockSize then Inl [SegErrBlockTooLarge]
      else if bi_RawSize e = 0 then Inl [SegErrInvalidSegment]
      else if unat (bi_RawSize e) > MaxRawBlockSize then Inl [SegErrBlockTooLarge]
      else if bi_RecordCount e = 0 then Inl [SegErrInvalidSegment]
      else if bi_RecordCount e > bi_RawSize e div 16 then Inl [SegErrInvalidSegment]
      else bindE (lastLSN (bi_BaseLSN e) (bi_RecordCount e)) (\<lambda>_.
        if sint (bi_MaxTimestampMS e) < sint (bi_MinTimestampMS e) then Inl [SegErrInvalidSegment]
        else Inr ()))"

definition SegTrailer_Validate :: "SegTrailer \<Rightarrow> u64 \<Rightarrow> unit res" where
  "SegTrailer_Validate t objectSize =
     (if st_Flags t \<noteq> 0 then Inl [SegErrInvalidSegment]
      else bindE (Codec_Validate (st_Codec t)) (\<lambda>_.
      bindE (HashAlgo_Validate (st_HashAlgo t)) (\<lambda>_.
      bindE (RecordFormat_Validate (st_RecordFormat t)) (\<lambda>_.
      if st_LastLSN t < st_BaseLSN t then Inl [SegErrInvalidSegment]
      else if st_LastLSN t > MaxRecordLSN then Inl [SegErrInvalidSegment]
      else if st_RecordCount t = 0 then Inl [SegErrInvalidSegment]
      else if st_BlockCount t = 0 then Inl [SegErrInvalidSegment]
      else if unat (st_BlockCount t) > MaxBlockCount then Inl [SegErrInvalidSegment]
      else if sint (st_MaxTimestampMS t) < sint (st_MinTimestampMS t)
        then Inl [SegErrInvalidSegment]
      else if st_LastLSN t - st_BaseLSN t + 1 \<noteq> ucast (st_RecordCount t)
        then Inl [SegErrInvalidSegment]
      else let expectedIndexLength = 64 + ucast (st_BlockCount t) * 64 :: u64
      in if expectedIndexLength > 0xffffffff then Inl [SegErrInvalidSegment]
      else if st_BlockIndexLength t \<noteq> ucast expectedIndexLength then Inl [SegErrInvalidSegment]
      else if st_BlockIndexOffset t < 128 then Inl [SegErrInvalidSegment]
      else if st_BlockIndexOffset t > NOT 0 - ucast (st_BlockIndexLength t)
        then Inl [SegErrInvalidSegment]
      else let indexEnd = st_BlockIndexOffset t + ucast (st_BlockIndexLength t)
      in if indexEnd > NOT 0 - 192 then Inl [SegErrInvalidSegment]
      else if st_TotalSize t \<noteq> indexEnd + 192 then Inl [SegErrInvalidSegment]
      else if objectSize \<noteq> 0 \<and> st_TotalSize t \<noteq> objectSize then Inl [SegErrInvalidSegment]
      else Inr ()))))"

text \<open>
  The loop of \<^verbatim>\<open>ValidateIndex\<close>: \<open>prev\<close> is the entry before, absent at the first
  iteration; the result is the record count summed over the entries.
\<close>

fun ValidateIndex_loop ::
  "SegTrailer \<Rightarrow> BlockIndexEntry option \<Rightarrow> u64 \<Rightarrow> BlockIndexEntry list \<Rightarrow> u64 res" where
  "ValidateIndex_loop trailer prev recordCount [] = Inr recordCount"
| "ValidateIndex_loop trailer prev recordCount (e # es) =
     bindE (BlockIndexEntry_Validate e) (\<lambda>_.
     let recordCount' = recordCount + ucast (bi_RecordCount e)
     in case prev of
       None \<Rightarrow>
         if bi_BaseLSN e \<noteq> st_BaseLSN trailer then Inl [SegErrBlockIndexMismatch]
         else if bi_MinTimestampMS e \<noteq> st_MinTimestampMS trailer
           then Inl [SegErrBlockIndexMismatch]
         else ValidateIndex_loop trailer (Some e) recordCount' es
     | Some p \<Rightarrow>
         bindE (nextLSN (bi_BaseLSN p) (bi_RecordCount p)) (\<lambda>wantLSN.
         if bi_BaseLSN e \<noteq> wantLSN then Inl [SegErrBlockIndexMismatch]
         else bindE (nextBlockOffset (bi_BlockOffset p) (bi_StoredSize p)) (\<lambda>wantOffset.
         if bi_BlockOffset e \<noteq> wantOffset then Inl [SegErrBlockIndexMismatch]
         else if sint (bi_MinTimestampMS e) < sint (bi_MaxTimestampMS p)
           then Inl [SegErrBlockIndexMismatch]
         else ValidateIndex_loop trailer (Some e) recordCount' es)))"

definition ValidateIndex :: "BlockIndexEntry list \<Rightarrow> SegTrailer \<Rightarrow> unit res" where
  "ValidateIndex entries trailer =
     (if entries = [] then Inl [SegErrBlockIndexMismatch]
      else if of_nat (length entries) \<noteq> st_BlockCount trailer then Inl [SegErrBlockIndexMismatch]
      else if bi_BlockOffset (hd entries) \<noteq> 64 then Inl [SegErrBlockIndexMismatch]
      else bindE (ValidateIndex_loop trailer None 0 entries) (\<lambda>recordCount.
      let final = last entries
      in bindE (lastLSN (bi_BaseLSN final) (bi_RecordCount final)) (\<lambda>lsn.
      if lsn \<noteq> st_LastLSN trailer then Inl [SegErrBlockIndexMismatch]
      else bindE (nextBlockOffset (bi_BlockOffset final) (bi_StoredSize final)) (\<lambda>indexOffset.
      if indexOffset \<noteq> st_BlockIndexOffset trailer then Inl [SegErrBlockIndexMismatch]
      else if bi_MaxTimestampMS final \<noteq> st_MaxTimestampMS trailer
        then Inl [SegErrBlockIndexMismatch]
      else if recordCount \<noteq> ucast (st_RecordCount trailer) then Inl [SegErrBlockIndexMismatch]
      else Inr ()))))"

definition ValidatePreambleTrailer :: "FilePreamble \<Rightarrow> SegTrailer \<Rightarrow> unit res" where
  "ValidatePreambleTrailer p t =
     bindE (FilePreamble_Validate p) (\<lambda>_.
     bindE (SegTrailer_Validate t (st_TotalSize t)) (\<lambda>_.
     if fp_Partition p \<noteq> st_Partition t \<or> fp_Codec p \<noteq> st_Codec t
        \<or> fp_HashAlgo p \<noteq> st_HashAlgo t \<or> fp_RecordFormat p \<noteq> st_RecordFormat t
        \<or> fp_BaseLSN p \<noteq> st_BaseLSN t \<or> fp_SegmentUUID p \<noteq> st_SegmentUUID t
        \<or> fp_WriterTag p \<noteq> st_WriterTag t
     then Inl [SegErrInvalidSegment] else Inr ()))"

definition MatchBlockIndexEntry :: "BlockPreamble \<Rightarrow> BlockIndexEntry \<Rightarrow> unit res" where
  "MatchBlockIndexEntry p e =
     (if bp_StoredSize p \<noteq> bi_StoredSize e \<or> bp_RawSize p \<noteq> bi_RawSize e
        \<or> bp_RecordCount p \<noteq> bi_RecordCount e \<or> bp_BaseLSN p \<noteq> bi_BaseLSN e
        \<or> bp_MinTimestampMS p \<noteq> bi_MinTimestampMS e \<or> bp_MaxTimestampMS p \<noteq> bi_MaxTimestampMS e
        \<or> bp_BlockHash p \<noteq> bi_BlockHash e
      then Inl [SegErrBlockIndexMismatch] else Inr ())"

end
