(* ===== verification/Tiling.thy ===== *)
theory Tiling
  imports Prelude
begin

text \<open>
  The interface of everything that is laid out end to end: the blocks of a segment (in log
  sequence numbers and in bytes), the segments of a partition, the entries of a catalog page and
  the pages of a catalog level. An element occupies the half-open range from \<open>lo\<close> to
  \<open>hi\<close>; a list tiles a range when each element starts where the one before ended. Lookup
  by binary search is derived here once.
\<close>

fun tiles :: "('a \<Rightarrow> nat) \<Rightarrow> ('a \<Rightarrow> nat) \<Rightarrow> nat \<Rightarrow> 'a list \<Rightarrow> nat \<Rightarrow> bool" where
  "tiles lo hi a [] b \<longleftrightarrow> a = b"
| "tiles lo hi a (x # xs) b \<longleftrightarrow> lo x = a \<and> tiles lo hi (hi x) xs b"

lemma tiles_append: "tiles lo hi a (xs @ ys) c \<longleftrightarrow> (\<exists>b. tiles lo hi a xs b \<and> tiles lo hi b ys c)"
  by (induction xs arbitrary: a) auto

lemma tiles_snoc: "tiles lo hi a (xs @ [x]) c \<longleftrightarrow> tiles lo hi a xs (lo x) \<and> hi x = c"
  by (auto simp: tiles_append)

lemma tiles_last: "tiles lo hi a xs b \<Longrightarrow> xs \<noteq> [] \<Longrightarrow> hi (last xs) = b"
  by (induction xs arbitrary: a) (auto split: if_splits)

lemma tiles_hd: "tiles lo hi a xs b \<Longrightarrow> xs \<noteq> [] \<Longrightarrow> lo (hd xs) = a"
  by (cases xs) auto

lemma tiles_unique_end: "tiles lo hi a xs b \<Longrightarrow> tiles lo hi a xs c \<Longrightarrow> b = c"
  by (induction xs arbitrary: a) auto

lemma tiles_cong:
  "(\<And>x. x \<in> set xs \<Longrightarrow> lo x = lo' x \<and> hi x = hi' x) \<Longrightarrow> tiles lo hi a xs b = tiles lo' hi' a xs b"
  by (induction xs arbitrary: a) auto

lemma tiles_concat:
  "tiles lo hi a xs b \<Longrightarrow> (\<And>x. x \<in> set xs \<Longrightarrow> tiles lo' hi' (lo x) (f x) (hi x)) \<Longrightarrow>
     tiles lo' hi' a (concat (map f xs)) b"
  by (induction xs arbitrary: a) (fastforce simp: tiles_append)+

lemma tiles_step:
  "(\<And>i. Suc i < length xs \<Longrightarrow> lo (xs ! Suc i) = hi (xs ! i)) \<Longrightarrow> xs \<noteq> [] \<Longrightarrow>
     tiles lo hi (lo (hd xs)) xs (hi (last xs))"
proof (induction xs)
  case (Cons x xs)
  show ?case
  proof (cases xs)
    case (Cons y ys)
    have "lo y = hi x" using Cons.prems(1)[of 0] Cons by simp
    moreover have "tiles lo hi (lo (hd xs)) xs (hi (last xs))"
      using Cons.IH Cons.prems(1)[of "Suc i" for i] Cons by auto
    ultimately show ?thesis using Cons by simp
  qed simp
qed simp

lemma tiles_nth:
  "tiles lo hi a xs b \<Longrightarrow> Suc i < length xs \<Longrightarrow> lo (xs ! Suc i) = hi (xs ! i)"
proof (induction xs arbitrary: a i)
  case (Cons x xs)
  show ?case
  proof (cases i)
    case 0
    with Cons.prems show ?thesis by (cases xs) auto
  next
    case (Suc j)
    with Cons show ?thesis by auto
  qed
qed simp

locale intervals =
  fixes lo hi :: "'a \<Rightarrow> nat"
    and ok :: "'a \<Rightarrow> bool"
  assumes nonempty: "ok x \<Longrightarrow> lo x < hi x"
begin

lemma tiles_le: "tiles lo hi a xs b \<Longrightarrow> list_all ok xs \<Longrightarrow> a \<le> b"
  by (induction xs arbitrary: a) (auto dest: nonempty intro: less_imp_le le_less_trans less_le_trans)

lemma tiles_less: "tiles lo hi a xs b \<Longrightarrow> list_all ok xs \<Longrightarrow> xs \<noteq> [] \<Longrightarrow> a < b"
  using tiles_le[of "hi (hd xs)" "tl xs" b] nonempty[of "hd xs"] by (cases xs) auto

lemma tiles_bounds:
  "tiles lo hi a xs b \<Longrightarrow> list_all ok xs \<Longrightarrow> x \<in> set xs \<Longrightarrow> a \<le> lo x \<and> lo x < hi x \<and> hi x \<le> b"
proof (induction xs arbitrary: a)
  case (Cons y ys)
  then have y: "lo y = a" "a < hi y" and rest: "tiles lo hi (hi y) ys b" "list_all ok ys"
    using nonempty[of y] by auto
  show ?case
  proof (cases "x = y")
    case True
    with y rest show ?thesis using tiles_le by auto
  next
    case False
    with Cons rest have "hi y \<le> lo x \<and> lo x < hi x \<and> hi x \<le> b" by auto
    with y show ?thesis by auto
  qed
qed simp

lemma tiles_spans: "tiles lo hi a xs b \<Longrightarrow> list_all ok xs \<Longrightarrow> sum_list (map (\<lambda>x. hi x - lo x) xs) = b - a"
proof (induction xs arbitrary: a)
  case (Cons x xs)
  have "hi x \<le> b" "lo x < hi x" using Cons.prems tiles_le[of "hi x" xs b] nonempty[of x] by simp_all
  moreover have "sum_list (map (\<lambda>x. hi x - lo x) xs) = b - hi x" using Cons by simp
  ultimately show ?case using Cons.prems by simp
qed simp

lemma tiles_length: "tiles lo hi a xs b \<Longrightarrow> list_all ok xs \<Longrightarrow> length xs \<le> b - a"
proof (induction xs arbitrary: a)
  case (Cons x xs)
  have "hi x \<le> b" "lo x < hi x" using Cons.prems tiles_le[of "hi x" xs b] nonempty[of x] by simp_all
  moreover have "length xs \<le> b - hi x" using Cons by simp
  ultimately show ?case using Cons.prems by simp
qed simp

text \<open>Every point of the range is in exactly one element, in order and without gaps.\<close>

lemma tiles_points:
  "tiles lo hi a xs b \<Longrightarrow> list_all ok xs \<Longrightarrow> concat (map (\<lambda>x. [lo x..<hi x]) xs) = [a..<b]"
proof (induction xs arbitrary: a)
  case (Cons x xs)
  then have le: "a \<le> hi x" and tl: "tiles lo hi (hi x) xs b" "list_all ok xs"
    using nonempty[of x] by auto
  have "hi x \<le> b" using tl by (rule tiles_le)
  then have "[a..<b] = [a..<hi x] @ [hi x..<b]"
    using le upt_add_eq_append[of a "hi x" "b - hi x"] by simp
  with Cons tl show ?case by simp
qed simp

lemma tiles_sorted: "tiles lo hi a xs b \<Longrightarrow> list_all ok xs \<Longrightarrow> sorted_wrt (\<lambda>x y. hi x \<le> lo y) xs"
  using tiles_bounds by (induction xs arbitrary: a) fastforce+

lemma tiles_distinct: "tiles lo hi a xs b \<Longrightarrow> list_all ok xs \<Longrightarrow> distinct xs"
  using tiles_bounds by (induction xs arbitrary: a) fastforce+

lemma tiles_mono: "tiles lo hi a xs b \<Longrightarrow> list_all ok xs \<Longrightarrow> sorted_wrt (\<lambda>x y. l < hi x \<longrightarrow> l < hi y) xs"
  by (rule sorted_wrt_mono_rel[OF _ tiles_sorted])
    (fastforce simp: list_all_iff dest: nonempty)+

lemma tiles_filter:
  "tiles lo hi a xs b \<Longrightarrow> list_all ok xs \<Longrightarrow> dropWhile (\<lambda>x. \<not> l < hi x) xs = filter (\<lambda>x. l < hi x) xs"
proof (induction xs arbitrary: a)
  case (Cons x xs)
  show ?case
  proof (cases "l < hi x")
    case True
    have "\<forall>y\<in>set xs. l < hi y" using Cons.prems True tiles_bounds[of "hi x" xs b] by fastforce
    with True show ?thesis by (simp add: filter_id_conv)
  next
    case False
    with Cons show ?thesis by (cases xs) auto
  qed
qed simp

lemma tiles_dropWhile:
  "tiles lo hi a xs b \<Longrightarrow> list_all ok xs \<Longrightarrow>
     \<exists>c. tiles lo hi a (takeWhile (\<lambda>x. \<not> l < hi x) xs) c
       \<and> tiles lo hi c (dropWhile (\<lambda>x. \<not> l < hi x) xs) b"
  by (metis takeWhile_dropWhile_id tiles_append)

lemma filter_from_nth:
  assumes "tiles lo hi a xs b" "list_all ok xs" "k < length xs"
  shows "filter (\<lambda>x. lo (xs ! k) < hi x) xs = drop k xs"
proof -
  let ?m = "lo (xs ! k)"
  have "tiles lo hi a (take k xs @ drop k xs) b" using assms(1) by simp
  then obtain m where t: "tiles lo hi a (take k xs) m" "tiles lo hi m (drop k xs) b"
    unfolding tiles_append by blast
  have m: "m = ?m" using t(2) assms(3) tiles_hd[of lo hi m "drop k xs" b] by (simp add: hd_drop_conv_nth)
  have ok: "list_all ok (take k xs)" "list_all ok (drop k xs)"
    using assms(2) by (auto simp: list_all_iff dest: in_set_takeD in_set_dropD)
  have "filter (\<lambda>x. ?m < hi x) (take k xs) = []"
    using tiles_bounds[OF t(1) ok(1)] m by (fastforce simp: filter_empty_conv)
  moreover have "filter (\<lambda>x. ?m < hi x) (drop k xs) = drop k xs"
    using tiles_bounds[OF t(2) ok(2)] m by (fastforce simp: filter_id_conv)
  ultimately show ?thesis by (metis append_take_drop_id filter_append append_Nil)
qed

lemma filter_beyond:
  assumes "tiles lo hi a xs b" "list_all ok xs" "k < length (filter (\<lambda>x. l < hi x) xs)"
  shows "filter (\<lambda>x. lo (filter (\<lambda>x. l < hi x) xs ! k) < hi x) xs = drop k (filter (\<lambda>x. l < hi x) xs)"
proof -
  obtain j where j: "filter (\<lambda>x. l < hi x) xs = drop j xs"
    using tiles_filter[OF assms(1,2), of l] by (metis dropWhile_eq_drop)
  have k: "j + k < length xs" using assms(3) unfolding j by simp
  then have "drop j xs ! k = xs ! (j + k)" by simp
  then show ?thesis unfolding j using filter_from_nth[OF assms(1,2) k] by (simp add: add.commute)
qed

text \<open>
  \<^verbatim>\<open>sort.Search\<close> on the upper bound: it stops at the element that holds the point, and
  at the end when the point lies beyond the range.
\<close>

lemma search_beyond: "tiles lo hi a xs b \<Longrightarrow> list_all ok xs \<Longrightarrow> b \<le> l \<Longrightarrow>
    search_list (\<lambda>x. l < hi x) xs = length xs"
proof -
  assume t: "tiles lo hi a xs b" "list_all ok xs" "b \<le> l"
  then have "takeWhile (\<lambda>x. \<not> l < hi x) xs = xs"
    using tiles_bounds by (fastforce simp: takeWhile_eq_all_conv)
  then show ?thesis using search_list_takeWhile[OF tiles_mono[OF t(1,2), of l]] by (simp only:)
qed

lemma search_hit:
  assumes "tiles lo hi a xs b" "list_all ok xs" "a \<le> l" "l < b"
  shows "search_list (\<lambda>x. l < hi x) xs < length xs"
    and "lo (xs ! search_list (\<lambda>x. l < hi x) xs) \<le> l"
    and "l < hi (xs ! search_list (\<lambda>x. l < hi x) xs)"
proof -
  let ?i = "search_list (\<lambda>x. l < hi x) xs"
  have ne: "xs \<noteq> []" using assms by auto
  then have "hi (last xs) = b" using assms tiles_last by blast
  then have "\<exists>x\<in>set xs. l < hi x" using ne assms(4) last_in_set by blast
  moreover have i: "?i = length (takeWhile (\<lambda>x. \<not> l < hi x) xs)"
    by (rule search_list_takeWhile[OF tiles_mono[OF assms(1,2)]])
  ultimately show lt: "?i < length xs"
    by (metis le_neq_implies_less length_takeWhile_le takeWhile_eq_all_conv takeWhile_eq_take take_all_iff
        order_refl)
  then show "l < hi (xs ! ?i)" by (rule search_list_hit)
  show "lo (xs ! ?i) \<le> l"
  proof (cases ?i)
    case 0
    then show ?thesis using tiles_hd[OF assms(1) ne] ne assms(3) by (simp add: hd_conv_nth)
  next
    case (Suc j)
    then have "\<not> l < hi (xs ! j)" using search_list_miss[of "\<lambda>x. l < hi x" xs] by simp
    then show ?thesis using tiles_nth[OF assms(1), of j] lt Suc by simp
  qed
qed

lemma unique_index:
  assumes "tiles lo hi a xs b" "list_all ok xs" "i < length xs" "j < length xs"
    and "lo (xs ! i) \<le> l" "l < hi (xs ! i)" "lo (xs ! j) \<le> l" "l < hi (xs ! j)"
  shows "i = j"
proof -
  have "i < j \<Longrightarrow> hi (xs ! i) \<le> lo (xs ! j)" "j < i \<Longrightarrow> hi (xs ! j) \<le> lo (xs ! i)"
    using tiles_sorted[OF assms(1,2)] assms(3,4) by (auto simp: sorted_wrt_iff_nth_less)
  then show ?thesis using assms(5-8) by (cases i j rule: linorder_cases) auto
qed

text \<open>The lookup the readers perform is the linear scan for the element that holds the point.\<close>

lemma find_iff:
  assumes "tiles lo hi a xs b" "list_all ok xs"
  shows "List.find (\<lambda>x. lo x \<le> l \<and> l < hi x) xs = Some x \<longleftrightarrow> x \<in> set xs \<and> lo x \<le> l \<and> l < hi x"
proof
  assume "List.find (\<lambda>x. lo x \<le> l \<and> l < hi x) xs = Some x"
  then show "x \<in> set xs \<and> lo x \<le> l \<and> l < hi x" by (auto simp: find_Some_iff)
next
  assume x: "x \<in> set xs \<and> lo x \<le> l \<and> l < hi x"
  then obtain i where i: "i < length xs" "xs ! i = x" by (auto simp: in_set_conv_nth)
  have "\<not> (lo (xs ! j) \<le> l \<and> l < hi (xs ! j))" if "j < i" for j
    using unique_index[OF assms, of i j l] x i that by auto
  then show "List.find (\<lambda>x. lo x \<le> l \<and> l < hi x) xs = Some x" using i x by (auto simp: find_Some_iff)
qed

lemma find_outside:
  assumes "tiles lo hi a xs b" "list_all ok xs"
  shows "List.find (\<lambda>x. lo x \<le> l \<and> l < hi x) xs = None \<longleftrightarrow> l < a \<or> b \<le> l"
proof
  assume none: "List.find (\<lambda>x. lo x \<le> l \<and> l < hi x) xs = None"
  show "l < a \<or> b \<le> l"
  proof (rule ccontr)
    assume "\<not> (l < a \<or> b \<le> l)"
    then have "a \<le> l" "l < b" by auto
    from search_hit[OF assms this] show False using none nth_mem by (fastforce simp: find_None_iff)
  qed
next
  assume "l < a \<or> b \<le> l"
  then show "List.find (\<lambda>x. lo x \<le> l \<and> l < hi x) xs = None"
    using tiles_bounds[OF assms] by (fastforce simp: find_None_iff)
qed

lemma search_find:
  assumes "tiles lo hi a xs b" "list_all ok xs"
  shows "(let i = search_list (\<lambda>x. l < hi x) xs
      in if i = length xs \<or> l < lo (xs ! i) then None else Some (xs ! i))
    = List.find (\<lambda>x. lo x \<le> l \<and> l < hi x) xs"
proof (cases "a \<le> l \<and> l < b")
  case True
  let ?i = "search_list (\<lambda>x. l < hi x) xs"
  have hit: "?i < length xs" "lo (xs ! ?i) \<le> l" "l < hi (xs ! ?i)"
    using search_hit[OF assms, of l] True by auto
  then have "List.find (\<lambda>x. lo x \<le> l \<and> l < hi x) xs = Some (xs ! ?i)"
    using find_iff[OF assms, of l "xs ! ?i"] by auto
  then show ?thesis using hit by (simp add: Let_def)
next
  case False
  then have none: "List.find (\<lambda>x. lo x \<le> l \<and> l < hi x) xs = None"
    using find_outside[OF assms, of l] by auto
  show ?thesis
  proof (cases "b \<le> l")
    case True
    then show ?thesis using none search_beyond[OF assms] by (simp add: Let_def)
  next
    case False
    let ?i = "search_list (\<lambda>x. l < hi x) xs"
    have "?i = length xs \<or> l < lo (xs ! ?i)"
    proof (cases "?i = length xs")
      case False
      then have "?i < length xs" using search_list_le[of _ xs] by (metis le_neq_implies_less)
      then show ?thesis using tiles_bounds[OF assms, of "xs ! ?i"] \<open>\<not> (a \<le> l \<and> l < b)\<close> \<open>\<not> b \<le> l\<close> by auto
    qed simp
    then show ?thesis using none by (simp add: Let_def)
  qed
qed

end

end
