(* ===== verification/Seg_Index.thy ===== *)
theory Seg_Index
  imports Seg_Format Tiling
begin

text \<open>
  What \<^verbatim>\<open>ValidateIndex\<close> establishes (\<^verbatim>\<open>internal/segformat/validate.go\<close>): the
  blocks of an accepted index tile the segment's log sequence numbers and, with their preambles,
  its bytes up to the index, and their timestamp ranges follow each other.
\<close>

definition block_lo :: "BlockIndexEntry \<Rightarrow> nat" where "block_lo e = unat (bi_BaseLSN e)"
definition block_hi :: "BlockIndexEntry \<Rightarrow> nat" where
  "block_hi e = unat (bi_BaseLSN e) + unat (bi_RecordCount e)"
definition block_start :: "BlockIndexEntry \<Rightarrow> nat" where "block_start e = unat (bi_BlockOffset e)"
definition block_end :: "BlockIndexEntry \<Rightarrow> nat" where
  "block_end e = unat (bi_BlockOffset e) + BlockPreambleSize + unat (bi_StoredSize e)"

abbreviation entry_ok :: "BlockIndexEntry \<Rightarrow> bool" where
  "entry_ok e \<equiv> BlockIndexEntry_Validate e = Inr ()"

lemma lastLSN_Inr:
  "lastLSN base count = Inr l \<Longrightarrow> 
     count \<noteq> 0 \<and> unat l + 1 = unat base + unat count \<and> l \<le> MaxRecordLSN"
proof -
  assume ok: "lastLSN base count = Inr l"
  define delta :: u64 where "delta = ucast (count - 1)"
  have c: "count \<noteq> 0" and le: "base \<le> MaxRecordLSN - delta" and l: "l = base + delta"
    using ok by (auto simp: lastLSN_def Let_def delta_def split: if_splits)
  have d: "unat delta = unat count - 1" using c by (simp add: delta_def unat_minus_one)
  have "delta \<le> MaxRecordLSN" using d unat_u32_less[of count] by (simp add: word_le_nat_alt)
  then have "unat base \<le> unat MaxRecordLSN - unat delta"
    using le unat_diff_u64[of delta MaxRecordLSN] by (simp add: word_le_nat_alt)
  then have top: "unat base + unat delta \<le> 18446744073709551614"
    using d unat_u32_less[of count] by simp
  then have "unat base + unat delta < 18446744073709551616" by simp
  then have "unat l = unat base + unat delta" unfolding l by (rule unat_add_u64)
  moreover have "0 < unat count" using c by (simp add: unat_gt_0)
  ultimately show ?thesis using c d top by (simp add: word_le_nat_alt)
qed

lemma nextLSN_Inr: "nextLSN base count = Inr l \<Longrightarrow> unat l = unat base + unat count"
proof -
  assume "nextLSN base count = Inr l"
  then obtain m where m: "lastLSN base count = Inr m" "l = m + 1" by (auto simp: nextLSN_def)
  then show ?thesis using lastLSN_Inr[OF m(1)] m(2) by (simp add: unat_succ_lsn)
qed

lemma nextBlockOffset_Inr:
  assumes "nextBlockOffset off stored = Inr off'"
  shows "unat off' = unat off + 64 + unat stored"
proof -
  have a: "off \<le> NOT 0 - 64" and b: "off + 64 \<le> NOT 0 - ucast stored"
    and o': "off' = off + 64 + ucast stored"
    using assms by (auto simp: nextBlockOffset_def Let_def split: if_splits)
  have *: "unat (off + 64) = unat off + 64"
    using a by (simp add: unat_add_u64 word_le_nat_alt unat_diff_u64)
  have "unat (off + 64) + unat stored < 18446744073709551616"
    using b unat_u32_less[of stored] by (simp add: word_le_nat_alt unat_diff_u64)
  then show ?thesis unfolding o' using * by (simp add: unat_add_u64)
qed

lemma entry_okD:
  assumes "entry_ok e"
  shows "0 < unat (bi_RecordCount e)" "0 < unat (bi_StoredSize e)"
    "sint (bi_MinTimestampMS e) \<le> sint (bi_MaxTimestampMS e)"
    "unat (bi_RecordCount e) * RecordHeaderSize \<le> unat (bi_RawSize e)"
proof -
  show "0 < unat (bi_RecordCount e)" "0 < unat (bi_StoredSize e)"
    "sint (bi_MinTimestampMS e) \<le> sint (bi_MaxTimestampMS e)"
    using assms by (auto simp: BlockIndexEntry_Validate_def unat_gt_0 split: if_splits)
  have "bi_RecordCount e \<le> bi_RawSize e div 16"
    using assms by (auto simp: BlockIndexEntry_Validate_def split: if_splits)
  then have "unat (bi_RecordCount e) \<le> unat (bi_RawSize e) div 16"
    by (simp add: word_le_nat_alt unat_div)
  then show "unat (bi_RecordCount e) * RecordHeaderSize \<le> unat (bi_RawSize e)" by simp
qed

interpretation blk: intervals block_lo block_hi entry_ok
  by unfold_locales (simp add: block_lo_def block_hi_def entry_okD)

interpretation span: intervals block_start block_end entry_ok
  by unfold_locales (simp add: block_start_def block_end_def)

lemma ValidateIndex_loop_tail:
  assumes "ValidateIndex_loop t (Some p) n es = Inr recs" "entry_ok p"
  shows "list_all entry_ok es
    \<and> tiles block_lo block_hi (block_hi p) es (block_hi (last (p # es)))
    \<and> tiles block_start block_end (block_end p) es (block_end (last (p # es)))
    \<and> sorted_wrt (\<lambda>x y. sint (bi_MaxTimestampMS x) \<le> sint (bi_MinTimestampMS y)) (p # es)
    \<and> recs = n + (\<Sum>e\<leftarrow>es. ucast (bi_RecordCount e))"
  using assms
proof (induction es arbitrary: p n)
  case Nil
  then show ?case by simp
next
  case (Cons e es)
  let ?n = "n + ucast (bi_RecordCount e)"
  obtain l off where e: "entry_ok e" "nextLSN (bi_BaseLSN p) (bi_RecordCount p) = Inr l"
      "bi_BaseLSN e = l" "nextBlockOffset (bi_BlockOffset p) (bi_StoredSize p) = Inr off"
      "bi_BlockOffset e = off" "sint (bi_MaxTimestampMS p) \<le> sint (bi_MinTimestampMS e)"
      and tl: "ValidateIndex_loop t (Some e) ?n es = Inr recs"
    using Cons.prems(1) by (auto simp: Let_def split: if_splits)
  note IH = Cons.IH[OF tl e(1)]
  have "block_lo e = block_hi p" using e(2,3) by (simp add: block_lo_def block_hi_def nextLSN_Inr)
  moreover have "block_start e = block_end p"
    using e(4,5) by (simp add: block_start_def block_end_def nextBlockOffset_Inr)
  moreover have "sint (bi_MaxTimestampMS p) \<le> sint (bi_MinTimestampMS x)" if "x \<in> set es" for x
    using IH e(6) that entry_okD(3)[OF e(1)] by fastforce
  ultimately show ?case using IH e(1,6) by (auto simp: add.assoc)
qed

lemma ValidateIndex_loop_head:
  assumes "ValidateIndex_loop t None 0 (e # es) = Inr recs"
  shows "bi_BaseLSN e = st_BaseLSN t" "bi_MinTimestampMS e = st_MinTimestampMS t" "entry_ok e"
    "ValidateIndex_loop t (Some e) (ucast (bi_RecordCount e)) es = Inr recs"
  using assms by (auto simp: Let_def split: if_splits)

lemma ValidateIndex_sound:
  assumes "ValidateIndex entries t = Inr ()"
  shows "list_all entry_ok entries"
    and "tiles block_lo block_hi (unat (st_BaseLSN t)) entries (unat (st_LastLSN t) + 1)"
    and "tiles block_start block_end FilePreambleSize entries (unat (st_BlockIndexOffset t))"
    and "sorted_wrt (\<lambda>x y. sint (bi_MaxTimestampMS x) \<le> sint (bi_MinTimestampMS y)) entries"
    and "st_LastLSN t \<le> MaxRecordLSN"
proof -
  obtain e es where es: "entries = e # es" using assms by (cases entries) (auto simp: ValidateIndex_def)
  obtain recs l off where loop: "ValidateIndex_loop t None 0 (e # es) = Inr recs"
    and l: "lastLSN (bi_BaseLSN (last entries)) (bi_RecordCount (last entries)) = Inr l"
           "l = st_LastLSN t"
    and off: "nextBlockOffset (bi_BlockOffset (last entries)) (bi_StoredSize (last entries)) = Inr off"
             "off = st_BlockIndexOffset t"
    and first: "bi_BlockOffset e = 64"
    using assms unfolding ValidateIndex_def es by (auto simp: Let_def split: if_splits)
  note head = ValidateIndex_loop_head[OF loop]
  note tail = ValidateIndex_loop_tail[OF head(4,3)]
  have lo: "block_lo e = unat (st_BaseLSN t)" by (simp add: block_lo_def head(1))
  have hi: "block_hi (last entries) = unat (st_LastLSN t) + 1"
    using lastLSN_Inr[OF l(1)] l(2) by (simp add: block_hi_def)
  have start: "block_start e = FilePreambleSize" by (simp add: block_start_def first)
  have stop: "block_end (last entries) = unat (st_BlockIndexOffset t)"
    using nextBlockOffset_Inr[OF off(1)] off(2) by (simp add: block_end_def)
  show "list_all entry_ok entries" using tail head(3) by (simp add: es)
  show "tiles block_lo block_hi (unat (st_BaseLSN t)) entries (unat (st_LastLSN t) + 1)"
    using tail lo hi by (simp add: es)
  show "tiles block_start block_end FilePreambleSize entries (unat (st_BlockIndexOffset t))"
    using tail start stop by (simp add: es)
  show "sorted_wrt (\<lambda>x y. sint (bi_MaxTimestampMS x) \<le> sint (bi_MinTimestampMS y)) entries"
    using tail by (simp add: es)
  show "st_LastLSN t \<le> MaxRecordLSN" using lastLSN_Inr[OF l(1)] l(2) by simp
qed


section \<open>Properties\<close>

text \<open>C1: an index that \<^verbatim>\<open>ValidateIndex\<close> accepts for a trailer lists blocks that cover
  every log sequence number from the trailer's first to its last exactly once and in order, and
  that, with their preambles, cover every byte from the end of the file preamble to the block
  index exactly once and in order.\<close>

theorem ValidateIndex_covers:
  assumes "ValidateIndex entries t = Inr ()"
  shows "concat (map (\<lambda>e. [block_lo e..<block_hi e]) entries)
           = [unat (st_BaseLSN t)..<unat (st_LastLSN t) + 1]
    \<and> concat (map (\<lambda>e. [block_start e..<block_end e]) entries)
           = [FilePreambleSize..<unat (st_BlockIndexOffset t)]"
  using ValidateIndex_sound[OF assms] blk.tiles_points span.tiles_points by blast

definition sample_index :: "BlockIndexEntry list" where
  "sample_index =
     [\<lparr>bi_BlockOffset = 64, bi_StoredSize = 40, bi_RawSize = 40, bi_RecordCount = 2, bi_BaseLSN = 10,
       bi_MinTimestampMS = 5, bi_MaxTimestampMS = 6, bi_BlockHash = 1\<rparr>,
      \<lparr>bi_BlockOffset = 168, bi_StoredSize = 20, bi_RawSize = 20, bi_RecordCount = 1, bi_BaseLSN = 12,
       bi_MinTimestampMS = 6, bi_MaxTimestampMS = 6, bi_BlockHash = 2\<rparr>]"

definition sample_trailer :: SegTrailer where
  "sample_trailer =
     \<lparr>st_Flags = 0, st_Partition = 3, st_Codec = 0, st_HashAlgo = 0, st_RecordFormat = 1,
      st_BaseLSN = 10, st_LastLSN = 12, st_MinTimestampMS = 5, st_MaxTimestampMS = 6,
      st_RecordCount = 3, st_BlockCount = 2, st_BlockIndexOffset = 252, st_BlockIndexLength = 192,
      st_TotalSize = 636, st_CreatedUnixMS = 9, st_SegmentUUID = 7, st_WriterTag = 8,
      st_SegmentHash = 0, st_TrailerHash = 0\<rparr>"

lemma sample_index_valid: "ValidateIndex sample_index sample_trailer = Inr ()"
  by (simp add: ValidateIndex_def sample_index_def sample_trailer_def BlockIndexEntry_Validate_def
      lastLSN_def nextLSN_def nextBlockOffset_def MaxStoredBlockSize_def MaxRawBlockSize_def
      MaxRecordLSN_def)

theorem ValidateIndex_covers_witness:
  "concat (map (\<lambda>e. [block_lo e..<block_hi e]) sample_index) = [10, 11, 12]"
proof -
  have "[unat (st_BaseLSN sample_trailer)..<unat (st_LastLSN sample_trailer) + 1] = [10, 11, 12]"
    by (simp add: sample_trailer_def upt_rec)
  then show ?thesis using ValidateIndex_covers[OF sample_index_valid] by simp
qed

end
