(* ===== verification/Raw_Block.thy ===== *)
theory Raw_Block
  imports Seg_Index
begin

text \<open>
  Raw blocks (\<^verbatim>\<open>internal/segformat/rawblock.go\<close>): the length-prefixed record envelope
  inside an uncompressed block, its encoder, its whole-block decoder and its incremental scanner.
  Buffers are written and read at offsets as in the source; lengths are natural numbers, and the
  callers' bounds checks make every Go subtraction of lengths non-negative.
\<close>


section \<open>Records\<close>

record Header =
  h_Key :: bytes
  h_Value :: bytes

record RawRecord =
  rr_TimestampMS :: i64
  rr_Headers :: "Header list"
  rr_Value :: bytes

record Record =
  rc_LSN :: u64
  rc_TimestampMS :: i64
  rc_Headers :: "Header list"
  rc_Value :: bytes

record RawBlockScanner =
  sc_raw :: bytes
  sc_block :: BlockPreamble
  sc_offset :: nat
  sc_recordIndex :: u32
  sc_prevTimestampMS :: i64


section \<open>Encoding\<close>

fun encodedHeadersLen_loop :: "nat \<Rightarrow> Header list \<Rightarrow> nat res" where
  "encodedHeadersLen_loop n [] = Inr n"
| "encodedHeadersLen_loop n (h # hs) =
     (if length (h_Key h) = 0 then Inl [SegErrInvalidSegment]
      else if length (h_Key h) > MaxRecordHeaderKeyLen then Inl [SegErrRecordTooLarge]
      else if length (h_Value h) > MaxRecordHeaderValueLen then Inl [SegErrRecordTooLarge]
      else let n' = n + (4 + length (h_Key h) + length (h_Value h))
      in if n' > MaxRecordHeaderBytes then Inl [SegErrRecordTooLarge]
      else encodedHeadersLen_loop n' hs)"

definition encodedHeadersLen :: "Header list \<Rightarrow> nat res" where
  "encodedHeadersLen headers =
     (if length headers = 0 then Inr 0
      else if length headers > MaxRecordHeaders then Inl [SegErrRecordTooLarge]
      else encodedHeadersLen_loop 2 headers)"

definition RawRecordSize :: "RawRecord \<Rightarrow> nat res" where
  "RawRecordSize record =
     (if length (rr_Value record) > MaxRecordValueLen then Inl [SegErrRecordTooLarge]
      else bindE (encodedHeadersLen (rr_Headers record)) (\<lambda>headersLen.
        Inr (RecordHeaderSize + headersLen + length (rr_Value record))))"

definition RecordSize :: "Header list \<Rightarrow> bytes \<Rightarrow> nat res" where
  "RecordSize headers v = RawRecordSize \<lparr>rr_TimestampMS = 0, rr_Headers = headers, rr_Value = v\<rparr>"

fun appendHeaders_loop :: "bytes \<Rightarrow> nat \<Rightarrow> Header list \<Rightarrow> bytes \<times> nat" where
  "appendHeaders_loop dst off [] = (dst, off)"
| "appendHeaders_loop dst off (h # hs) =
     (let dst = put off (be_bytes 2 (of_nat (length (h_Key h)) :: u16)) dst;
          dst = put (off + 2) (be_bytes 2 (of_nat (length (h_Value h)) :: u16)) dst;
          off = off + 4;
          dst = put off (h_Key h) dst;
          off = off + length (h_Key h);
          dst = put off (h_Value h) dst;
          off = off + length (h_Value h)
      in appendHeaders_loop dst off hs)"

definition appendHeaders :: "bytes \<Rightarrow> nat \<Rightarrow> Header list \<Rightarrow> bytes \<times> nat" where
  "appendHeaders dst off headers =
     (if length headers = 0 then (dst, off)
      else appendHeaders_loop (put off (be_bytes 2 (of_nat (length headers) :: u16)) dst) (off + 2)
             headers)"

definition AppendRawRecord :: "bytes \<Rightarrow> RawRecord \<Rightarrow> bytes res" where
  "AppendRawRecord dst record =
     bindE (RawRecordSize record) (\<lambda>size.
     let off = length dst;
         dst = dst @ zeros size;
         dst = put off (be_bytes 8 (rr_TimestampMS record)) dst;
         headersLen = (case encodedHeadersLen (rr_Headers record) of Inl _ \<Rightarrow> 0 | Inr n \<Rightarrow> n);
         dst = put (off + 8) (be_bytes 4 (of_nat headersLen :: u32)) dst;
         dst = put (off + 12) (be_bytes 4 (of_nat (length (rr_Value record)) :: u32)) dst;
         (dst, pos) = appendHeaders dst (off + RecordHeaderSize) (rr_Headers record)
     in Inr (put pos (rr_Value record) dst))"

text \<open>
  The checking loop of \<^verbatim>\<open>EncodeRawBlock\<close>; \<open>prevTS\<close> is absent at the first record.
\<close>

fun EncodeRawBlock_check :: "nat \<Rightarrow> i64 option \<Rightarrow> RawRecord list \<Rightarrow> nat res" where
  "EncodeRawBlock_check n prevTS [] = Inr n"
| "EncodeRawBlock_check n prevTS (r # rs) =
     bindE (RawRecordSize r) (\<lambda>size.
     if (case prevTS of None \<Rightarrow> False | Some ts \<Rightarrow> sint (rr_TimestampMS r) < sint ts)
       then Inl [SegErrInvalidSegment]
     else if n + size > MaxRawBlockSize then Inl [SegErrBlockTooLarge]
     else EncodeRawBlock_check (n + size) (Some (rr_TimestampMS r)) rs)"

fun AppendRawRecords :: "bytes \<Rightarrow> RawRecord list \<Rightarrow> bytes res" where
  "AppendRawRecords raw [] = Inr raw"
| "AppendRawRecords raw (r # rs) = bindE (AppendRawRecord raw r) (\<lambda>raw. AppendRawRecords raw rs)"

definition EncodeRawBlock :: "RawRecord list \<Rightarrow> bytes res" where
  "EncodeRawBlock records =
     (if length records = 0 then Inl [SegErrInvalidSegment]
      else bindE (EncodeRawBlock_check 0 None records) (\<lambda>_. AppendRawRecords [] records))"


section \<open>Decoding\<close>

text \<open>The loop of \<^verbatim>\<open>decodeHeaders\<close> with \<open>n\<close> headers left to read at \<open>off\<close>.\<close>

fun decodeHeaders_loop :: "bytes \<Rightarrow> nat \<Rightarrow> nat \<Rightarrow> (Header list \<times> nat) res" where
  "decodeHeaders_loop buf off 0 = Inr ([], off)"
| "decodeHeaders_loop buf off (Suc n) =
     (if length buf - off < 4 then Inl [SegErrInvalidSegment]
      else let keyLen = unat (be_word (subslice off (off + 2) buf) :: u16);
               valueLen = unat (be_word (subslice (off + 2) (off + 4) buf) :: u16);
               off = off + 4
      in if keyLen = 0 then Inl [SegErrInvalidSegment]
      else if keyLen > MaxRecordHeaderKeyLen then Inl [SegErrRecordTooLarge]
      else if valueLen > MaxRecordHeaderValueLen then Inl [SegErrRecordTooLarge]
      else if length buf - off < keyLen + valueLen then Inl [SegErrInvalidSegment]
      else let keyEnd = off + keyLen; valueEnd = keyEnd + valueLen;
               h = \<lparr>h_Key = subslice off keyEnd buf, h_Value = subslice keyEnd valueEnd buf\<rparr>
      in bindE (decodeHeaders_loop buf (off + (keyLen + valueLen)) n) (\<lambda>(hs, off).
         Inr (h # hs, off)))"

definition decodeHeaders :: "bytes \<Rightarrow> Header list res" where
  "decodeHeaders buf =
     (if length buf = 0 then Inr []
      else if length buf < 2 then Inl [SegErrInvalidSegment]
      else let count = unat (be_word (subslice 0 2 buf) :: u16)
      in if count = 0 then Inl [SegErrInvalidSegment]
      else if count > MaxRecordHeaders then Inl [SegErrRecordTooLarge]
      else bindE (decodeHeaders_loop buf 2 count) (\<lambda>(headers, off).
        if off \<noteq> length buf then Inl [SegErrInvalidSegment] else Inr headers))"

definition scanRawRecord :: "bytes \<Rightarrow> nat \<Rightarrow> (RawRecord \<times> nat) res" where
  "scanRawRecord raw off =
     (let ts = be_word (subslice off (off + 8) raw);
          headersLen = unat (be_word (subslice (off + 8) (off + 12) raw) :: u32);
          valueLen = unat (be_word (subslice (off + 12) (off + 16) raw) :: u32)
      in if headersLen > MaxRecordHeaderBytes then Inl [SegErrRecordTooLarge]
      else if valueLen > MaxRecordValueLen then Inl [SegErrRecordTooLarge]
      else let headersOff = off + RecordHeaderSize
      in if length raw - headersOff < headersLen + valueLen then Inl [SegErrInvalidSegment]
      else let valueOff = headersOff + headersLen; nxt = valueOff + valueLen
      in bindE (decodeHeaders (subslice headersOff valueOff raw)) (\<lambda>headers.
        Inr (\<lparr>rr_TimestampMS = ts, rr_Headers = headers, rr_Value = subslice valueOff nxt raw\<rparr>, nxt)))"

definition validateRawBlockEnvelope :: "bytes \<Rightarrow> BlockPreamble \<Rightarrow> unit res" where
  "validateRawBlockEnvelope raw block =
     bindE (BlockPreamble_Validate block) (\<lambda>_.
     bindE (lastLSN (bp_BaseLSN block) (bp_RecordCount block)) (\<lambda>_.
     if length raw \<noteq> unat (bp_RawSize block) then Inl [SegErrInvalidSegment]
     else if bp_RecordCount block > of_nat (length raw div RecordHeaderSize)
       then Inl [SegErrInvalidSegment]
     else Inr ()))"

text \<open>
  The loop of \<^verbatim>\<open>DecodeRawBlock\<close> with \<open>n\<close> records left: the decoded records and the final
  offset.
\<close>

fun DecodeRawBlock_loop ::
  "bytes \<Rightarrow> BlockPreamble \<Rightarrow> nat \<Rightarrow> u32 \<Rightarrow> nat \<Rightarrow> i64 \<Rightarrow> (Record list \<times> nat) res" where
  "DecodeRawBlock_loop raw block 0 i offset prev = Inr ([], offset)"
| "DecodeRawBlock_loop raw block (Suc n) i offset prev =
     (if length raw - offset < RecordHeaderSize then Inl [SegErrInvalidSegment]
      else bindE (scanRawRecord raw offset) (\<lambda>(rawRecord, nxt).
      let ts = rr_TimestampMS rawRecord
      in if sint ts < sint (bp_MinTimestampMS block) \<or> sint ts > sint (bp_MaxTimestampMS block)
        then Inl [SegErrInvalidSegment]
      else if i > 0 \<and> sint ts < sint prev then Inl [SegErrInvalidSegment]
      else bindE (DecodeRawBlock_loop raw block n (i + 1) nxt ts) (\<lambda>(records, off).
        Inr (\<lparr>rc_LSN = bp_BaseLSN block + ucast i, rc_TimestampMS = ts,
              rc_Headers = rr_Headers rawRecord, rc_Value = rr_Value rawRecord\<rparr> # records, off))))"

definition DecodeRawBlock :: "bytes \<Rightarrow> BlockPreamble \<Rightarrow> Record list res" where
  "DecodeRawBlock raw block =
     bindE (validateRawBlockEnvelope raw block) (\<lambda>_.
     bindE (DecodeRawBlock_loop raw block (unat (bp_RecordCount block)) 0 0 0) (\<lambda>(records, offset).
     if offset \<noteq> length raw then Inl [SegErrInvalidSegment] else Inr records))"

definition NewRawBlockScanner :: "bytes \<Rightarrow> BlockPreamble \<Rightarrow> RawBlockScanner res" where
  "NewRawBlockScanner raw block =
     bindE (validateRawBlockEnvelope raw block) (\<lambda>_.
     Inr \<lparr>sc_raw = raw, sc_block = block, sc_offset = 0, sc_recordIndex = 0, sc_prevTimestampMS = 0\<rparr>)"

text \<open>
  \<^verbatim>\<open>Next\<close> on a non-nil scanner: \<open>None\<close> is the end of the block (\<^verbatim>\<open>false, nil\<close>); on
  an error the scanner stays as it was.
\<close>

definition RawBlockScanner_Next :: "RawBlockScanner \<Rightarrow> (Record option \<times> RawBlockScanner) res" where
  "RawBlockScanner_Next s =
     (if sc_recordIndex s \<ge> bp_RecordCount (sc_block s) then
        if sc_offset s \<noteq> length (sc_raw s) then Inl [SegErrInvalidSegment] else Inr (None, s)
      else if length (sc_raw s) - sc_offset s < RecordHeaderSize then Inl [SegErrInvalidSegment]
      else bindE (scanRawRecord (sc_raw s) (sc_offset s)) (\<lambda>(rawRecord, nxt).
      let ts = rr_TimestampMS rawRecord
      in if sint ts < sint (bp_MinTimestampMS (sc_block s))
            \<or> sint ts > sint (bp_MaxTimestampMS (sc_block s)) then Inl [SegErrInvalidSegment]
      else if sc_recordIndex s > 0 \<and> sint ts < sint (sc_prevTimestampMS s)
        then Inl [SegErrInvalidSegment]
      else if sc_recordIndex s + 1 = bp_RecordCount (sc_block s) \<and> nxt \<noteq> length (sc_raw s)
        then Inl [SegErrInvalidSegment]
      else Inr (Some \<lparr>rc_LSN = bp_BaseLSN (sc_block s) + ucast (sc_recordIndex s),
                      rc_TimestampMS = ts, rc_Headers = rr_Headers rawRecord,
                      rc_Value = rr_Value rawRecord\<rparr>,
                s\<lparr>sc_offset := nxt, sc_recordIndex := sc_recordIndex s + 1,
                  sc_prevTimestampMS := ts\<rparr>)))"


section \<open>The encoding as a concatenation\<close>

text \<open>
  The offset writes of the encoder amount to appending the fields one after the other.
\<close>

definition header_bytes :: "Header \<Rightarrow> bytes" where
  "header_bytes h = be_bytes 2 (of_nat (length (h_Key h)) :: u16)
     @ be_bytes 2 (of_nat (length (h_Value h)) :: u16) @ h_Key h @ h_Value h"

definition headers_bytes :: "Header list \<Rightarrow> bytes" where
  "headers_bytes hs =
     (if hs = [] then [] else be_bytes 2 (of_nat (length hs) :: u16) @ concat (map header_bytes hs))"

definition record_bytes :: "RawRecord \<Rightarrow> bytes" where
  "record_bytes r = be_bytes 8 (rr_TimestampMS r)
     @ be_bytes 4 (of_nat (length (headers_bytes (rr_Headers r))) :: u32)
     @ be_bytes 4 (of_nat (length (rr_Value r)) :: u32) @ headers_bytes (rr_Headers r) @ rr_Value r"

lemmas raw_limits = MaxRecordHeaders_def MaxRecordHeaderBytes_def MaxRecordHeaderKeyLen_def
  MaxRecordHeaderValueLen_def MaxRecordValueLen_def

lemma length_header_bytes [simp]:
  "length (header_bytes h) = 4 + length (h_Key h) + length (h_Value h)"
  by (simp add: header_bytes_def)

lemma put_append_zeros:
  "off = length pre \<Longrightarrow> length bs \<le> n \<Longrightarrow> put off bs (pre @ zeros n) = pre @ bs @ zeros (n - length bs)"
  by (simp add: put_def zeros_def)

lemma appendHeaders_loop_append:
  "off = length pre \<Longrightarrow> length (concat (map header_bytes hs)) \<le> n \<Longrightarrow>
     appendHeaders_loop (pre @ zeros n) off hs =
       (pre @ concat (map header_bytes hs) @ zeros (n - length (concat (map header_bytes hs))),
        off + length (concat (map header_bytes hs)))"
proof (induction hs arbitrary: pre off n)
  case (Cons h hs)
  let ?k = "be_bytes 2 (of_nat (length (h_Key h)) :: u16)"
  let ?v = "be_bytes 2 (of_nat (length (h_Value h)) :: u16)"
  let ?n = "n - length (header_bytes h)"
  have n: "4 + length (h_Key h) + length (h_Value h) \<le> n" using Cons.prems(2) by simp
  have "put off ?k (pre @ zeros n) = (pre @ ?k) @ zeros (n - 2)"
    using n Cons.prems(1) by (simp add: put_append_zeros)
  moreover have "put (off + 2) ?v ((pre @ ?k) @ zeros (n - 2)) = (pre @ ?k @ ?v) @ zeros (n - 4)"
    using n Cons.prems(1) by (subst put_append_zeros) simp_all
  moreover have "put (off + 4) (h_Key h) ((pre @ ?k @ ?v) @ zeros (n - 4))
      = (pre @ ?k @ ?v @ h_Key h) @ zeros (n - 4 - length (h_Key h))"
    using n Cons.prems(1) by (subst put_append_zeros) simp_all
  moreover have "put (off + 4 + length (h_Key h)) (h_Value h)
      ((pre @ ?k @ ?v @ h_Key h) @ zeros (n - 4 - length (h_Key h))) = (pre @ header_bytes h) @ zeros ?n"
    using n Cons.prems(1) by (subst put_append_zeros) (simp_all add: header_bytes_def eval_nat_numeral)
  moreover have "appendHeaders_loop ((pre @ header_bytes h) @ zeros ?n)
      (off + 4 + length (h_Key h) + length (h_Value h)) hs
    = ((pre @ header_bytes h) @ concat (map header_bytes hs)
         @ zeros (?n - length (concat (map header_bytes hs))),
       off + 4 + length (h_Key h) + length (h_Value h) + length (concat (map header_bytes hs)))"
    using Cons.prems by (intro Cons.IH) auto
  ultimately show ?case by (simp add: Let_def)
qed simp

lemma appendHeaders_append:
  "off = length pre \<Longrightarrow> length (headers_bytes hs) \<le> n \<Longrightarrow>
     appendHeaders (pre @ zeros n) off hs =
       (pre @ headers_bytes hs @ zeros (n - length (headers_bytes hs)), off + length (headers_bytes hs))"
proof (cases "hs = []")
  case False
  let ?c = "be_bytes 2 (of_nat (length hs) :: u16)"
  assume off: "off = length pre" and n: "length (headers_bytes hs) \<le> n"
  then have n': "2 + length (concat (map header_bytes hs)) \<le> n" using False by (simp add: headers_bytes_def)
  then have "put off ?c (pre @ zeros n) = (pre @ ?c) @ zeros (n - 2)"
    using off by (simp add: put_append_zeros)
  moreover have "appendHeaders_loop ((pre @ ?c) @ zeros (n - 2)) (off + 2) hs
      = ((pre @ ?c) @ concat (map header_bytes hs) @ zeros (n - 2 - length (concat (map header_bytes hs))),
         off + 2 + length (concat (map header_bytes hs)))"
    using off n' by (intro appendHeaders_loop_append) auto
  ultimately show ?thesis using False by (simp add: appendHeaders_def headers_bytes_def)
qed (simp add: appendHeaders_def headers_bytes_def)

lemma encodedHeadersLen_loop_Inr:
  "encodedHeadersLen_loop n hs = Inr m \<longleftrightarrow>
     m = n + length (concat (map header_bytes hs)) \<and> (hs = [] \<or> m \<le> MaxRecordHeaderBytes)
     \<and> (\<forall>h\<in>set hs. 0 < length (h_Key h) \<and> length (h_Key h) \<le> MaxRecordHeaderKeyLen
          \<and> length (h_Value h) \<le> MaxRecordHeaderValueLen)"
proof (induction hs arbitrary: n)
  case (Cons h hs)
  let ?n = "n + (4 + length (h_Key h) + length (h_Value h))"
  have step: "encodedHeadersLen_loop n (h # hs) = Inr m \<longleftrightarrow>
      0 < length (h_Key h) \<and> length (h_Key h) \<le> MaxRecordHeaderKeyLen
      \<and> length (h_Value h) \<le> MaxRecordHeaderValueLen \<and> ?n \<le> MaxRecordHeaderBytes
      \<and> encodedHeadersLen_loop ?n hs = Inr m"
    by (simp add: Let_def)
  show ?case unfolding step Cons.IH by (cases "hs = []") auto
qed auto

definition headers_ok :: "Header list \<Rightarrow> bool" where
  "headers_ok hs \<longleftrightarrow> length hs \<le> MaxRecordHeaders \<and> length (headers_bytes hs) \<le> MaxRecordHeaderBytes
     \<and> (\<forall>h\<in>set hs. 0 < length (h_Key h) \<and> length (h_Key h) \<le> MaxRecordHeaderKeyLen
          \<and> length (h_Value h) \<le> MaxRecordHeaderValueLen)"

lemma encodedHeadersLen_Inr:
  "encodedHeadersLen hs = Inr m \<longleftrightarrow> headers_ok hs \<and> m = length (headers_bytes hs)"
  by (cases "hs = []")
    (auto simp: encodedHeadersLen_def encodedHeadersLen_loop_Inr headers_ok_def headers_bytes_def
      MaxRecordHeaderBytes_def)

definition record_ok :: "RawRecord \<Rightarrow> bool" where
  "record_ok r \<longleftrightarrow> headers_ok (rr_Headers r) \<and> length (rr_Value r) \<le> MaxRecordValueLen"

lemma length_record_bytes:
  "length (record_bytes r) = 16 + length (headers_bytes (rr_Headers r)) + length (rr_Value r)"
  by (simp add: record_bytes_def)

lemma RawRecordSize_Inr: "RawRecordSize r = Inr n \<longleftrightarrow> record_ok r \<and> n = length (record_bytes r)"
  by (auto simp: RawRecordSize_def record_ok_def encodedHeadersLen_Inr length_record_bytes)

lemma AppendRawRecord_append:
  "AppendRawRecord dst r = Inr out \<longleftrightarrow> record_ok r \<and> out = dst @ record_bytes r"
proof (cases "record_ok r")
  case False
  then have "\<nexists>n. RawRecordSize r = Inr n" by (simp add: RawRecordSize_Inr)
  then show ?thesis using False by (auto simp: AppendRawRecord_def)
next
  case True
  let ?hb = "headers_bytes (rr_Headers r)" and ?v = "rr_Value r"
  let ?ts = "be_bytes 8 (rr_TimestampMS r)"
  let ?hl = "be_bytes 4 (of_nat (length ?hb) :: u32)" and ?vl = "be_bytes 4 (of_nat (length ?v) :: u32)"
  let ?n = "length ?hb + length ?v"
  have size: "RawRecordSize r = Inr (16 + length ?hb + length ?v)"
    using True by (simp add: RawRecordSize_Inr length_record_bytes)
  have hl: "encodedHeadersLen (rr_Headers r) = Inr (length ?hb)"
    using True by (simp add: encodedHeadersLen_Inr record_ok_def)
  have a: "put (length dst) ?ts (dst @ zeros (16 + length ?hb + length ?v)) = (dst @ ?ts) @ zeros (8 + ?n)"
    by (simp add: put_append_zeros)
  have b: "put (length dst + 8) ?hl ((dst @ ?ts) @ zeros (8 + ?n)) = (dst @ ?ts @ ?hl) @ zeros (4 + ?n)"
    by (subst put_append_zeros) simp_all
  have c: "put (length dst + 12) ?vl ((dst @ ?ts @ ?hl) @ zeros (4 + ?n))
      = (dst @ ?ts @ ?hl @ ?vl) @ zeros ?n"
    by (subst put_append_zeros) simp_all
  have d: "appendHeaders ((dst @ ?ts @ ?hl @ ?vl) @ zeros ?n) (length dst + 16) (rr_Headers r)
      = ((dst @ ?ts @ ?hl @ ?vl @ ?hb) @ zeros (length ?v), length dst + 16 + length ?hb)"
    by (subst appendHeaders_append) simp_all
  have e: "put (length dst + 16 + length ?hb) ?v ((dst @ ?ts @ ?hl @ ?vl @ ?hb) @ zeros (length ?v))
      = dst @ record_bytes r"
    by (subst put_append_zeros) (simp_all add: record_bytes_def zeros_def)
  have "AppendRawRecord dst r = Inr (dst @ record_bytes r)"
    unfolding AppendRawRecord_def size hl Let_def
    by (simp only: bindE_simps sum.case a b c d e RecordHeaderSize_def prod.case)
  then show ?thesis using True by auto
qed


section \<open>Decoding inverts encoding\<close>

definition header_ok :: "Header \<Rightarrow> bool" where
  "header_ok h \<longleftrightarrow> 0 < length (h_Key h) \<and> length (h_Key h) \<le> MaxRecordHeaderKeyLen
     \<and> length (h_Value h) \<le> MaxRecordHeaderValueLen"

lemma headers_ok_all: "headers_ok hs \<longleftrightarrow> length hs \<le> MaxRecordHeaders
     \<and> length (headers_bytes hs) \<le> MaxRecordHeaderBytes \<and> list_all header_ok hs"
  by (auto simp: headers_ok_def header_ok_def list_all_iff)

lemma unat_of_nat_u16: "n < 65536 \<Longrightarrow> unat (of_nat n :: u16) = n"
  by (simp add: unsigned_of_nat take_bit_nat_eq_self)

lemma unat_of_nat_u32: "n < 4294967296 \<Longrightarrow> unat (of_nat n :: u32) = n"
  by (simp add: unsigned_of_nat take_bit_nat_eq_self)

lemma unat_of_nat_u64: "n < 18446744073709551616 \<Longrightarrow> unat (of_nat n :: u64) = n"
  by (simp add: unsigned_of_nat take_bit_nat_eq_self)

lemma decodeHeaders_loop_encode:
  "list_all header_ok hs \<Longrightarrow> off = length pre \<Longrightarrow>
     decodeHeaders_loop (pre @ concat (map header_bytes hs) @ post) off (length hs)
       = Inr (hs, off + length (concat (map header_bytes hs)))"
proof (induction hs arbitrary: pre off)
  case (Cons h hs)
  let ?rest = "concat (map header_bytes hs) @ post"
  let ?buf = "pre @ header_bytes h @ ?rest"
  have h: "0 < length (h_Key h)" "length (h_Key h) \<le> MaxRecordHeaderKeyLen"
      "length (h_Value h) \<le> MaxRecordHeaderValueLen"
    using Cons.prems(1) by (auto simp: header_ok_def)
  have k: "unat (be_word (subslice off (off + 2) ?buf) :: u16) = length (h_Key h)"
    using h Cons.prems(2) by (simp add: subslice_def header_bytes_def unat_of_nat_u16 raw_limits)
  have v: "unat (be_word (subslice (off + 2) (off + 4) ?buf) :: u16) = length (h_Value h)"
    using h Cons.prems(2) by (simp add: subslice_def header_bytes_def unat_of_nat_u16 raw_limits)
  have K: "subslice (off + 4) (off + 4 + length (h_Key h)) ?buf = h_Key h"
    using Cons.prems(2) by (simp add: subslice_def header_bytes_def)
  have V: "subslice (off + 4 + length (h_Key h)) (off + 4 + length (h_Key h) + length (h_Value h)) ?buf
      = h_Value h"
    using Cons.prems(2) by (simp add: subslice_def header_bytes_def)
  have IH: "decodeHeaders_loop ?buf (off + 4 + (length (h_Key h) + length (h_Value h))) (length hs)
      = Inr (hs, off + length (header_bytes h) + length (concat (map header_bytes hs)))"
    using Cons.IH[of "off + length (header_bytes h)" "pre @ header_bytes h"] Cons.prems
    by (simp add: add.assoc)
  have room: "\<not> length ?buf - off < 4"
      "\<not> length ?buf - (off + 4) < length (h_Key h) + length (h_Value h)"
    using Cons.prems(2) by simp_all
  have "decodeHeaders_loop ?buf off (Suc (length hs))
      = Inr (h # hs, off + length (header_bytes h) + length (concat (map header_bytes hs)))"
    using h room by (simp only: decodeHeaders_loop.simps Let_def k v K V IH) simp
  then show ?case by (simp add: add.assoc)
qed simp

lemma decodeHeaders_encode: "headers_ok hs \<Longrightarrow> decodeHeaders (headers_bytes hs) = Inr hs"
proof (cases "hs = []")
  case False
  let ?c = "be_bytes 2 (of_nat (length hs) :: u16)"
  assume ok: "headers_ok hs"
  have "decodeHeaders_loop (headers_bytes hs) 2 (length hs) = Inr (hs, length (headers_bytes hs))"
    using decodeHeaders_loop_encode[of hs 2 ?c "[]"] ok False
    by (simp add: headers_ok_all headers_bytes_def)
  moreover have "unat (be_word (subslice 0 2 (headers_bytes hs)) :: u16) = length hs"
    using ok False by (simp add: headers_bytes_def subslice_def headers_ok_def raw_limits unat_of_nat_u16)
  moreover have "2 \<le> length (headers_bytes hs)" using False by (simp add: headers_bytes_def)
  ultimately show ?thesis using ok False by (auto simp: decodeHeaders_def headers_ok_def)
qed (simp add: decodeHeaders_def headers_bytes_def)

lemma scanRawRecord_encode:
  assumes "record_ok r" "off = length pre"
  shows "scanRawRecord (pre @ record_bytes r @ post) off = Inr (r, off + length (record_bytes r))"
proof -
  let ?raw = "pre @ record_bytes r @ post"
  let ?hb = "headers_bytes (rr_Headers r)"
  have lens: "length ?hb \<le> MaxRecordHeaderBytes" "length (rr_Value r) \<le> MaxRecordValueLen"
    and ok: "headers_ok (rr_Headers r)"
    using assms(1) by (auto simp: record_ok_def headers_ok_def)
  have ts: "be_word (subslice off (off + 8) ?raw) = rr_TimestampMS r"
    using assms(2) by (simp add: subslice_def record_bytes_def)
  have hl: "unat (be_word (subslice (off + 8) (off + 12) ?raw) :: u32) = length ?hb"
    using assms(2) lens by (simp add: subslice_def record_bytes_def unat_of_nat_u32 raw_limits)
  have vl: "unat (be_word (subslice (off + 12) (off + 16) ?raw) :: u32) = length (rr_Value r)"
    using assms(2) lens by (simp add: subslice_def record_bytes_def unat_of_nat_u32 raw_limits)
  have H: "subslice (off + 16) (off + 16 + length ?hb) ?raw = ?hb"
    using assms(2) by (simp add: subslice_def record_bytes_def)
  have V: "subslice (off + 16 + length ?hb) (off + 16 + length ?hb + length (rr_Value r)) ?raw = rr_Value r"
    using assms(2) by (simp add: subslice_def record_bytes_def)
  have room: "\<not> length ?raw - (off + 16) < length ?hb + length (rr_Value r)"
    using assms(2) by (simp add: length_record_bytes)
  show ?thesis
    unfolding scanRawRecord_def Let_def RecordHeaderSize_def ts hl vl H V decodeHeaders_encode[OF ok]
    using lens room by (simp add: length_record_bytes add.assoc)
qed


lemma decodeHeaders_loop_canonical:
  "decodeHeaders_loop buf off n = Inr (hs, off') \<Longrightarrow> off \<le> length buf \<Longrightarrow>
     length hs = n \<and> list_all header_ok hs \<and> off \<le> off' \<and> off' \<le> length buf
     \<and> subslice off off' buf = concat (map header_bytes hs)"
proof (induction n arbitrary: off hs)
  case 0
  then show ?case by (auto simp: subslice_def)
next
  case (Suc n)
  define k where "k = unat (be_word (subslice off (off + 2) buf) :: u16)"
  define v where "v = unat (be_word (subslice (off + 2) (off + 4) buf) :: u16)"
  define h where "h = \<lparr>h_Key = subslice (off + 4) (off + 4 + k) buf,
    h_Value = subslice (off + 4 + k) (off + 4 + k + v) buf\<rparr>"
  obtain hs' where hs: "hs = h # hs'"
    and rec: "decodeHeaders_loop buf (off + 4 + (k + v)) n = Inr (hs', off')"
    and room: "\<not> length buf - off < 4" "\<not> length buf - (off + 4) < k + v"
    and lim: "k \<noteq> 0" "k \<le> MaxRecordHeaderKeyLen" "v \<le> MaxRecordHeaderValueLen"
    using Suc.prems(1) by (auto simp: Let_def k_def v_def h_def split: if_splits)
  have le: "off + 4 + (k + v) \<le> length buf" using room by linarith
  note IH = Suc.IH[OF rec le]
  have kl: "length (h_Key h) = k" and vl: "length (h_Value h) = v" using le by (simp_all add: h_def)
  have "header_bytes h = subslice off (off + 2) buf @ subslice (off + 2) (off + 4) buf
      @ subslice (off + 4) (off + 4 + k) buf @ subslice (off + 4 + k) (off + 4 + k + v) buf"
    using le by (simp add: header_bytes_def kl vl) (simp add: h_def k_def v_def be_bytes_field)
  also have "\<dots> = subslice off (off + 4 + k + v) buf"
    by (simp flip: slice_split)
  finally have hb: "header_bytes h = subslice off (off + 4 + (k + v)) buf" by (simp add: add.assoc)
  have "header_ok h" using lim kl vl by (simp add: header_ok_def)
  moreover have "subslice off off' buf
      = subslice off (off + 4 + (k + v)) buf @ subslice (off + 4 + (k + v)) off' buf"
    using IH by (intro slice_split) auto
  ultimately show ?case using IH hs hb by auto
qed

lemma decodeHeaders_canonical:
  assumes "decodeHeaders buf = Inr hs" "length buf \<le> MaxRecordHeaderBytes"
  shows "headers_ok hs \<and> headers_bytes hs = buf"
proof (cases "buf = []")
  case True
  then show ?thesis using assms by (simp add: decodeHeaders_def headers_ok_def headers_bytes_def)
next
  case False
  define c where "c = unat (be_word (subslice 0 2 buf) :: u16)"
  have len: "2 \<le> length buf" and c: "0 < c" "c \<le> MaxRecordHeaders"
    and loop: "decodeHeaders_loop buf 2 c = Inr (hs, length buf)"
    using assms(1) False by (auto simp: decodeHeaders_def Let_def c_def split: if_splits)
  note L = decodeHeaders_loop_canonical[OF loop len]
  have "be_bytes 2 (of_nat c :: u16) = subslice 0 2 buf"
    using len by (simp add: c_def be_bytes_field)
  then have "headers_bytes hs = subslice 0 2 buf @ subslice 2 (length buf) buf"
    using L c by (auto simp: headers_bytes_def)
  also have "\<dots> = buf" using len slice_split[of 0 2 "length buf" buf] by (simp add: slice_all)
  finally show ?thesis using L c assms(2) by (simp add: headers_ok_all)
qed

lemma scanRawRecord_canonical:
  assumes "scanRawRecord raw off = Inr (r, nxt)" "off + 16 \<le> length raw"
  shows "record_ok r \<and> off + 16 \<le> nxt \<and> nxt \<le> length raw \<and> subslice off nxt raw = record_bytes r"
proof -
  define h where "h = unat (be_word (subslice (off + 8) (off + 12) raw) :: u32)"
  define v where "v = unat (be_word (subslice (off + 12) (off + 16) raw) :: u32)"
  obtain hs where lim: "h \<le> MaxRecordHeaderBytes" "v \<le> MaxRecordValueLen"
    and room: "\<not> length raw - (off + 16) < h + v"
    and dec: "decodeHeaders (subslice (off + 16) (off + 16 + h) raw) = Inr hs"
    and r: "r = \<lparr>rr_TimestampMS = be_word (subslice off (off + 8) raw), rr_Headers = hs,
              rr_Value = subslice (off + 16 + h) (off + 16 + h + v) raw\<rparr>"
    and nxt: "nxt = off + 16 + h + v"
    using assms(1) by (auto simp: scanRawRecord_def Let_def h_def v_def split: if_splits)
  have le: "off + 16 + h + v \<le> length raw" using room assms(2) by linarith
  have H: "headers_ok hs \<and> headers_bytes hs = subslice (off + 16) (off + 16 + h) raw"
    using decodeHeaders_canonical[OF dec] le lim by simp
  have "record_bytes r = subslice off (off + 8) raw @ subslice (off + 8) (off + 12) raw
      @ subslice (off + 12) (off + 16) raw @ subslice (off + 16) (off + 16 + h) raw
      @ subslice (off + 16 + h) (off + 16 + h + v) raw"
    using le H by (simp add: record_bytes_def r) (simp add: h_def v_def be_bytes_field)
  also have "\<dots> = subslice off nxt raw" by (simp add: nxt flip: slice_split)
  finally show ?thesis using H lim le by (simp add: r nxt record_ok_def)
qed


section \<open>Whole blocks\<close>

text \<open>The records of a block, numbered from the block's base.\<close>

definition stamp :: "u64 \<Rightarrow> u32 \<Rightarrow> RawRecord \<Rightarrow> Record" where
  "stamp base i r = \<lparr>rc_LSN = base + ucast i, rc_TimestampMS = rr_TimestampMS r,
     rc_Headers = rr_Headers r, rc_Value = rr_Value r\<rparr>"

fun stamps :: "u64 \<Rightarrow> u32 \<Rightarrow> RawRecord list \<Rightarrow> Record list" where
  "stamps base i [] = []"
| "stamps base i (r # rs) = stamp base i r # stamps base (i + 1) rs"

definition unstamp :: "Record \<Rightarrow> RawRecord" where
  "unstamp r = \<lparr>rr_TimestampMS = rc_TimestampMS r, rr_Headers = rc_Headers r, rr_Value = rc_Value r\<rparr>"

abbreviation ts_of :: "RawRecord \<Rightarrow> int" where
  "ts_of r \<equiv> sint (rr_TimestampMS r)"

lemma unstamp_stamp [simp]: "unstamp (stamp base i r) = r"
  by (simp add: unstamp_def stamp_def)

lemma unstamp_stamps [simp]: "map unstamp (stamps base i rs) = rs"
  by (induction rs arbitrary: i) auto

lemma length_stamps [simp]: "length (stamps base i rs) = length rs"
  by (induction rs arbitrary: i) auto

definition block_records_ok :: "BlockPreamble \<Rightarrow> RawRecord list \<Rightarrow> bool" where
  "block_records_ok block rs \<longleftrightarrow> list_all record_ok rs \<and> sorted (map ts_of rs)
     \<and> (\<forall>r\<in>set rs. sint (bp_MinTimestampMS block) \<le> ts_of r \<and> ts_of r \<le> sint (bp_MaxTimestampMS block))"

lemma block_records_ok_Cons: "block_records_ok block (r # rs) \<longleftrightarrow>
    record_ok r \<and> sint (bp_MinTimestampMS block) \<le> ts_of r \<and> ts_of r \<le> sint (bp_MaxTimestampMS block)
    \<and> (\<forall>x\<in>set rs. ts_of r \<le> ts_of x) \<and> block_records_ok block rs"
  by (auto simp: block_records_ok_def)

definition ts_fits :: "BlockPreamble \<Rightarrow> u32 \<Rightarrow> i64 \<Rightarrow> RawRecord \<Rightarrow> bool" where
  "ts_fits block i prev r \<longleftrightarrow> sint (bp_MinTimestampMS block) \<le> ts_of r
     \<and> ts_of r \<le> sint (bp_MaxTimestampMS block) \<and> (i > 0 \<longrightarrow> sint prev \<le> ts_of r)"

lemma DecodeRawBlock_loop_Suc:
  "DecodeRawBlock_loop raw block (Suc n) i off prev =
     (if length raw - off < 16 then Inl [SegErrInvalidSegment]
      else bindE (scanRawRecord raw off) (\<lambda>(r, nxt).
      if \<not> ts_fits block i prev r then Inl [SegErrInvalidSegment]
      else bindE (DecodeRawBlock_loop raw block n (i + 1) nxt (rr_TimestampMS r)) (\<lambda>(recs, off').
        Inr (stamp (bp_BaseLSN block) i r # recs, off'))))"
  by (auto simp: Let_def stamp_def ts_fits_def not_le not_less intro!: bindE_cong)

lemma DecodeRawBlock_loop_Suc_Inr:
  "DecodeRawBlock_loop raw block (Suc n) i off prev = Inr (recs, off') \<longleftrightarrow>
     (\<exists>r nxt recs'. off + 16 \<le> length raw \<and> scanRawRecord raw off = Inr (r, nxt) \<and> ts_fits block i prev r
        \<and> DecodeRawBlock_loop raw block n (i + 1) nxt (rr_TimestampMS r) = Inr (recs', off')
        \<and> recs = stamp (bp_BaseLSN block) i r # recs')"
  unfolding DecodeRawBlock_loop_Suc by (cases "off + 16 \<le> length raw") auto

lemma DecodeRawBlock_loop_sound:
  assumes "DecodeRawBlock_loop raw block n i off prev = Inr (recs, off')"
    and "off \<le> length raw" "unat i + n < 4294967296"
  shows "\<exists>rs. recs = stamps (bp_BaseLSN block) i rs \<and> length rs = n \<and> block_records_ok block rs
      \<and> (i > 0 \<longrightarrow> (\<forall>r\<in>set rs. sint prev \<le> ts_of r))
      \<and> off \<le> off' \<and> off' \<le> length raw \<and> subslice off off' raw = concat (map record_bytes rs)"
  using assms
proof (induction n arbitrary: i off prev recs)
  case 0
  then show ?case by (auto simp: block_records_ok_def subslice_def)
next
  case (Suc n)
  from Suc.prems(1) obtain r nxt recs' where len: "off + 16 \<le> length raw"
    and scan: "scanRawRecord raw off = Inr (r, nxt)" and r: "ts_fits block i prev r"
    and loop: "DecodeRawBlock_loop raw block n (i + 1) nxt (rr_TimestampMS r) = Inr (recs', off')"
    and recs: "recs = stamp (bp_BaseLSN block) i r # recs'"
    unfolding DecodeRawBlock_loop_Suc_Inr by blast
  note C = scanRawRecord_canonical[OF scan len]
  have i1: "unat (i + 1) = unat i + 1" using Suc.prems(3) by (simp add: unat_word_ariths)
  then have "i + 1 > 0" by (simp add: word_less_nat_alt)
  then obtain rs where rs: "recs' = stamps (bp_BaseLSN block) (i + 1) rs" "length rs = n"
    "block_records_ok block rs" "\<forall>x\<in>set rs. ts_of r \<le> ts_of x"
    "nxt \<le> off'" "off' \<le> length raw" "subslice nxt off' raw = concat (map record_bytes rs)"
    using Suc.IH[OF loop] C i1 Suc.prems(3) by auto
  have cat: "subslice off off' raw = record_bytes r @ concat (map record_bytes rs)"
    using slice_split[of off nxt off' raw] C rs(5,7) by simp
  have "block_records_ok block (r # rs)" using rs(3,4) C r by (simp add: block_records_ok_Cons ts_fits_def)
  moreover have "i > 0 \<longrightarrow> (\<forall>x\<in>set (r # rs). sint prev \<le> ts_of x)"
    using r rs(4) by (auto simp: ts_fits_def intro: order_trans)
  ultimately show ?case using rs(1,2,5,6) cat recs C by (intro exI[of _ "r # rs"]) auto
qed

lemma DecodeRawBlock_loop_complete:
  assumes "block_records_ok block rs" "i > 0 \<longrightarrow> (\<forall>r\<in>set rs. sint prev \<le> ts_of r)"
    and "off = length pre" "unat i + length rs < 4294967296"
  shows "DecodeRawBlock_loop (pre @ concat (map record_bytes rs) @ post) block (length rs) i off prev
    = Inr (stamps (bp_BaseLSN block) i rs, off + length (concat (map record_bytes rs)))"
  using assms
proof (induction rs arbitrary: i off prev pre)
  case (Cons r rs)
  let ?raw = "pre @ record_bytes r @ concat (map record_bytes rs) @ post"
  let ?nxt = "off + length (record_bytes r)"
  have i1: "unat (i + 1) = unat i + 1" using Cons.prems(4) by (simp add: unat_word_ariths)
  have scan: "scanRawRecord ?raw off = Inr (r, ?nxt)"
    using Cons.prems by (intro scanRawRecord_encode) (simp_all add: block_records_ok_Cons)
  have fits: "ts_fits block i prev r" using Cons.prems by (simp add: ts_fits_def block_records_ok_Cons)
  have rest: "DecodeRawBlock_loop ((pre @ record_bytes r) @ concat (map record_bytes rs) @ post) block
      (length rs) (i + 1) ?nxt (rr_TimestampMS r)
    = Inr (stamps (bp_BaseLSN block) (i + 1) rs, ?nxt + length (concat (map record_bytes rs)))"
    using Cons.prems i1 by (intro Cons.IH) (auto simp: block_records_ok_Cons)
  have room: "\<not> length ?raw - off < 16" using Cons.prems(3) by (simp add: length_record_bytes)
  have "DecodeRawBlock_loop ?raw block (Suc (length rs)) i off prev
    = Inr (stamps (bp_BaseLSN block) i (r # rs), ?nxt + length (concat (map record_bytes rs)))"
    using room fits rest by (simp add: DecodeRawBlock_loop_Suc scan del: DecodeRawBlock_loop.simps)
  then show ?case by (simp add: add.assoc del: DecodeRawBlock_loop.simps)
qed simp

lemma DecodeRawBlock_iff:
  "DecodeRawBlock raw block = Inr recs \<longleftrightarrow>
     (\<exists>rs. validateRawBlockEnvelope raw block = Inr () \<and> recs = stamps (bp_BaseLSN block) 0 rs
        \<and> length rs = unat (bp_RecordCount block) \<and> block_records_ok block rs
        \<and> raw = concat (map record_bytes rs))"
proof -
  let ?n = "unat (bp_RecordCount block)"
  have bound: "unat (0 :: u32) + ?n < 4294967296" using unat_u32_less by simp
  have iff: "DecodeRawBlock raw block = Inr recs \<longleftrightarrow> validateRawBlockEnvelope raw block = Inr ()
      \<and> DecodeRawBlock_loop raw block ?n 0 0 0 = Inr (recs, length raw)"
    by (auto simp: DecodeRawBlock_def split: if_splits)
  show ?thesis (is "_ \<longleftrightarrow> ?rhs")
  proof
    assume "DecodeRawBlock raw block = Inr recs"
    then show ?rhs unfolding iff
      using DecodeRawBlock_loop_sound[of raw block ?n 0 0 0 recs "length raw"] bound
      by (auto simp: slice_all)
  next
    assume ?rhs
    then obtain rs where "validateRawBlockEnvelope raw block = Inr ()" "recs = stamps (bp_BaseLSN block) 0 rs"
      "length rs = ?n" "block_records_ok block rs" "raw = concat (map record_bytes rs)" by blast
    then show "DecodeRawBlock raw block = Inr recs" unfolding iff
      using DecodeRawBlock_loop_complete[of block rs 0 0 0 "[]" "[]"] bound
      by (simp del: DecodeRawBlock_loop.simps)
  qed
qed

lemma EncodeRawBlock_check_Inr:
  "EncodeRawBlock_check n prev rs = Inr m \<longleftrightarrow> list_all record_ok rs \<and> sorted (map ts_of rs)
     \<and> (\<forall>p. prev = Some p \<longrightarrow> (\<forall>r\<in>set rs. sint p \<le> ts_of r))
     \<and> m = n + length (concat (map record_bytes rs)) \<and> (rs = [] \<or> m \<le> MaxRawBlockSize)"
proof (induction rs arbitrary: n prev)
  case (Cons r rs)
  let ?n = "n + length (record_bytes r)"
  have step: "EncodeRawBlock_check n prev (r # rs) = Inr m \<longleftrightarrow> record_ok r
      \<and> (\<forall>p. prev = Some p \<longrightarrow> sint p \<le> ts_of r) \<and> ?n \<le> MaxRawBlockSize
      \<and> EncodeRawBlock_check ?n (Some (rr_TimestampMS r)) rs = Inr m"
    by (cases prev) (auto simp: RawRecordSize_Inr not_less)
  show ?case unfolding step Cons.IH by (cases "rs = []") (auto intro: order_trans)
qed auto

lemma AppendRawRecords_Inr:
  "AppendRawRecords raw rs = Inr out \<longleftrightarrow> list_all record_ok rs \<and> out = raw @ concat (map record_bytes rs)"
  by (induction rs arbitrary: raw) (auto simp: AppendRawRecord_append)

lemma EncodeRawBlock_Inr:
  "EncodeRawBlock rs = Inr raw \<longleftrightarrow> rs \<noteq> [] \<and> list_all record_ok rs \<and> sorted (map ts_of rs)
     \<and> length raw \<le> MaxRawBlockSize \<and> raw = concat (map record_bytes rs)"
  by (auto simp: EncodeRawBlock_def EncodeRawBlock_check_Inr AppendRawRecords_Inr)


section \<open>The incremental scanner\<close>

text \<open>
  A client that calls \<^verbatim>\<open>Next\<close> until the end of the block or the first error, giving up
  after \<open>fuel\<close> calls.
\<close>

fun scan_all :: "nat \<Rightarrow> RawBlockScanner \<Rightarrow> Record list res option" where
  "scan_all 0 s = None"
| "scan_all (Suc fuel) s =
     (case RawBlockScanner_Next s of
        Inl e \<Rightarrow> Some (Inl e)
      | Inr (None, s') \<Rightarrow> Some (Inr [])
      | Inr (Some r, s') \<Rightarrow> map_option (\<lambda>res. bindE res (\<lambda>rs. Inr (r # rs))) (scan_all fuel s'))"

lemma RawBlockScanner_Next_fits:
  "RawBlockScanner_Next s =
     (if sc_recordIndex s \<ge> bp_RecordCount (sc_block s) then
        if sc_offset s \<noteq> length (sc_raw s) then Inl [SegErrInvalidSegment] else Inr (None, s)
      else if length (sc_raw s) - sc_offset s < 16 then Inl [SegErrInvalidSegment]
      else bindE (scanRawRecord (sc_raw s) (sc_offset s)) (\<lambda>(r, nxt).
      if \<not> ts_fits (sc_block s) (sc_recordIndex s) (sc_prevTimestampMS s) r
        then Inl [SegErrInvalidSegment]
      else if sc_recordIndex s + 1 = bp_RecordCount (sc_block s) \<and> nxt \<noteq> length (sc_raw s)
        then Inl [SegErrInvalidSegment]
      else Inr (Some (stamp (bp_BaseLSN (sc_block s)) (sc_recordIndex s) r),
                s\<lparr>sc_offset := nxt, sc_recordIndex := sc_recordIndex s + 1,
                  sc_prevTimestampMS := rr_TimestampMS r\<rparr>)))"
  by (auto simp: RawBlockScanner_Next_def Let_def stamp_def ts_fits_def not_le not_less
      intro!: bindE_cong)

definition finish :: "bytes \<Rightarrow> (Record list \<times> nat) res \<Rightarrow> Record list res" where
  "finish raw res = bindE res (\<lambda>(records, offset).
     if offset \<noteq> length raw then Inl [SegErrInvalidSegment] else Inr records)"

lemma scan_all_loop:
  "unat i + n = unat (bp_RecordCount block) \<Longrightarrow>
     scan_all (Suc n) \<lparr>sc_raw = raw, sc_block = block, sc_offset = off, sc_recordIndex = i,
                       sc_prevTimestampMS = prev\<rparr>
       = Some (finish raw (DecodeRawBlock_loop raw block n i off prev))"
proof (induction n arbitrary: i off prev)
  case 0
  then have "i = bp_RecordCount block" by (simp add: word_unat_eq_iff)
  then show ?case by (simp add: RawBlockScanner_Next_fits finish_def)
next
  case (Suc n)
  let ?s = "\<lparr>sc_raw = raw, sc_block = block, sc_offset = off, sc_recordIndex = i,
    sc_prevTimestampMS = prev\<rparr>"
  have lt: "i < bp_RecordCount block" using Suc.prems by (simp add: word_less_nat_alt)
  then have not_end: "\<not> bp_RecordCount block \<le> i" by simp
  have i1: "unat (i + 1) = unat i + 1"
    using Suc.prems unat_u32_less[of "bp_RecordCount block"] by (simp add: unat_word_ariths)
  have last: "i + 1 = bp_RecordCount block \<longleftrightarrow> n = 0"
    using Suc.prems i1 by (auto simp: word_unat_eq_iff)
  have IH: "scan_all (Suc n) \<lparr>sc_raw = raw, sc_block = block, sc_offset = nxt, sc_recordIndex = i + 1,
      sc_prevTimestampMS = ts\<rparr> = Some (finish raw (DecodeRawBlock_loop raw block n (i + 1) nxt ts))" for nxt ts
    using Suc.IH[of "i + 1"] Suc.prems i1 by simp
  show ?case
  proof (cases "length raw - off < 16 \<or> (\<exists>e. scanRawRecord raw off = Inl e)")
    case True
    then show ?thesis using lt
      by (auto simp: scan_all.simps(2)[of "Suc n"] RawBlockScanner_Next_fits DecodeRawBlock_loop_Suc
          finish_def simp del: scan_all.simps DecodeRawBlock_loop.simps)
  next
    case False
    then obtain r nxt where r: "scanRawRecord raw off = Inr (r, nxt)" "\<not> length raw - off < 16"
      by (cases "scanRawRecord raw off") auto
    let ?s' = "\<lparr>sc_raw = raw, sc_block = block, sc_offset = nxt, sc_recordIndex = i + 1,
      sc_prevTimestampMS = rr_TimestampMS r\<rparr>"
    have N: "RawBlockScanner_Next ?s =
        (if \<not> ts_fits block i prev r then Inl [SegErrInvalidSegment]
         else if n = 0 \<and> nxt \<noteq> length raw then Inl [SegErrInvalidSegment]
         else Inr (Some (stamp (bp_BaseLSN block) i r), ?s'))"
      using r not_end last by (simp add: RawBlockScanner_Next_fits)
    have D: "DecodeRawBlock_loop raw block (Suc n) i off prev =
        (if \<not> ts_fits block i prev r then Inl [SegErrInvalidSegment]
         else bindE (DecodeRawBlock_loop raw block n (i + 1) nxt (rr_TimestampMS r)) (\<lambda>(recs, off').
           Inr (stamp (bp_BaseLSN block) i r # recs, off')))"
      using r by (simp add: DecodeRawBlock_loop_Suc del: DecodeRawBlock_loop.simps)
    show ?thesis
    proof (cases "ts_fits block i prev r \<and> \<not> (n = 0 \<and> nxt \<noteq> length raw)")
      case True
      then show ?thesis
        unfolding scan_all.simps(2)[of "Suc n"] N D
        by (simp add: IH del: scan_all.simps DecodeRawBlock_loop.simps)
          (cases "DecodeRawBlock_loop raw block n (i + 1) nxt (rr_TimestampMS r)";
           auto simp: finish_def)
    next
      case False
      then show ?thesis unfolding scan_all.simps(2)[of "Suc n"] N D by (auto simp: finish_def)
    qed
  qed
qed


section \<open>Properties\<close>

lemma validateRawBlockEnvelopeD:
  assumes "validateRawBlockEnvelope raw block = Inr ()"
  shows "0 < unat (bp_RecordCount block)" "length raw \<le> MaxRawBlockSize"
    "unat (bp_BaseLSN block) + unat (bp_RecordCount block) < 18446744073709551616"
proof -
  have v: "BlockPreamble_Validate block = Inr ()" and l: "length raw = unat (bp_RawSize block)"
    using assms by (auto simp: validateRawBlockEnvelope_def split: if_splits)
  show "0 < unat (bp_RecordCount block)"
    using v by (auto simp: BlockPreamble_Validate_def unat_gt_0 split: if_splits)
  show "length raw \<le> MaxRawBlockSize"
    using v l by (auto simp: BlockPreamble_Validate_def split: if_splits)
  obtain m where "lastLSN (bp_BaseLSN block) (bp_RecordCount block) = Inr m"
    using v by (auto simp: BlockPreamble_Validate_def split: if_splits)
  then show "unat (bp_BaseLSN block) + unat (bp_RecordCount block) < 18446744073709551616"
    using lastLSN_Inr[of "bp_BaseLSN block" "bp_RecordCount block" m] by (auto simp: word_le_nat_alt)
qed

lemma nth_stamps: "k < length rs \<Longrightarrow> stamps base i rs ! k = stamp base (i + of_nat k) (rs ! k)"
  by (induction rs arbitrary: i k) (auto simp: nth_Cons add.assoc split: nat.splits)

lemma unstamp_eqI: "unstamp a = unstamp b \<Longrightarrow> rc_LSN a = rc_LSN b \<Longrightarrow> a = b"
  by (cases a; cases b) (simp add: unstamp_def)

lemma unat_stamp_lsn:
  assumes "unat base + m < 18446744073709551616" "k < m" "m < 4294967296"
  shows "unat (base + ucast (0 + of_nat k :: u32) :: u64) = unat base + k"
proof -
  have "unat (ucast (of_nat k :: u32) :: u64) = k" using assms by (simp add: unat_of_nat_u32)
  then show ?thesis using assms by (simp add: unat_add_u64)
qed

lemma stamps_lsn_iff:
  assumes rs: "map unstamp recs = rs" and n: "length rs < 4294967296"
    and base: "unat base + length rs < 18446744073709551616"
  shows "recs = stamps base 0 rs \<longleftrightarrow> map (\<lambda>r. unat (rc_LSN r)) recs = [unat base..<unat base + length rs]"
proof -
  have len: "length recs = length rs" using rs by auto
  have nth: "unat (rc_LSN (stamps base 0 rs ! k)) = unat base + k" if "k < length rs" for k
    using that n unat_stamp_lsn[OF base that n] by (simp add: nth_stamps stamp_def)
  have eq: "recs ! k = stamps base 0 rs ! k \<longleftrightarrow> unat (rc_LSN (recs ! k)) = unat base + k"
    if k: "k < length rs" for k
  proof
    assume l: "unat (rc_LSN (recs ! k)) = unat base + k"
    have "unstamp (recs ! k) = rs ! k" using k rs by auto
    moreover have "unstamp (stamps base 0 rs ! k) = rs ! k"
      using k unstamp_stamps[of base 0 rs] nth_map[of k "stamps base 0 rs" unstamp] by simp
    moreover have "rc_LSN (recs ! k) = rc_LSN (stamps base 0 rs ! k)"
      using l nth[OF k] by (simp add: word_unat_eq_iff)
    ultimately show "recs ! k = stamps base 0 rs ! k" by (intro unstamp_eqI) simp_all
  qed (simp add: nth k)
  have "recs = stamps base 0 rs \<longleftrightarrow> (\<forall>k<length rs. unat (rc_LSN (recs ! k)) = unat base + k)"
    using len eq by (simp add: list_eq_iff_nth_eq)
  also have "\<dots> \<longleftrightarrow> map (\<lambda>r. unat (rc_LSN r)) recs = [unat base..<unat base + length rs]"
    by (rule map_eq_upt[OF len, symmetric])
  finally show ?thesis .
qed

text \<open>C5: under an envelope that validates, decoding a raw block succeeds with a list of records
  exactly when encoding those records gives the raw bytes, their number is the block's record
  count, their timestamps lie in the block's range, and record \<open>k\<close> carries the log sequence
  number base + \<open>k\<close>, computed without wrapping.\<close>

theorem DecodeRawBlock_inverts_EncodeRawBlock:
  assumes "validateRawBlockEnvelope raw block = Inr ()"
  shows "DecodeRawBlock raw block = Inr recs \<longleftrightarrow>
    EncodeRawBlock (map unstamp recs) = Inr raw \<and> length recs = unat (bp_RecordCount block)
    \<and> list_all (\<lambda>r. sint (bp_MinTimestampMS block) \<le> sint (rc_TimestampMS r)
                 \<and> sint (rc_TimestampMS r) \<le> sint (bp_MaxTimestampMS block)) recs
    \<and> map (\<lambda>r. unat (rc_LSN r)) recs
        = [unat (bp_BaseLSN block)..<unat (bp_BaseLSN block) + unat (bp_RecordCount block)]"
    (is "_ \<longleftrightarrow> ?rhs")
proof -
  let ?rs = "map unstamp recs" and ?n = "unat (bp_RecordCount block)"
  note E = validateRawBlockEnvelopeD[OF assms]
  have lsns: "recs = stamps (bp_BaseLSN block) 0 ?rs \<longleftrightarrow>
      map (\<lambda>r. unat (rc_LSN r)) recs = [unat (bp_BaseLSN block)..<unat (bp_BaseLSN block) + ?n]"
    if "length recs = ?n"
    using stamps_lsn_iff[OF refl, of recs "bp_BaseLSN block"] that E(3) unat_u32_less[of "bp_RecordCount block"]
    by simp
  have enc: "EncodeRawBlock ?rs = Inr raw \<longleftrightarrow> list_all record_ok ?rs \<and> sorted (map ts_of ?rs)
      \<and> raw = concat (map record_bytes ?rs)" if "length recs = ?n"
    using that E(1,2) by (auto simp: EncodeRawBlock_Inr)
  have ok: "block_records_ok block ?rs \<longleftrightarrow> list_all record_ok ?rs \<and> sorted (map ts_of ?rs)
      \<and> list_all (\<lambda>r. sint (bp_MinTimestampMS block) \<le> sint (rc_TimestampMS r)
                 \<and> sint (rc_TimestampMS r) \<le> sint (bp_MaxTimestampMS block)) recs"
    by (auto simp: block_records_ok_def list_all_iff unstamp_def)
  have "DecodeRawBlock raw block = Inr recs \<longleftrightarrow> recs = stamps (bp_BaseLSN block) 0 ?rs
      \<and> length recs = ?n \<and> block_records_ok block ?rs \<and> raw = concat (map record_bytes ?rs)"
    unfolding DecodeRawBlock_iff using assms by (metis length_map unstamp_stamps)
  also have "\<dots> \<longleftrightarrow> ?rhs"
  proof (cases "length recs = ?n")
    case True
    show ?thesis unfolding lsns[OF True] enc[OF True] ok by blast
  qed simp
  finally show ?thesis .
qed

definition sample_record :: RawRecord where
  "sample_record = \<lparr>rr_TimestampMS = 5, rr_Headers = [\<lparr>h_Key = [107], h_Value = []\<rparr>], rr_Value = [1, 2]\<rparr>"

definition sample_raw :: bytes where
  "sample_raw = [0, 0, 0, 0, 0, 0, 0, 5, 0, 0, 0, 7, 0, 0, 0, 2, 0, 1, 0, 1, 0, 0, 107, 1, 2]"

definition sample_block :: BlockPreamble where
  "sample_block = \<lparr>bp_Flags = 0, bp_StoredSize = 25, bp_RawSize = 25, bp_RecordCount = 1,
     bp_BaseLSN = 40, bp_MinTimestampMS = 5, bp_MaxTimestampMS = 5, bp_BlockHash = 0\<rparr>"

lemma sample_envelope: "validateRawBlockEnvelope sample_raw sample_block = Inr ()"
  by (simp add: validateRawBlockEnvelope_def BlockPreamble_Validate_def sample_block_def sample_raw_def
      lastLSN_def MaxStoredBlockSize_def MaxRawBlockSize_def MaxRecordLSN_def)

lemma sample_encoded: "EncodeRawBlock [sample_record] = Inr sample_raw"
proof -
  have "record_bytes sample_record = sample_raw" by code_simp
  moreover have "record_ok sample_record" "length sample_raw \<le> MaxRawBlockSize"
    by (simp_all add: record_ok_def headers_ok_def sample_record_def headers_bytes_def raw_limits
        sample_raw_def MaxRawBlockSize_def)
  ultimately show ?thesis by (simp add: EncodeRawBlock_Inr)
qed

theorem DecodeRawBlock_inverts_EncodeRawBlock_witness:
  "DecodeRawBlock sample_raw sample_block = Inr [stamp 40 0 sample_record]"
proof -
  have "map unstamp [stamp 40 0 sample_record] = [sample_record]" by simp
  then show ?thesis
    using sample_encoded
    by (subst DecodeRawBlock_inverts_EncodeRawBlock[OF sample_envelope])
      (simp add: sample_block_def stamp_def sample_record_def)
qed

text \<open>C6: reading a block through the incremental scanner gives exactly what decoding the whole
  block gives, on every input: the same records, or the same error, after at most one call more
  than the block has records.\<close>

theorem scanner_refines_DecodeRawBlock:
  "(case NewRawBlockScanner raw block of
      Inl e \<Rightarrow> Some (Inl e)
    | Inr s \<Rightarrow> scan_all (unat (bp_RecordCount block) + 1) s) = Some (DecodeRawBlock raw block)"
proof (cases "validateRawBlockEnvelope raw block")
  case (Inr u)
  then show ?thesis
    using scan_all_loop[of 0 "unat (bp_RecordCount block)" block raw 0 0]
    by (simp add: NewRawBlockScanner_def DecodeRawBlock_def finish_def
        del: scan_all.simps DecodeRawBlock_loop.simps)
qed (simp add: NewRawBlockScanner_def DecodeRawBlock_def)

end
