(* ===== verification/Seg_Block.thy ===== *)
theory Seg_Block
  imports Raw_Block
begin

text \<open>
  Sealed blocks (\<^verbatim>\<open>internal/segblock\<close>): compression and hashing of one raw block, and the
  checked way back. The zstd package is third-party: its encoder \<open>zenc\<close> and decoder
  \<open>zdec\<close> are parameters, and \<open>zstd_codec\<close> states what the package documents, that
  decoding an encoded block returns it. Byte slices are values, so the variants that borrow or own
  their buffer differ from the copying ones only in what the caller may do with it later.
\<close>

record Meta =
  me_BaseLSN :: u64
  me_RecordCount :: u32
  me_MinTimestampMS :: i64
  me_MaxTimestampMS :: i64

record Sealed =
  sl_Preamble :: BlockPreamble
  sl_Stored :: bytes

definition zstd_codec :: "(bytes \<Rightarrow> bytes) \<Rightarrow> (bytes \<Rightarrow> bytes res) \<Rightarrow> bool" where
  "zstd_codec zenc zdec \<longleftrightarrow> (\<forall>raw. length raw \<le> MaxRawBlockSize \<longrightarrow> zdec (zenc raw) = Inr raw)"

definition validateMeta :: "Meta \<Rightarrow> nat \<Rightarrow> unit res" where
  "validateMeta meta rawSize =
     (if rawSize = 0 then Inl [SegErrInvalidSegment]
      else if rawSize > MaxRawBlockSize then Inl [SegErrBlockTooLarge]
      else if me_RecordCount meta = 0 then Inl [SegErrInvalidSegment]
      else let delta = ucast (me_RecordCount meta - 1) :: u64
      in if me_BaseLSN meta > MaxRecordLSN - delta then Inl [SegErrInvalidSegment]
      else if unat (me_RecordCount meta) > rawSize div RecordHeaderSize then Inl [SegErrInvalidSegment]
      else if sint (me_MaxTimestampMS meta) < sint (me_MinTimestampMS meta) then Inl [SegErrInvalidSegment]
      else Inr ())"

definition encodeStored :: "(bytes \<Rightarrow> bytes) \<Rightarrow> Codec \<Rightarrow> bytes \<Rightarrow> bool \<Rightarrow> bytes res" where
  "encodeStored zenc codec raw rawOwned =
     (if codec = CodecNone then (if rawOwned then Inr raw else Inr ([] @ raw))
      else if codec = CodecZstd then Inr (zenc raw)
      else Inl [SegErrUnsupportedCodec])"

definition seal ::
  "(bytes \<Rightarrow> bytes) \<Rightarrow> (bytes \<Rightarrow> u64) \<Rightarrow> Codec \<Rightarrow> HashAlgo \<Rightarrow> bytes \<Rightarrow> Meta \<Rightarrow> bool \<Rightarrow> Sealed res" where
  "seal zenc xxh codec hashAlgo raw meta rawOwned =
     bindE (Codec_Validate codec) (\<lambda>_.
     bindE (HashAlgo_Validate hashAlgo) (\<lambda>_.
     bindE (validateMeta meta (length raw)) (\<lambda>_.
     bindE (encodeStored zenc codec raw rawOwned) (\<lambda>stored.
     if length stored > MaxStoredBlockSize then Inl [SegErrBlockTooLarge]
     else bindE (HashBytes xxh hashAlgo stored) (\<lambda>blockHash.
     let preamble = \<lparr>bp_Flags = 0, bp_StoredSize = of_nat (length stored), bp_RawSize = of_nat (length raw),
           bp_RecordCount = me_RecordCount meta, bp_BaseLSN = me_BaseLSN meta,
           bp_MinTimestampMS = me_MinTimestampMS meta, bp_MaxTimestampMS = me_MaxTimestampMS meta,
           bp_BlockHash = blockHash\<rparr>
     in bindE (BlockPreamble_Validate preamble) (\<lambda>_.
     Inr \<lparr>sl_Preamble = preamble, sl_Stored = stored\<rparr>))))))"

definition Seal :: "(bytes \<Rightarrow> bytes) \<Rightarrow> (bytes \<Rightarrow> u64) \<Rightarrow> Codec \<Rightarrow> HashAlgo \<Rightarrow> bytes \<Rightarrow> Meta \<Rightarrow> Sealed res" where
  "Seal zenc xxh codec hashAlgo raw meta = seal zenc xxh codec hashAlgo raw meta False"

definition SealOwned :: "(bytes \<Rightarrow> bytes) \<Rightarrow> (bytes \<Rightarrow> u64) \<Rightarrow> Codec \<Rightarrow> HashAlgo \<Rightarrow> bytes \<Rightarrow> Meta \<Rightarrow> Sealed res" where
  "SealOwned zenc xxh codec hashAlgo raw meta = seal zenc xxh codec hashAlgo raw meta True"

definition decodeStored :: "(bytes \<Rightarrow> bytes res) \<Rightarrow> Codec \<Rightarrow> bytes \<Rightarrow> bool \<Rightarrow> bytes res" where
  "decodeStored zdec codec stored borrowStored =
     (if codec = CodecNone then (if borrowStored then Inr stored else Inr ([] @ stored))
      else if codec = CodecZstd then zdec stored
      else Inl [SegErrUnsupportedCodec])"

definition open_block ::
  "(bytes \<Rightarrow> bytes res) \<Rightarrow> (bytes \<Rightarrow> u64) \<Rightarrow> Codec \<Rightarrow> HashAlgo \<Rightarrow> BlockPreamble \<Rightarrow> bytes \<Rightarrow> bool \<Rightarrow> bytes res" where
  "open_block zdec xxh codec hashAlgo preamble stored borrowStored =
     bindE (Codec_Validate codec) (\<lambda>_.
     bindE (HashAlgo_Validate hashAlgo) (\<lambda>_.
     bindE (BlockPreamble_Validate preamble) (\<lambda>_.
     if length stored \<noteq> unat (bp_StoredSize preamble) then Inl [SegErrInvalidSegment]
     else bindE (HashBytes xxh hashAlgo stored) (\<lambda>gotHash.
     if gotHash \<noteq> bp_BlockHash preamble then Inl [SegErrIntegrityMismatch]
     else bindE (decodeStored zdec codec stored borrowStored) (\<lambda>raw.
     if length raw \<noteq> unat (bp_RawSize preamble) then Inl [SegErrInvalidSegment]
     else Inr raw)))))"

definition Open ::
  "(bytes \<Rightarrow> bytes res) \<Rightarrow> (bytes \<Rightarrow> u64) \<Rightarrow> Codec \<Rightarrow> HashAlgo \<Rightarrow> BlockPreamble \<Rightarrow> bytes \<Rightarrow> bytes res" where
  "Open zdec xxh codec hashAlgo preamble stored = open_block zdec xxh codec hashAlgo preamble stored False"

definition OpenBorrowed ::
  "(bytes \<Rightarrow> bytes res) \<Rightarrow> (bytes \<Rightarrow> u64) \<Rightarrow> Codec \<Rightarrow> HashAlgo \<Rightarrow> BlockPreamble \<Rightarrow> bytes \<Rightarrow> bytes res" where
  "OpenBorrowed zdec xxh codec hashAlgo preamble stored = open_block zdec xxh codec hashAlgo preamble stored True"


section \<open>Facts\<close>

lemma SealOwned_eq: "SealOwned zenc xxh codec algo raw meta = Seal zenc xxh codec algo raw meta"
  by (simp add: SealOwned_def Seal_def seal_def encodeStored_def)

lemma OpenBorrowed_eq: "OpenBorrowed zdec xxh codec algo p stored = Open zdec xxh codec algo p stored"
proof -
  have "decodeStored zdec codec stored True = decodeStored zdec codec stored False"
    by (simp add: decodeStored_def)
  then show ?thesis unfolding OpenBorrowed_def Open_def open_block_def by (simp cong: if_cong)
qed

lemma validateMeta_lastLSN:
  "validateMeta meta n = Inr () \<longleftrightarrow> 0 < n \<and> n \<le> MaxRawBlockSize
     \<and> (\<exists>l. lastLSN (me_BaseLSN meta) (me_RecordCount meta) = Inr l)
     \<and> unat (me_RecordCount meta) \<le> n div 16 \<and> sint (me_MinTimestampMS meta) \<le> sint (me_MaxTimestampMS meta)"
  by (auto simp: validateMeta_def lastLSN_def Let_def not_le not_less)

lemma of_nat_div16: "n < 4294967296 \<Longrightarrow> (x :: u32) \<le> of_nat n div 16 \<longleftrightarrow> unat x \<le> n div 16"
  by (simp add: word_le_nat_alt unat_div unat_of_nat_u32)

text \<open>What sealing succeeds with: a valid preamble that describes the stored bytes.\<close>

lemma Seal_Inr:
  assumes "Seal zenc xxh codec algo raw meta = Inr s"
  shows "Codec_Validate codec = Inr ()" "HashAlgo_Validate algo = Inr ()" "validateMeta meta (length raw) = Inr ()"
    "encodeStored zenc codec raw False = Inr (sl_Stored s)"
    "HashBytes xxh algo (sl_Stored s) = Inr (bp_BlockHash (sl_Preamble s))"
    "BlockPreamble_Validate (sl_Preamble s) = Inr ()"
    "unat (bp_StoredSize (sl_Preamble s)) = length (sl_Stored s)"
    "unat (bp_RawSize (sl_Preamble s)) = length raw" "length raw \<le> MaxRawBlockSize"
    "bp_RecordCount (sl_Preamble s) = me_RecordCount meta" "bp_BaseLSN (sl_Preamble s) = me_BaseLSN meta"
    "bp_MinTimestampMS (sl_Preamble s) = me_MinTimestampMS meta"
    "bp_MaxTimestampMS (sl_Preamble s) = me_MaxTimestampMS meta"
proof -
  have v: "validateMeta meta (length raw) = Inr ()"
    using assms by (auto simp: Seal_def seal_def)
  then show "length raw \<le> MaxRawBlockSize" "validateMeta meta (length raw) = Inr ()"
    by (simp_all add: validateMeta_lastLSN)
  then have "unat (of_nat (length raw) :: u32) = length raw" by (simp add: unat_of_nat_u32 MaxRawBlockSize_def)
  moreover have "length (sl_Stored s) \<le> MaxStoredBlockSize"
    using assms by (auto simp: Seal_def seal_def Let_def split: if_splits)
  then have "unat (of_nat (length (sl_Stored s)) :: u32) = length (sl_Stored s)"
    by (simp add: unat_of_nat_u32 MaxStoredBlockSize_def)
  ultimately show "unat (bp_StoredSize (sl_Preamble s)) = length (sl_Stored s)"
      "unat (bp_RawSize (sl_Preamble s)) = length raw"
    using assms by (auto simp: Seal_def seal_def Let_def split: if_splits)
qed (use assms in \<open>auto simp: Seal_def seal_def Let_def split: if_splits\<close>)

lemma Open_Seal:
  assumes "zstd_codec zenc zdec" "Seal zenc xxh codec algo raw meta = Inr s"
  shows "Open zdec xxh codec algo (sl_Preamble s) (sl_Stored s) = Inr raw"
proof -
  note S = Seal_Inr[OF assms(2)]
  have "decodeStored zdec codec (sl_Stored s) False = Inr raw"
    using S(1,4,9) assms(1) by (auto simp: encodeStored_def decodeStored_def zstd_codec_def split: if_splits)
  then show ?thesis using S(1,2,5-8) by (simp add: Open_def open_block_def)
qed

text \<open>Without compression sealing refuses nothing but bad metadata.\<close>

lemma Seal_none:
  assumes "validateMeta meta (length raw) = Inr ()" "HashAlgo_Validate algo = Inr ()"
  shows "\<exists>s. Seal zenc xxh CodecNone algo raw meta = Inr s \<and> sl_Stored s = raw"
proof -
  have m: "0 < length raw" "length raw \<le> MaxRawBlockSize" "unat (me_RecordCount meta) \<le> length raw div 16"
      "\<exists>l. lastLSN (me_BaseLSN meta) (me_RecordCount meta) = Inr l"
      "sint (me_MinTimestampMS meta) \<le> sint (me_MaxTimestampMS meta)"
    using assms(1) by (simp_all add: validateMeta_lastLSN)
  then have n: "length raw < 4294967296" "length raw \<le> MaxStoredBlockSize"
    by (simp_all add: MaxRawBlockSize_def MaxStoredBlockSize_def)
  have ne: "(of_nat (length raw) :: u32) \<noteq> 0" using m(1) n(1) by (metis unat_of_nat_u32 unat_0 less_irrefl)
  obtain h where h: "HashBytes xxh algo raw = Inr h" using HashBytes_ok[OF assms(2)] by blast
  have c: "me_RecordCount meta \<noteq> 0" using m(4) by (auto simp: lastLSN_def split: if_splits)
  have "\<not> of_nat (length raw) div 16 < me_RecordCount meta"
    using m(3) of_nat_div16[OF n(1), of "me_RecordCount meta"] by (simp add: not_less)
  then show ?thesis
    using m n ne h c assms unfolding Seal_def seal_def encodeStored_def
    by (auto simp: Let_def BlockPreamble_Validate_def unat_of_nat_u32 CodecNone_def)
qed

end
