(* ===== verification/Seg_Codec.thy ===== *)
theory Seg_Codec
  imports Seg_Format Seg_Index
begin

text \<open>
  The byte layouts of \<^verbatim>\<open>internal/segformat/marshal.go\<close> and
  \<^verbatim>\<open>index.go\<close>: every \<^verbatim>\<open>MarshalBinary\<close> and \<^verbatim>\<open>Parse\<close>
  function, with the field offsets and the order of the checks of the source, and the block index
  as a sequence of fixed-width entries behind a hashed preamble.
\<close>


section \<open>File preamble\<close>

definition FilePreamble_MarshalBinary :: "FilePreamble \<Rightarrow> bytes res" where
  "FilePreamble_MarshalBinary p =
     bindE (FilePreamble_Validate p) (\<lambda>_. Inr (
       put 48 (be_bytes 16 (fp_WriterTag p)) (
       put 32 (be_bytes 16 (fp_SegmentUUID p)) (
       put 24 (be_bytes 8 (fp_BaseLSN p)) (
       put 20 (be_bytes 2 (fp_RecordFormat p)) (
       put 18 (be_bytes 2 (fp_HashAlgo p)) (
       put 16 (be_bytes 2 (fp_Codec p)) (
       put 12 (be_bytes 4 (fp_Partition p)) (
       put 8 (be_bytes 4 (fp_Flags p)) (
       put 6 (be_bytes 2 (of_nat FilePreambleSize :: u16)) (
       put 4 (be_bytes 2 SegVersion) (
       put 0 fileMagic (zeros FilePreambleSize)))))))))))))"

definition ParseFilePreamble :: "bytes \<Rightarrow> FilePreamble res" where
  "ParseFilePreamble buf =
     (if length buf \<noteq> FilePreambleSize then Inl [SegErrInvalidSegment]
      else if subslice 0 4 buf \<noteq> fileMagic then Inl [SegErrInvalidSegment]
      else if be_word (subslice 4 6 buf) \<noteq> SegVersion then Inl [SegErrUnsupportedVersion]
      else if be_word (subslice 6 8 buf) \<noteq> (of_nat FilePreambleSize :: u16)
        then Inl [SegErrInvalidSegment]
      else if \<not> all_zero (subslice 22 24 buf) then Inl [SegErrInvalidSegment]
      else let p = \<lparr>fp_Flags = be_word (subslice 8 12 buf),
                    fp_Partition = be_word (subslice 12 16 buf),
                    fp_Codec = be_word (subslice 16 18 buf),
                    fp_HashAlgo = be_word (subslice 18 20 buf),
                    fp_RecordFormat = be_word (subslice 20 22 buf),
                    fp_BaseLSN = be_word (subslice 24 32 buf),
                    fp_SegmentUUID = be_word (subslice 32 48 buf),
                    fp_WriterTag = be_word (subslice 48 64 buf)\<rparr>
      in bindE (FilePreamble_Validate p) (\<lambda>_. Inr p))"


section \<open>Block preamble\<close>

definition BlockPreamble_MarshalBinary :: "BlockPreamble \<Rightarrow> bytes res" where
  "BlockPreamble_MarshalBinary p =
     bindE (BlockPreamble_Validate p) (\<lambda>_. Inr (
       put 48 (be_bytes 8 (bp_BlockHash p)) (
       put 40 (be_bytes 8 (bp_MaxTimestampMS p)) (
       put 32 (be_bytes 8 (bp_MinTimestampMS p)) (
       put 24 (be_bytes 8 (bp_BaseLSN p)) (
       put 16 (be_bytes 4 (bp_RecordCount p)) (
       put 12 (be_bytes 4 (bp_RawSize p)) (
       put 8 (be_bytes 4 (bp_StoredSize p)) (
       put 6 (be_bytes 2 (bp_Flags p)) (
       put 4 (be_bytes 2 (of_nat BlockPreambleSize :: u16)) (
       put 0 blockMagic (zeros BlockPreambleSize))))))))))))"

definition ParseBlockPreamble :: "bytes \<Rightarrow> BlockPreamble res" where
  "ParseBlockPreamble buf =
     (if length buf \<noteq> BlockPreambleSize then Inl [SegErrInvalidSegment]
      else if subslice 0 4 buf \<noteq> blockMagic then Inl [SegErrInvalidSegment]
      else if be_word (subslice 4 6 buf) \<noteq> (of_nat BlockPreambleSize :: u16)
        then Inl [SegErrInvalidSegment]
      else if \<not> all_zero (subslice 20 24 buf) \<or> \<not> all_zero (subslice 56 64 buf)
        then Inl [SegErrInvalidSegment]
      else let p = \<lparr>bp_Flags = be_word (subslice 6 8 buf),
                    bp_StoredSize = be_word (subslice 8 12 buf),
                    bp_RawSize = be_word (subslice 12 16 buf),
                    bp_RecordCount = be_word (subslice 16 20 buf),
                    bp_BaseLSN = be_word (subslice 24 32 buf),
                    bp_MinTimestampMS = be_word (subslice 32 40 buf),
                    bp_MaxTimestampMS = be_word (subslice 40 48 buf),
                    bp_BlockHash = be_word (subslice 48 56 buf)\<rparr>
      in bindE (BlockPreamble_Validate p) (\<lambda>_. Inr p))"


section \<open>Index preamble and entries\<close>

definition writeIndexPreamble :: "bytes \<Rightarrow> IndexPreamble \<Rightarrow> bytes" where
  "writeIndexPreamble buf p =
     put 16 (be_bytes 8 (ip_IndexHash p)) (
     put 12 (be_bytes 4 (ip_EntryCount p)) (
     put 8 (be_bytes 4 (ip_EntrySize p)) (
     put 6 (be_bytes 2 (ip_Flags p)) (
     put 4 (be_bytes 2 (of_nat IndexPreambleSize :: u16)) (
     put 0 segIndexMagic buf)))))"

definition IndexPreamble_MarshalBinary :: "IndexPreamble \<Rightarrow> bytes res" where
  "IndexPreamble_MarshalBinary p =
     bindE (IndexPreamble_Validate p) (\<lambda>_. Inr (
       put 16 (be_bytes 8 (ip_IndexHash p)) (
       put 12 (be_bytes 4 (ip_EntryCount p)) (
       put 8 (be_bytes 4 (ip_EntrySize p)) (
       put 6 (be_bytes 2 (ip_Flags p)) (
       put 4 (be_bytes 2 (of_nat IndexPreambleSize :: u16)) (
       put 0 segIndexMagic (zeros IndexPreambleSize))))))))"

definition ParseIndexPreamble :: "bytes \<Rightarrow> IndexPreamble res" where
  "ParseIndexPreamble buf =
     (if length buf \<noteq> IndexPreambleSize then Inl [SegErrInvalidSegment]
      else if subslice 0 4 buf \<noteq> segIndexMagic then Inl [SegErrInvalidSegment]
      else if be_word (subslice 4 6 buf) \<noteq> (of_nat IndexPreambleSize :: u16)
        then Inl [SegErrInvalidSegment]
      else if \<not> all_zero (subslice 24 64 buf) then Inl [SegErrInvalidSegment]
      else let p = \<lparr>ip_Flags = be_word (subslice 6 8 buf),
                    ip_EntrySize = be_word (subslice 8 12 buf),
                    ip_EntryCount = be_word (subslice 12 16 buf),
                    ip_IndexHash = be_word (subslice 16 24 buf)\<rparr>
      in bindE (IndexPreamble_Validate p) (\<lambda>_. Inr p))"

definition writeBlockIndexEntry :: "bytes \<Rightarrow> BlockIndexEntry \<Rightarrow> bytes" where
  "writeBlockIndexEntry buf e =
     put 48 (be_bytes 8 (bi_BlockHash e)) (
     put 40 (be_bytes 8 (bi_MaxTimestampMS e)) (
     put 32 (be_bytes 8 (bi_MinTimestampMS e)) (
     put 24 (be_bytes 8 (bi_BaseLSN e)) (
     put 16 (be_bytes 4 (bi_RecordCount e)) (
     put 12 (be_bytes 4 (bi_RawSize e)) (
     put 8 (be_bytes 4 (bi_StoredSize e)) (
     put 0 (be_bytes 8 (bi_BlockOffset e)) buf)))))))"

definition BlockIndexEntry_MarshalBinary :: "BlockIndexEntry \<Rightarrow> bytes res" where
  "BlockIndexEntry_MarshalBinary e =
     bindE (BlockIndexEntry_Validate e) (\<lambda>_. Inr (
       put 48 (be_bytes 8 (bi_BlockHash e)) (
       put 40 (be_bytes 8 (bi_MaxTimestampMS e)) (
       put 32 (be_bytes 8 (bi_MinTimestampMS e)) (
       put 24 (be_bytes 8 (bi_BaseLSN e)) (
       put 16 (be_bytes 4 (bi_RecordCount e)) (
       put 12 (be_bytes 4 (bi_RawSize e)) (
       put 8 (be_bytes 4 (bi_StoredSize e)) (
       put 0 (be_bytes 8 (bi_BlockOffset e)) (zeros BlockIndexEntrySize))))))))))"

definition ParseBlockIndexEntry :: "bytes \<Rightarrow> BlockIndexEntry res" where
  "ParseBlockIndexEntry buf =
     (if length buf \<noteq> BlockIndexEntrySize then Inl [SegErrInvalidSegment]
      else if \<not> all_zero (subslice 20 24 buf) \<or> \<not> all_zero (subslice 56 64 buf)
        then Inl [SegErrInvalidSegment]
      else let e = \<lparr>bi_BlockOffset = be_word (subslice 0 8 buf),
                    bi_StoredSize = be_word (subslice 8 12 buf),
                    bi_RawSize = be_word (subslice 12 16 buf),
                    bi_RecordCount = be_word (subslice 16 20 buf),
                    bi_BaseLSN = be_word (subslice 24 32 buf),
                    bi_MinTimestampMS = be_word (subslice 32 40 buf),
                    bi_MaxTimestampMS = be_word (subslice 40 48 buf),
                    bi_BlockHash = be_word (subslice 48 56 buf)\<rparr>
      in bindE (BlockIndexEntry_Validate e) (\<lambda>_. Inr e))"

text \<open>
  The index is the preamble followed by the entries, each written into its own 64-byte window of
  the zeroed buffer; the entry loop is therefore the concatenation of the windows.
\<close>

definition MarshalBlockIndex ::
  "(bytes \<Rightarrow> u64) \<Rightarrow> BlockIndexEntry list \<Rightarrow> SegTrailer \<Rightarrow> (bytes \<times> IndexPreamble) res" where
  "MarshalBlockIndex xxh entries trailer =
     (if entries = [] then Inl [SegErrBlockIndexMismatch]
      else if length entries > MaxBlockCount then Inl [SegErrBlockIndexMismatch]
      else bindE (ValidateIndex entries trailer) (\<lambda>_.
      bindE (mapE (\<lambda>e. bindE (BlockIndexEntry_Validate e) (\<lambda>_.
        Inr (writeBlockIndexEntry (zeros BlockIndexEntrySize) e))) entries) (\<lambda>windows.
      let entriesBytes = concat windows
      in bindE (HashBytes xxh (st_HashAlgo trailer) entriesBytes) (\<lambda>indexHash.
      let preamble = \<lparr>ip_Flags = 0, ip_EntrySize = of_nat BlockIndexEntrySize,
                      ip_EntryCount = of_nat (length entries), ip_IndexHash = indexHash\<rparr>
      in Inr (writeIndexPreamble (zeros IndexPreambleSize) preamble @ entriesBytes, preamble)))))"

definition ParseBlockIndex ::
  "(bytes \<Rightarrow> u64) \<Rightarrow> bytes \<Rightarrow> HashAlgo \<Rightarrow> (IndexPreamble \<times> BlockIndexEntry list) res" where
  "ParseBlockIndex xxh buf algo =
     (if length buf < IndexPreambleSize then Inl [SegErrInvalidSegment]
      else bindE (ParseIndexPreamble (take IndexPreambleSize buf)) (\<lambda>preamble.
      let wantLen = IndexPreambleSize + unat (ip_EntryCount preamble) * BlockIndexEntrySize
      in if length buf \<noteq> wantLen then Inl [SegErrInvalidSegment]
      else let entriesBytes = drop IndexPreambleSize buf
      in bindE (HashBytes xxh algo entriesBytes) (\<lambda>gotHash.
      if gotHash \<noteq> ip_IndexHash preamble then Inl [SegErrIntegrityMismatch]
      else bindE (mapE ParseBlockIndexEntry
             (chunks BlockIndexEntrySize (unat (ip_EntryCount preamble)) entriesBytes)) (\<lambda>entries.
      Inr (preamble, entries)))))"


section \<open>Trailer\<close>

text \<open>The buffer that is hashed: every field but the trailer hash itself, which is still zero.\<close>

definition trailer_body :: "SegTrailer \<Rightarrow> bytes" where
  "trailer_body t =
     put 128 (be_bytes 8 (st_SegmentHash t)) (
     put 112 (be_bytes 16 (st_WriterTag t)) (
     put 96 (be_bytes 16 (st_SegmentUUID t)) (
     put 88 (be_bytes 8 (st_CreatedUnixMS t)) (
     put 80 (be_bytes 8 (st_TotalSize t)) (
     put 72 (be_bytes 4 (st_BlockIndexLength t)) (
     put 64 (be_bytes 8 (st_BlockIndexOffset t)) (
     put 60 (be_bytes 4 (st_BlockCount t)) (
     put 56 (be_bytes 4 (st_RecordCount t)) (
     put 48 (be_bytes 8 (st_MaxTimestampMS t)) (
     put 40 (be_bytes 8 (st_MinTimestampMS t)) (
     put 32 (be_bytes 8 (st_LastLSN t)) (
     put 24 (be_bytes 8 (st_BaseLSN t)) (
     put 20 (be_bytes 2 (st_RecordFormat t)) (
     put 18 (be_bytes 2 (st_HashAlgo t)) (
     put 16 (be_bytes 2 (st_Codec t)) (
     put 12 (be_bytes 4 (st_Partition t)) (
     put 8 (be_bytes 4 (st_Flags t)) (
     put 6 (be_bytes 2 SegVersion) (
     put 4 (be_bytes 2 (of_nat SegTrailerSize :: u16)) (
     put 0 segTrailerMagic (zeros SegTrailerSize)))))))))))))))))))))"

definition SegTrailer_MarshalBinary :: "(bytes \<Rightarrow> u64) \<Rightarrow> SegTrailer \<Rightarrow> bytes res" where
  "SegTrailer_MarshalBinary xxh t =
     bindE (SegTrailer_Validate t (st_TotalSize t)) (\<lambda>_.
     bindE (HashBytes xxh (st_HashAlgo t) (trailer_body t)) (\<lambda>trailerHash.
     Inr (put 136 (be_bytes 8 trailerHash) (trailer_body t))))"

text \<open>The field reads of \<^verbatim>\<open>ParseTrailer\<close>.\<close>

definition trailer_fields :: "bytes \<Rightarrow> SegTrailer" where
  "trailer_fields buf =
     \<lparr>st_Flags = be_word (subslice 8 12 buf),
       st_Partition = be_word (subslice 12 16 buf),
       st_Codec = be_word (subslice 16 18 buf),
       st_HashAlgo = be_word (subslice 18 20 buf),
       st_RecordFormat = be_word (subslice 20 22 buf),
       st_BaseLSN = be_word (subslice 24 32 buf),
       st_LastLSN = be_word (subslice 32 40 buf),
       st_MinTimestampMS = be_word (subslice 40 48 buf),
       st_MaxTimestampMS = be_word (subslice 48 56 buf),
       st_RecordCount = be_word (subslice 56 60 buf),
       st_BlockCount = be_word (subslice 60 64 buf),
       st_BlockIndexOffset = be_word (subslice 64 72 buf),
       st_BlockIndexLength = be_word (subslice 72 76 buf),
       st_TotalSize = be_word (subslice 80 88 buf),
       st_CreatedUnixMS = be_word (subslice 88 96 buf),
       st_SegmentUUID = be_word (subslice 96 112 buf),
       st_WriterTag = be_word (subslice 112 128 buf),
       st_SegmentHash = be_word (subslice 128 136 buf),
       st_TrailerHash = be_word (subslice 136 144 buf)\<rparr>"

definition ParseTrailer :: "(bytes \<Rightarrow> u64) \<Rightarrow> bytes \<Rightarrow> u64 \<Rightarrow> SegTrailer res" where
  "ParseTrailer xxh buf objectSize =
     (if length buf \<noteq> SegTrailerSize then Inl [SegErrInvalidSegment]
      else if subslice 0 4 buf \<noteq> segTrailerMagic then Inl [SegErrInvalidSegment]
      else if be_word (subslice 4 6 buf) \<noteq> (of_nat SegTrailerSize :: u16)
        then Inl [SegErrInvalidSegment]
      else if be_word (subslice 6 8 buf) \<noteq> SegVersion then Inl [SegErrUnsupportedVersion]
      else if \<not> all_zero (subslice 22 24 buf) \<or> \<not> all_zero (subslice 76 80 buf)
              \<or> \<not> all_zero (subslice 144 192 buf) then Inl [SegErrInvalidSegment]
      else let t = trailer_fields buf
      in bindE (SegTrailer_Validate t objectSize) (\<lambda>_.
         bindE (HashBytes xxh (st_HashAlgo t) (put 136 (zeros 8) buf)) (\<lambda>got.
         if got \<noteq> st_TrailerHash t then Inl [SegErrIntegrityMismatch] else Inr t)))"

definition MarshalTrailer :: "(bytes \<Rightarrow> u64) \<Rightarrow> SegTrailer \<Rightarrow> (bytes \<times> SegTrailer) res" where
  "MarshalTrailer xxh t =
     bindE (SegTrailer_MarshalBinary xxh t) (\<lambda>buf.
     bindE (ParseTrailer xxh buf (st_TotalSize t)) (\<lambda>sealed. Inr (buf, sealed)))"


section \<open>Round trips\<close>

lemma length_trailer_body [simp]: "length (trailer_body t) = 192"
  by (simp add: trailer_body_def)

lemma length_writeBlockIndexEntry [simp]:
  "length buf = 64 \<Longrightarrow> length (writeBlockIndexEntry buf e) = 64"
  by (simp add: writeBlockIndexEntry_def)

lemma length_writeIndexPreamble [simp]: "length buf = 64 \<Longrightarrow> length (writeIndexPreamble buf p) = 64"
  by (simp add: writeIndexPreamble_def)

lemma IndexPreamble_MarshalBinary_write:
  "IndexPreamble_MarshalBinary p =
     bindE (IndexPreamble_Validate p) (\<lambda>_. Inr (writeIndexPreamble (zeros IndexPreambleSize) p))"
  by (simp add: IndexPreamble_MarshalBinary_def writeIndexPreamble_def)

lemma BlockIndexEntry_MarshalBinary_write:
  "BlockIndexEntry_MarshalBinary e =
     bindE (BlockIndexEntry_Validate e) (\<lambda>_. Inr (writeBlockIndexEntry (zeros BlockIndexEntrySize) e))"
  by (simp add: BlockIndexEntry_MarshalBinary_def writeBlockIndexEntry_def)

lemma ParseFilePreamble_Marshal:
  "FilePreamble_MarshalBinary p = Inr buf \<Longrightarrow> ParseFilePreamble buf = Inr p"
  by (cases p) (auto simp: FilePreamble_MarshalBinary_def ParseFilePreamble_def Let_def slices)

lemma ParseBlockPreamble_Marshal:
  "BlockPreamble_MarshalBinary p = Inr buf \<Longrightarrow> ParseBlockPreamble buf = Inr p"
  by (cases p) (auto simp: BlockPreamble_MarshalBinary_def ParseBlockPreamble_def Let_def slices)

lemma ParseIndexPreamble_write:
  "IndexPreamble_Validate p = Inr () \<Longrightarrow>
     ParseIndexPreamble (writeIndexPreamble (zeros 64) p) = Inr p"
  by (cases p) (simp add: writeIndexPreamble_def ParseIndexPreamble_def Let_def slices)

lemma ParseBlockIndexEntry_write:
  "BlockIndexEntry_Validate e = Inr () \<Longrightarrow>
     ParseBlockIndexEntry (writeBlockIndexEntry (zeros 64) e) = Inr e"
  by (cases e) (simp add: writeBlockIndexEntry_def ParseBlockIndexEntry_def Let_def slices)

text \<open>
  Canonicity: bytes that parse are the bytes the marshaller writes, so an object has one
  encoding.
\<close>

lemma FilePreamble_Marshal_Parse:
  assumes "ParseFilePreamble buf = Inr p"
  shows "FilePreamble_MarshalBinary p = Inr buf"
proof -
  let ?cuts = "[4, 6, 8, 12, 16, 18, 20, 22, 24, 32, 48, 64] :: nat list"
  have len: "length buf = 64" and ok: "FilePreamble_Validate p = Inr ()"
    using assms by (auto simp: ParseFilePreamble_def Let_def split: if_splits)
  obtain out where out: "FilePreamble_MarshalBinary p = Inr out" and outlen: "length out = 64"
    using ok by (simp add: FilePreamble_MarshalBinary_def)
  have "cuts (0 # ?cuts) out = cuts (0 # ?cuts) buf"
    using assms out len
    by (auto simp: ParseFilePreamble_def FilePreamble_MarshalBinary_def Let_def slices be_bytes_field
        be_bytes_eq_iff all_zero_iff split: if_splits)
  then show ?thesis using cuts_eqI[of out 64 buf ?cuts] out outlen len by simp
qed

lemma BlockPreamble_Marshal_Parse:
  assumes "ParseBlockPreamble buf = Inr p"
  shows "BlockPreamble_MarshalBinary p = Inr buf"
proof -
  let ?cuts = "[4, 6, 8, 12, 16, 20, 24, 32, 40, 48, 56, 64] :: nat list"
  have len: "length buf = 64" and ok: "BlockPreamble_Validate p = Inr ()"
    using assms by (auto simp: ParseBlockPreamble_def Let_def split: if_splits)
  obtain out where out: "BlockPreamble_MarshalBinary p = Inr out" and outlen: "length out = 64"
    using ok by (simp add: BlockPreamble_MarshalBinary_def)
  have "cuts (0 # ?cuts) out = cuts (0 # ?cuts) buf"
    using assms out len
    by (auto simp: ParseBlockPreamble_def BlockPreamble_MarshalBinary_def Let_def slices
        be_bytes_field be_bytes_eq_iff all_zero_iff split: if_splits)
  then show ?thesis using cuts_eqI[of out 64 buf ?cuts] out outlen len by simp
qed

lemma writeIndexPreamble_Parse:
  assumes "ParseIndexPreamble buf = Inr p"
  shows "writeIndexPreamble (zeros 64) p = buf"
proof -
  let ?cuts = "[4, 6, 8, 12, 16, 24, 64] :: nat list"
  have len: "length buf = 64"
    using assms by (auto simp: ParseIndexPreamble_def split: if_splits)
  have "cuts (0 # ?cuts) (writeIndexPreamble (zeros 64) p) = cuts (0 # ?cuts) buf"
    using assms len
    by (auto simp: ParseIndexPreamble_def writeIndexPreamble_def Let_def slices be_bytes_field
        be_bytes_eq_iff all_zero_iff split: if_splits)
  then show ?thesis using cuts_eqI[of "writeIndexPreamble (zeros 64) p" 64 buf ?cuts] len by simp
qed

lemma writeBlockIndexEntry_Parse:
  assumes "ParseBlockIndexEntry buf = Inr e"
  shows "writeBlockIndexEntry (zeros 64) e = buf"
proof -
  let ?cuts = "[8, 12, 16, 20, 24, 32, 40, 48, 56, 64] :: nat list"
  have len: "length buf = 64"
    using assms by (auto simp: ParseBlockIndexEntry_def split: if_splits)
  have "cuts (0 # ?cuts) (writeBlockIndexEntry (zeros 64) e) = cuts (0 # ?cuts) buf"
    using assms len
    by (auto simp: ParseBlockIndexEntry_def writeBlockIndexEntry_def Let_def slices be_bytes_field
        be_bytes_eq_iff all_zero_iff split: if_splits)
  then show ?thesis using cuts_eqI[of "writeBlockIndexEntry (zeros 64) e" 64 buf ?cuts] len by simp
qed

interpretation bie: fixed_codec 64 "writeBlockIndexEntry (zeros 64)" ParseBlockIndexEntry
  "\<lambda>e. BlockIndexEntry_Validate e = Inr ()"
proof unfold_locales
  show "BlockIndexEntry_Validate x = Inr ()" if "ParseBlockIndexEntry bs = Inr x" for bs x
    using that by (auto simp: ParseBlockIndexEntry_def Let_def split: if_splits)
qed (simp_all add: ParseBlockIndexEntry_write writeBlockIndexEntry_Parse)


lemma ParseBlockIndex_Marshal:
  assumes "MarshalBlockIndex xxh entries trailer = Inr (buf, preamble)"
  shows "ParseBlockIndex xxh buf (st_HashAlgo trailer) = Inr (preamble, entries)"
proof -
  let ?body = "concat (map (writeBlockIndexEntry (zeros 64)) entries)"
  let ?win = "\<lambda>e. bindE (BlockIndexEntry_Validate e) (\<lambda>_. Inr (writeBlockIndexEntry (zeros 64) e))"
  have max: "length entries \<le> MaxBlockCount" and ne: "entries \<noteq> []"
    using assms by (auto simp: MarshalBlockIndex_def split: if_splits)
  have count: "unat (of_nat (length entries) :: u32) = length entries"
    using max by (simp add: unsigned_of_nat take_bit_nat_eq_self MaxBlockCount_def)
  obtain windows where w: "mapE ?win entries = Inr windows"
    using assms by (auto simp: MarshalBlockIndex_def Let_def split: if_splits)
  then have "list_all (\<lambda>e. BlockIndexEntry_Validate e = Inr ()) entries
      \<and> windows = map (writeBlockIndexEntry (zeros 64)) entries"
    by (induction entries arbitrary: windows) auto
  then have valid: "list_all (\<lambda>e. BlockIndexEntry_Validate e = Inr ()) entries"
    and win: "concat windows = ?body" by auto
  have hash: "HashBytes xxh (st_HashAlgo trailer) ?body = Inr (ip_IndexHash preamble)"
    and pre: "preamble = \<lparr>ip_Flags = 0, ip_EntrySize = 64, ip_EntryCount = of_nat (length entries),
                ip_IndexHash = ip_IndexHash preamble\<rparr>"
    and buf: "buf = writeIndexPreamble (zeros 64) preamble @ ?body"
    using assms w win by (auto simp: MarshalBlockIndex_def Let_def split: if_splits)
  have okp: "IndexPreamble_Validate preamble = Inr ()"
    using ne max count by (subst pre) (auto simp: IndexPreamble_Validate_def unat_eq_zero[symmetric])
  have parse: "mapE ParseBlockIndexEntry (chunks 64 (length entries) ?body) = Inr entries"
    using bie.dec_enc_seq[OF valid, of "[]"] by simp
  have cnt: "unat (ip_EntryCount preamble) = length entries" by (subst pre) (simp add: count)
  have len: "length ?body = length entries * 64" by (rule bie.length_enc_seq)
  show ?thesis
    by (simp add: ParseBlockIndex_def buf cnt len hash parse ParseIndexPreamble_write[OF okp])
qed

lemma ParseBlockIndex_canonical:
  assumes "ParseBlockIndex xxh buf algo = Inr (preamble, entries)"
  shows "buf = writeIndexPreamble (zeros 64) preamble @ concat (map (writeBlockIndexEntry (zeros 64)) entries)"
    and "length entries = unat (ip_EntryCount preamble)"
    and "list_all (\<lambda>e. BlockIndexEntry_Validate e = Inr ()) entries"
proof -
  let ?n = "unat (ip_EntryCount preamble)"
  have p: "ParseIndexPreamble (take 64 buf) = Inr preamble" and len: "length buf = 64 + ?n * 64"
    and e: "mapE ParseBlockIndexEntry (chunks 64 ?n (drop 64 buf)) = Inr entries"
    using assms by (auto simp: ParseBlockIndex_def Let_def split: if_splits)
  have *: "length entries = ?n \<and> list_all (\<lambda>e. BlockIndexEntry_Validate e = Inr ()) entries
      \<and> concat (map (writeBlockIndexEntry (zeros 64)) entries) = take (?n * 64) (drop 64 buf)"
    using bie.enc_dec_seq[OF e] len by simp
  then show "length entries = ?n" "list_all (\<lambda>e. BlockIndexEntry_Validate e = Inr ()) entries" by auto
  show "buf = writeIndexPreamble (zeros 64) preamble @ concat (map (writeBlockIndexEntry (zeros 64)) entries)"
    using * len by (simp add: writeIndexPreamble_Parse[OF p])
qed


section \<open>Trailer round trip\<close>

lemma trailer_body_hash_field: "subslice 136 144 (trailer_body t) = zeros 8"
  by (simp add: trailer_body_def slices)

lemma SegTrailer_Validate_hash [simp]:
  "SegTrailer_Validate (t\<lparr>st_TrailerHash := h\<rparr>) n = SegTrailer_Validate t n"
  by (simp add: SegTrailer_Validate_def Let_def)

lemma SegTrailer_Validate_size:
  "SegTrailer_Validate t n = Inr () \<Longrightarrow> SegTrailer_Validate t (st_TotalSize t) = Inr ()"
  by (auto simp: SegTrailer_Validate_def Let_def split: if_splits)

lemma trailer_body_update [simp]: "trailer_body (t\<lparr>st_TrailerHash := h\<rparr>) = trailer_body t"
  by (simp add: trailer_body_def)

lemma trailer_fields_body:
  "trailer_fields (put 136 (be_bytes 8 h) (trailer_body t)) = t\<lparr>st_TrailerHash := h\<rparr>"
  by (cases t) (simp add: trailer_fields_def trailer_body_def slices)

lemma ParseTrailer_body:
  assumes "SegTrailer_Validate t n = Inr ()"
    and "HashBytes xxh (st_HashAlgo t) (trailer_body t) = Inr h"
  shows "ParseTrailer xxh (put 136 (be_bytes 8 h) (trailer_body t)) n = Inr (t\<lparr>st_TrailerHash := h\<rparr>)"
proof -
  let ?buf = "put 136 (be_bytes 8 h) (trailer_body t)"
  have check: "put 136 (zeros 8) ?buf = trailer_body t"
    using put_subslice[of 136 8 "trailer_body t"] by (simp add: put_put_same trailer_body_hash_field)
  have "length ?buf = 192" "subslice 0 4 ?buf = segTrailerMagic"
    "be_word (subslice 4 6 ?buf) = (192 :: u16)" "be_word (subslice 6 8 ?buf) = SegVersion"
    "all_zero (subslice 22 24 ?buf)" "all_zero (subslice 76 80 ?buf)" "all_zero (subslice 144 192 ?buf)"
    by (simp_all add: trailer_body_def slices)
  then show ?thesis
    using assms by (simp add: ParseTrailer_def Let_def trailer_fields_body check)
qed

lemma ParseTrailer_Marshal:
  "SegTrailer_MarshalBinary xxh t = Inr buf \<Longrightarrow>
     \<exists>h. HashBytes xxh (st_HashAlgo t) (trailer_body t) = Inr h
       \<and> ParseTrailer xxh buf (st_TotalSize t) = Inr (t\<lparr>st_TrailerHash := h\<rparr>)"
  by (auto simp: SegTrailer_MarshalBinary_def ParseTrailer_body)

lemma trailer_body_fields:
  assumes "length buf = 192" "subslice 0 4 buf = segTrailerMagic"
    "be_word (subslice 4 6 buf) = (192 :: u16)" "be_word (subslice 6 8 buf) = SegVersion"
    "all_zero (subslice 22 24 buf)" "all_zero (subslice 76 80 buf)" "all_zero (subslice 144 192 buf)"
  shows "trailer_body (trailer_fields buf) = put 136 (zeros 8) buf"
proof -
  let ?cuts = "[4, 6, 8, 12, 16, 18, 20, 22, 24, 32, 40, 48, 56, 60, 64, 72, 76, 80, 88, 96, 112, 128,
    136, 144, 192] :: nat list"
  have "cuts (0 # ?cuts) (trailer_body (trailer_fields buf)) = cuts (0 # ?cuts) (put 136 (zeros 8) buf)"
    using assms by (simp add: trailer_body_def trailer_fields_def slices be_bytes_field be_bytes_eq_iff
        all_zero_iff)
  then show ?thesis
    using cuts_eqI[of "trailer_body (trailer_fields buf)" 192 "put 136 (zeros 8) buf" ?cuts] assms(1)
    by simp
qed

lemma SegTrailer_Marshal_Parse:
  assumes "ParseTrailer xxh buf n = Inr t"
  shows "SegTrailer_MarshalBinary xxh t = Inr buf"
proof -
  have t: "t = trailer_fields buf" and ok: "SegTrailer_Validate t n = Inr ()"
    and len: "length buf = 192"
    and h: "HashBytes xxh (st_HashAlgo t) (put 136 (zeros 8) buf) = Inr (st_TrailerHash t)"
    using assms by (auto simp: ParseTrailer_def Let_def split: if_splits)
  have body: "trailer_body t = put 136 (zeros 8) buf"
    unfolding t using assms
    by (intro trailer_body_fields) (auto simp: ParseTrailer_def Let_def split: if_splits)
  have "be_bytes 8 (st_TrailerHash t) = subslice 136 (136 + 8) buf"
    using len by (simp add: t trailer_fields_def be_bytes_field)
  then have "put 136 (be_bytes 8 (st_TrailerHash t)) (trailer_body t) = buf"
    using len put_subslice[of 136 8 buf] by (simp add: body put_put_same)
  then show ?thesis
    using SegTrailer_Validate_size[OF ok] h body by (simp add: SegTrailer_MarshalBinary_def)
qed


section \<open>Properties\<close>

text \<open>C2: the four 64-byte regions have exactly one encoding each. Bytes parse to a file
  preamble, block preamble, index preamble or index entry if and only if marshalling that value
  succeeds and gives those bytes, so nothing written is lost and no other bytes are accepted.\<close>

theorem segment_regions_bijective:
  "(ParseFilePreamble buf = Inr fp \<longleftrightarrow> FilePreamble_MarshalBinary fp = Inr buf)
   \<and> (ParseBlockPreamble buf = Inr bp \<longleftrightarrow> BlockPreamble_MarshalBinary bp = Inr buf)
   \<and> (ParseIndexPreamble buf = Inr ip \<longleftrightarrow> IndexPreamble_MarshalBinary ip = Inr buf)
   \<and> (ParseBlockIndexEntry buf = Inr e \<longleftrightarrow> BlockIndexEntry_MarshalBinary e = Inr buf)"
proof (intro conjI)
  show "ParseFilePreamble buf = Inr fp \<longleftrightarrow> FilePreamble_MarshalBinary fp = Inr buf"
    using ParseFilePreamble_Marshal FilePreamble_Marshal_Parse by blast
  show "ParseBlockPreamble buf = Inr bp \<longleftrightarrow> BlockPreamble_MarshalBinary bp = Inr buf"
    using ParseBlockPreamble_Marshal BlockPreamble_Marshal_Parse by blast
  have "ParseIndexPreamble buf = Inr ip \<Longrightarrow> IndexPreamble_Validate ip = Inr ()"
    by (auto simp: ParseIndexPreamble_def Let_def split: if_splits)
  then show "ParseIndexPreamble buf = Inr ip \<longleftrightarrow> IndexPreamble_MarshalBinary ip = Inr buf"
    using ParseIndexPreamble_write writeIndexPreamble_Parse
    by (auto simp: IndexPreamble_MarshalBinary_write)
  show "ParseBlockIndexEntry buf = Inr e \<longleftrightarrow> BlockIndexEntry_MarshalBinary e = Inr buf"
    using bie.dec_enc bie.enc_dec bie.dec_ok by (auto simp: BlockIndexEntry_MarshalBinary_write)
qed

text \<open>C3: sealing a valid trailer always succeeds; it gives 192 bytes and the trailer with its
  hash filled in, parsing those bytes gives that trailer back, and any bytes that parse to a
  trailer are the ones sealing that trailer writes.\<close>

theorem MarshalTrailer_seals:
  assumes "SegTrailer_Validate t (st_TotalSize t) = Inr ()"
  shows "\<exists>buf h. MarshalTrailer xxh t = Inr (buf, t\<lparr>st_TrailerHash := h\<rparr>) \<and> length buf = SegTrailerSize
      \<and> ParseTrailer xxh buf (st_TotalSize t) = Inr (t\<lparr>st_TrailerHash := h\<rparr>)
      \<and> (\<forall>buf' n. ParseTrailer xxh buf' n = Inr (t\<lparr>st_TrailerHash := h\<rparr>) \<longrightarrow> buf' = buf)"
proof -
  have "HashAlgo_Validate (st_HashAlgo t) = Inr ()"
    using assms by (auto simp: SegTrailer_Validate_def Let_def split: if_splits)
  then obtain h where h: "HashBytes xxh (st_HashAlgo t) (trailer_body t) = Inr h"
    using HashBytes_ok by blast
  let ?buf = "put 136 (be_bytes 8 h) (trailer_body t)"
  have m: "SegTrailer_MarshalBinary xxh t = Inr ?buf"
    using assms h by (simp add: SegTrailer_MarshalBinary_def)
  have p: "ParseTrailer xxh ?buf (st_TotalSize t) = Inr (t\<lparr>st_TrailerHash := h\<rparr>)"
    using assms h by (rule ParseTrailer_body)
  have uniq: "\<forall>buf' n. ParseTrailer xxh buf' n = Inr (t\<lparr>st_TrailerHash := h\<rparr>) \<longrightarrow> buf' = ?buf"
    using SegTrailer_Marshal_Parse[OF p] SegTrailer_Marshal_Parse by fastforce
  have "MarshalTrailer xxh t = Inr (?buf, t\<lparr>st_TrailerHash := h\<rparr>)" "length ?buf = SegTrailerSize"
    using m p by (simp_all add: MarshalTrailer_def)
  then show ?thesis using p uniq by blast
qed

lemma sample_trailer_valid: "SegTrailer_Validate sample_trailer 636 = Inr ()"
  by (simp add: SegTrailer_Validate_def sample_trailer_def CodecNone_def HashCRC32C_def
      RecordFormatV1_def MaxRecordLSN_def MaxBlockCount_def)

theorem MarshalTrailer_seals_witness:
  "\<exists>buf h. MarshalTrailer (\<lambda>_. 0) sample_trailer = Inr (buf, sample_trailer\<lparr>st_TrailerHash := h\<rparr>)"
proof -
  have "SegTrailer_Validate sample_trailer (st_TotalSize sample_trailer) = Inr ()"
    using sample_trailer_valid by (simp add: sample_trailer_def)
  then show ?thesis using MarshalTrailer_seals[of sample_trailer "\<lambda>_. 0"] by blast
qed

text \<open>C4: a block index that was marshalled for a trailer parses back to the same preamble and
  entries under the trailer's hash algorithm.\<close>

theorem block_index_roundtrip:
  assumes "MarshalBlockIndex xxh entries t = Inr (buf, preamble)"
  shows "ParseBlockIndex xxh buf (st_HashAlgo t) = Inr (preamble, entries)"
  by (rule ParseBlockIndex_Marshal[OF assms])

theorem block_index_roundtrip_witness:
  "\<exists>buf preamble. MarshalBlockIndex (\<lambda>_. 0) sample_index sample_trailer = Inr (buf, preamble)
     \<and> ParseBlockIndex (\<lambda>_. 0) buf HashCRC32C = Inr (preamble, sample_index)"
proof -
  let ?w = "map (writeBlockIndexEntry (zeros 64)) sample_index"
  have "list_all (\<lambda>e. BlockIndexEntry_Validate e = Inr ()) sample_index"
    using ValidateIndex_sound(1)[OF sample_index_valid] .
  then have "mapE (\<lambda>e. bindE (BlockIndexEntry_Validate e) (\<lambda>_.
      Inr (writeBlockIndexEntry (zeros BlockIndexEntrySize) e))) sample_index = Inr ?w"
    by (intro mapE_all_Inr) (auto simp: list_all_iff)
  moreover have "st_HashAlgo sample_trailer = HashCRC32C"
    by (simp add: sample_trailer_def HashCRC32C_def)
  moreover have ne: "sample_index \<noteq> []" "length sample_index \<le> MaxBlockCount"
    by (simp_all add: sample_index_def MaxBlockCount_def)
  ultimately obtain buf preamble
    where m: "MarshalBlockIndex (\<lambda>_. 0) sample_index sample_trailer = Inr (buf, preamble)"
    using ne by (simp add: MarshalBlockIndex_def sample_index_valid HashBytes_def Let_def)
  show ?thesis using block_index_roundtrip[OF m] m by (auto simp: sample_trailer_def HashCRC32C_def)
qed

end
