(* ===== verification/Partition_Meta.thy ===== *)
theory Partition_Meta
  imports Seg_Index
begin

text \<open>
  Partition metadata (\<^verbatim>\<open>internal/pmeta/types.go\<close>) and the request types of the catalog interface
  (\<^verbatim>\<open>internal/catalog/types.go\<close>): segment references, the partition head, pages of references,
  retention requests, and the checks every append goes through.
\<close>


section \<open>Segment references and heads\<close>

definition DefaultSegmentPageLimit :: int where "DefaultSegmentPageLimit = 128"
definition MaxSegmentPageLimit :: int where "MaxSegmentPageLimit = 1024"
definition RetentionRequestVersion :: u16 where "RetentionRequestVersion = 1"

record SegmentRef =
  sr_URI :: string
  sr_StreamID :: string
  sr_Partition :: u32
  sr_WriterEpoch :: u64
  sr_SegmentUUID :: bytes16
  sr_WriterTag :: bytes16
  sr_BaseLSN :: u64
  sr_LastLSN :: u64
  sr_MinTimestampMS :: i64
  sr_MaxTimestampMS :: i64
  sr_RecordCount :: u32
  sr_BlockCount :: u32
  sr_SizeBytes :: u64
  sr_BlockIndexOffset :: u64
  sr_BlockIndexLength :: u32
  sr_Codec :: Codec
  sr_HashAlgo :: HashAlgo
  sr_SegmentHash :: u64
  sr_TrailerHash :: u64

definition zero_SegmentRef :: SegmentRef where
  "zero_SegmentRef =
     \<lparr>sr_URI = [], sr_StreamID = [], sr_Partition = 0, sr_WriterEpoch = 0, sr_SegmentUUID = 0,
      sr_WriterTag = 0, sr_BaseLSN = 0, sr_LastLSN = 0, sr_MinTimestampMS = 0,
      sr_MaxTimestampMS = 0, sr_RecordCount = 0, sr_BlockCount = 0, sr_SizeBytes = 0,
      sr_BlockIndexOffset = 0, sr_BlockIndexLength = 0, sr_Codec = 0, sr_HashAlgo = 0,
      sr_SegmentHash = 0, sr_TrailerHash = 0\<rparr>"

record PartitionHead =
  pt_StreamID :: string
  pt_Partition :: u32
  pt_NextLSN :: u64
  pt_OldestLSN :: u64
  pt_AppliedRetentionLSN :: u64
  pt_AppliedRetentionVersion :: u64
  pt_WriterEpoch :: u64
  pt_SegmentCount :: u64
  pt_ReachableSegmentCount :: u64
  pt_LastSegment :: SegmentRef
  pt_HasLastSegment :: bool

text \<open>The zero head of a stream partition: every other field has Go's zero value.\<close>

definition zero_PartitionHead :: "string \<Rightarrow> u32 \<Rightarrow> PartitionHead" where
  "zero_PartitionHead streamID part =
     \<lparr>pt_StreamID = streamID, pt_Partition = part, pt_NextLSN = 0, pt_OldestLSN = 0,
      pt_AppliedRetentionLSN = 0, pt_AppliedRetentionVersion = 0, pt_WriterEpoch = 0,
      pt_SegmentCount = 0, pt_ReachableSegmentCount = 0, pt_LastSegment = zero_SegmentRef,
      pt_HasLastSegment = False\<rparr>"

definition PartitionHead_Last :: "PartitionHead \<Rightarrow> SegmentRef option" where
  "PartitionHead_Last h = (if \<not> pt_HasLastSegment h then None else Some (pt_LastSegment h))"

definition SegmentRef_Validate :: "SegmentRef \<Rightarrow> unit res" where
  "SegmentRef_Validate s =
     (if sr_URI s = [] then Inl []
      else if sr_WriterEpoch s = 0 then Inl []
      else if sr_SegmentUUID s = 0 then Inl []
      else if sr_BaseLSN s > sr_LastLSN s then Inl []
      else if sr_LastLSN s > MaxRecordLSN then Inl []
      else let wantRecords = sr_LastLSN s - sr_BaseLSN s + 1
      in if sr_RecordCount s = 0 \<or> ucast (sr_RecordCount s) \<noteq> wantRecords then Inl []
      else if sr_BlockCount s = 0 then Inl []
      else if sr_SizeBytes s = 0 then Inl []
      else if sr_BlockIndexLength s = 0 then Inl []
      else if sint (sr_MinTimestampMS s) > sint (sr_MaxTimestampMS s) then Inl []
      else bindE (Codec_Validate (sr_Codec s)) (\<lambda>_. HashAlgo_Validate (sr_HashAlgo s)))"

definition SegmentRef_NextLSN :: "SegmentRef \<Rightarrow> u64" where
  "SegmentRef_NextLSN s = sr_LastLSN s + 1"

record SegmentPage =
  pg_Segments :: "SegmentRef list"
  pg_NextLSN :: u64
  pg_HasMore :: bool

definition empty_SegmentPage :: SegmentPage where
  "empty_SegmentPage = \<lparr>pg_Segments = [], pg_NextLSN = 0, pg_HasMore = False\<rparr>"


section \<open>Requests\<close>

record TimestampLookupRequest =
  tq_Partition :: u32
  tq_TimestampMS :: i64

record TimestampLookupResult =
  tr_Head :: PartitionHead
  tr_Segment :: SegmentRef
  tr_Found :: bool

record RetentionRequest =
  rq_Version :: u16
  rq_PolicyVersion :: u64
  rq_BeforeLSN :: u64
  rq_CreatedUnixMS :: i64

definition zero_RetentionRequest :: RetentionRequest where
  "zero_RetentionRequest =
     \<lparr>rq_Version = 0, rq_PolicyVersion = 0, rq_BeforeLSN = 0, rq_CreatedUnixMS = 0\<rparr>"

definition RetentionRequest_Validate :: "RetentionRequest \<Rightarrow> unit res" where
  "RetentionRequest_Validate r =
     (if rq_Version r \<noteq> RetentionRequestVersion then Inl [ErrInvalidRequest]
      else if rq_PolicyVersion r = 0 then Inl [ErrInvalidRequest]
      else if sint (rq_CreatedUnixMS r) < 0 then Inl [ErrInvalidRequest]
      else Inr ())"

record RetentionApplyResult =
  ra_Head :: PartitionHead
  ra_Request :: RetentionRequest
  ra_Applied :: bool

text \<open>\<^verbatim>\<open>Limit\<close> is a Go \<^verbatim>\<open>int\<close>, so it may be negative.\<close>

record ListSegmentsRequest =
  ls_Partition :: u32
  ls_FromLSN :: u64
  ls_Limit :: int

definition normalizedLimit :: "ListSegmentsRequest \<Rightarrow> nat" where
  "normalizedLimit r =
     nat (if ls_Limit r \<le> 0 then DefaultSegmentPageLimit
          else if ls_Limit r > MaxSegmentPageLimit then MaxSegmentPageLimit
          else ls_Limit r)"

definition ValidateWriterID :: "bytes16 \<Rightarrow> unit res" where
  "ValidateWriterID writerID = (if writerID = 0 then Inl [ErrInvalidRequest] else Inr ())"

definition ValidateAppendSegment :: "string \<Rightarrow> u32 \<Rightarrow> u64 \<Rightarrow> u64 \<Rightarrow> SegmentRef \<Rightarrow> unit res" where
  "ValidateAppendSegment streamID part expectedNextLSN writerEpoch segment =
     (if streamID \<noteq> sr_StreamID segment then Inl [ErrInvalidRequest]
      else if part \<noteq> sr_Partition segment then Inl [ErrInvalidRequest]
      else if writerEpoch \<noteq> sr_WriterEpoch segment then Inl [ErrInvalidRequest]
      else if expectedNextLSN \<noteq> sr_BaseLSN segment then Inl [ErrConflict]
      else map_err (\<lambda>err. ErrInvalidSegment # err) (SegmentRef_Validate segment))"


section \<open>Segments as intervals of log sequence numbers\<close>

definition seg_lo :: "SegmentRef \<Rightarrow> nat" where "seg_lo s = unat (sr_BaseLSN s)"
definition seg_hi :: "SegmentRef \<Rightarrow> nat" where "seg_hi s = unat (sr_LastLSN s) + 1"

abbreviation seg_ok :: "SegmentRef \<Rightarrow> bool" where
  "seg_ok s \<equiv> SegmentRef_Validate s = Inr ()"

abbreviation seg_tiles :: "u64 \<Rightarrow> SegmentRef list \<Rightarrow> u64 \<Rightarrow> bool" where
  "seg_tiles a segs b \<equiv> tiles seg_lo seg_hi (unat a) segs (unat b)"

lemma seg_okD:
  assumes "seg_ok s"
  shows "sr_BaseLSN s \<le> sr_LastLSN s" "sr_LastLSN s \<le> MaxRecordLSN" "sr_URI s \<noteq> []"
    "sr_WriterEpoch s \<noteq> 0" "sr_SegmentUUID s \<noteq> 0"
    "sint (sr_MinTimestampMS s) \<le> sint (sr_MaxTimestampMS s)"
    "ucast (sr_RecordCount s) = sr_LastLSN s - sr_BaseLSN s + 1" "sr_RecordCount s \<noteq> 0"
  using assms by (auto simp: SegmentRef_Validate_def Let_def split: if_splits)

lemma unat_NextLSN: "seg_ok s \<Longrightarrow> unat (SegmentRef_NextLSN s) = seg_hi s"
  using seg_okD(2)[of s] by (simp add: SegmentRef_NextLSN_def seg_hi_def unat_succ_lsn)

interpretation seg: intervals seg_lo seg_hi seg_ok
  by unfold_locales (auto simp: seg_lo_def seg_hi_def less_Suc_eq_le dest!: seg_okD(1) simp: word_le_nat_alt)

lemma seg_count:
  assumes "seg_ok s"
  shows "unat (sr_RecordCount s) = seg_hi s - seg_lo s"
proof -
  note ok = seg_okD[OF assms]
  have d: "unat (sr_LastLSN s - sr_BaseLSN s) = unat (sr_LastLSN s) - unat (sr_BaseLSN s)"
    using ok(1) by (rule unat_diff_u64)
  have "sr_LastLSN s - sr_BaseLSN s \<le> MaxRecordLSN"
    using ok(2) d by (simp add: word_le_nat_alt)
  then have "unat (ucast (sr_RecordCount s) :: u64) = unat (sr_LastLSN s) - unat (sr_BaseLSN s) + 1"
    unfolding ok(7) by (simp add: unat_succ_lsn d)
  then show ?thesis using ok(1) by (simp add: seg_lo_def seg_hi_def word_le_nat_alt)
qed

text \<open>The comparison the lookups use, read in natural numbers.\<close>

lemma LastLSN_ge_iff: "sr_LastLSN s \<ge> lsn \<longleftrightarrow> unat lsn < seg_hi s"
  by (simp add: seg_hi_def word_le_nat_alt less_Suc_eq_le)

text \<open>Timestamps never decrease along the log.\<close>

definition ts_ordered :: "SegmentRef list \<Rightarrow> bool" where
  "ts_ordered segs \<longleftrightarrow>
     sorted_wrt (\<lambda>x y. sint (sr_MaxTimestampMS x) \<le> sint (sr_MinTimestampMS y)) segs"

lemma ts_ordered_mono:
  assumes "ts_ordered segs" "list_all seg_ok segs"
  shows "sorted_wrt (\<lambda>x y. t \<le> sint (sr_MaxTimestampMS x) \<longrightarrow> t \<le> sint (sr_MaxTimestampMS y)) segs"
proof (rule sorted_wrt_mono_rel[OF _ assms(1)[unfolded ts_ordered_def]])
  fix x y
  assume "y \<in> set segs" "sint (sr_MaxTimestampMS x) \<le> sint (sr_MinTimestampMS y)"
  then show "t \<le> sint (sr_MaxTimestampMS x) \<longrightarrow> t \<le> sint (sr_MaxTimestampMS y)"
    using assms(2) seg_okD(6)[of y] by (auto simp: list_all_iff)
qed

lemma ts_ordered_append:
  "ts_ordered (xs @ ys) \<longleftrightarrow> ts_ordered xs \<and> ts_ordered ys
     \<and> (\<forall>x\<in>set xs. \<forall>y\<in>set ys. sint (sr_MaxTimestampMS x) \<le> sint (sr_MinTimestampMS y))"
  by (simp add: ts_ordered_def sorted_wrt_append)

lemma ts_ordered_snoc:
  assumes "ts_ordered segs" "list_all seg_ok segs"
    and "segs \<noteq> [] \<Longrightarrow> sint (sr_MaxTimestampMS (last segs)) \<le> sint (sr_MinTimestampMS s)"
  shows "ts_ordered (segs @ [s])"
proof -
  have "sint (sr_MaxTimestampMS x) \<le> sint (sr_MinTimestampMS s)" if x: "x \<in> set segs" for x
  proof -
    have ne: "segs \<noteq> []" using x by auto
    obtain ys where ys: "segs = ys @ [last segs]" using ne append_butlast_last_id by metis
    show ?thesis
    proof (cases "x = last segs")
      case False
      then have "x \<in> set ys" using x ys by (metis UnE empty_iff list.set(1) set_ConsD set_append)
      then have "sint (sr_MaxTimestampMS x) \<le> sint (sr_MinTimestampMS (last segs))"
        using assms(1) ys by (metis list.set_intros(1) ts_ordered_append)
      also have "\<dots> \<le> sint (sr_MaxTimestampMS (last segs))"
        using assms(2) ne seg_okD(6)[of "last segs"] by (auto simp: list_all_iff)
      finally show ?thesis using assms(3)[OF ne] by simp
    qed (use assms(3)[OF ne] in simp)
  qed
  with assms(1) show ?thesis by (simp add: ts_ordered_append) (simp add: ts_ordered_def)
qed

lemma normalizedLimit_pos: "0 < normalizedLimit r \<and> normalizedLimit r \<le> 1024"
  by (auto simp: normalizedLimit_def DefaultSegmentPageLimit_def MaxSegmentPageLimit_def)

end
