(* ===== verification/Seg_Reader.thy ===== *)
theory Seg_Reader
  imports Seg_Block Seg_Codec Partition_Meta
begin

text \<open>
  The segment reader (\<^verbatim>\<open>internal/segreader\<close>): opening a segment object by ranged reads or as a
  whole, the check of its body hash, the record scanner, bounded reads and the search by timestamp.
  A segment store is what its \<^verbatim>\<open>ReadAt\<close> returns; segment objects are immutable, so it is a
  function of the range asked for. The context of a call is what its \<^verbatim>\<open>Err\<close> returns while the
  call runs. A streaming hasher is the byte string written to it so far.
\<close>


section \<open>Stores and options\<close>

type_synonym SegmentStore = "ctx \<Rightarrow> string \<Rightarrow> u64 \<Rightarrow> u64 \<Rightarrow> bytes res"

definition readAtExact :: "ctx \<Rightarrow> SegmentStore \<Rightarrow> string \<Rightarrow> u64 \<Rightarrow> u64 \<Rightarrow> bytes res" where
  "readAtExact ctx store uri off n =
     (case ctx of Some err \<Rightarrow> Inl err | None \<Rightarrow>
      if n > 0 \<and> off > MaxUint64 - n then Inl [ErrStoreRead]
      else bindE (map_err (Cons ErrStoreRead) (store ctx uri off n)) (\<lambda>body.
        if of_nat (length body) \<noteq> n then Inl [ErrStoreRead] else Inr body))"

definition DefaultMaxBlockBytes :: u64 where
  "DefaultMaxBlockBytes = of_nat (BlockPreambleSize + MaxStoredBlockSize)"

definition DefaultMaxIndexBytes :: u64 where
  "DefaultMaxIndexBytes = 67108864"

record SegReaderOptions =
  ro_ValidateSegmentHash :: bool
  ro_MaxBlockBytes :: u64
  ro_MaxIndexBytes :: u64

definition SegReader_DefaultOptions :: SegReaderOptions where
  "SegReader_DefaultOptions =
     \<lparr>ro_ValidateSegmentHash = False, ro_MaxBlockBytes = DefaultMaxBlockBytes, ro_MaxIndexBytes = DefaultMaxIndexBytes\<rparr>"

definition SegReader_normalizeOptions :: "SegReaderOptions \<Rightarrow> SegReaderOptions res" where
  "SegReader_normalizeOptions opts =
     (let opts = (if ro_MaxBlockBytes opts = 0 then opts\<lparr>ro_MaxBlockBytes := DefaultMaxBlockBytes\<rparr> else opts)
      in if ro_MaxBlockBytes opts < of_nat BlockPreambleSize then Inl [ReadErrInvalidOptions]
      else let opts = (if ro_MaxIndexBytes opts = 0 then opts\<lparr>ro_MaxIndexBytes := DefaultMaxIndexBytes\<rparr> else opts);
               minIndexBytes = of_nat (IndexPreambleSize + BlockIndexEntrySize)
      in if ro_MaxIndexBytes opts < minIndexBytes then Inl [ReadErrInvalidOptions]
      else Inr opts)"


section \<open>The body hash\<close>

definition segmentHashChunkBytes :: u64 where "segmentHashChunkBytes = 8388608"

definition segmentHasher :: "(bytes \<Rightarrow> u64) \<Rightarrow> HashAlgo \<Rightarrow> (bytes \<Rightarrow> u64) res" where
  "segmentHasher xxh algo =
     (if algo = HashCRC32C then Inr (\<lambda>data. ucast (crc32c data))
      else if algo = HashXXH64 then Inr xxh
      else Inl [])"

lemma chunk_progress:
  assumes "off < (len :: u64)" "chunk \<noteq> 0"
  shows "unat (off + min chunk (len - off)) = unat off + min (unat chunk) (unat len - unat off)"
    "off < off + min chunk (len - off)" "off + min chunk (len - off) \<le> len"
proof -
  have d: "unat (len - off) = unat len - unat off" using assms(1) by (simp add: unat_sub)
  have n: "unat (min chunk (len - off)) = min (unat chunk) (unat len - unat off)"
    using d by (auto simp: min_def word_le_nat_alt)
  have lt: "unat off < unat len" using assms(1) by (simp add: word_less_nat_alt)
  have pos: "0 < unat chunk" using assms(2) by (simp add: unat_gt_0)
  have "unat off + unat (min chunk (len - off)) \<le> unat len" unfolding n using lt by linarith
  then have a: "unat (off + min chunk (len - off)) = unat off + unat (min chunk (len - off))"
    using unat_u64_less[of len] by (simp add: unat_add_u64)
  then show "unat (off + min chunk (len - off)) = unat off + min (unat chunk) (unat len - unat off)"
    by (simp add: n)
  with lt pos show "off < off + min chunk (len - off)" "off + min chunk (len - off) \<le> len"
    unfolding word_less_nat_alt word_le_nat_alt by linarith+
qed

text \<open>The reading loop, with the bytes hashed so far; it returns everything that was hashed.\<close>

function hash_chunks ::
  "ctx \<Rightarrow> SegmentStore \<Rightarrow> string \<Rightarrow> u64 \<Rightarrow> u64 \<Rightarrow> u64 \<Rightarrow> bytes \<Rightarrow> bytes res" where
  "hash_chunks ctx store uri len chunkBytes off written =
     (if off < len \<and> chunkBytes \<noteq> 0 then
        let n = min chunkBytes (len - off)
        in bindE (readAtExact ctx store uri off n) (\<lambda>body.
           hash_chunks ctx store uri len chunkBytes (off + n) (written @ body))
      else Inr written)"
  by pat_completeness auto
termination
proof (relation "measure (\<lambda>(_, _, _, len, _, off, _). unat len - unat off)", simp)
  fix ctx :: ctx and store :: SegmentStore and uri :: string and len chunkBytes off n :: u64 and written body :: bytes
  assume "off < len \<and> chunkBytes \<noteq> 0" "n = min chunkBytes (len - off)"
  then show "((ctx, store, uri, len, chunkBytes, off + n, written @ body),
       (ctx, store, uri, len, chunkBytes, off, written)) \<in> measure (\<lambda>(_, _, _, len, _, off, _). unat len - unat off)"
    using chunk_progress[of off len chunkBytes] by (auto simp: word_less_nat_alt)
qed

declare hash_chunks.simps [simp del]

definition validateSegmentHashChunks ::
  "(bytes \<Rightarrow> u64) \<Rightarrow> ctx \<Rightarrow> SegmentStore \<Rightarrow> string \<Rightarrow> u64 \<Rightarrow> HashAlgo \<Rightarrow> u64 \<Rightarrow> u64 \<Rightarrow> unit res" where
  "validateSegmentHashChunks xxh ctx store uri len algo want chunkBytes =
     (if chunkBytes = 0 then Inl [ReadErrInvalidOptions]
      else bindE (map_err (Cons ErrCorruptData) (segmentHasher xxh algo)) (\<lambda>sum.
      bindE (hash_chunks ctx store uri len chunkBytes 0 []) (\<lambda>written.
      if sum written \<noteq> want then Inl [ErrCorruptData] else Inr ())))"

definition validateSegmentHash ::
  "(bytes \<Rightarrow> u64) \<Rightarrow> ctx \<Rightarrow> SegmentStore \<Rightarrow> string \<Rightarrow> u64 \<Rightarrow> HashAlgo \<Rightarrow> u64 \<Rightarrow> unit res" where
  "validateSegmentHash xxh ctx store uri len algo want =
     validateSegmentHashChunks xxh ctx store uri len algo want segmentHashChunkBytes"


section \<open>Opening\<close>

record SegReader =
  sd_store :: SegmentStore
  sd_ref :: SegmentRef
  sd_opts :: SegReaderOptions
  sd_borrowBlocks :: bool
  sd_preamble :: FilePreamble
  sd_trailer :: SegTrailer
  sd_index :: "BlockIndexEntry list"

definition validateRefTrailer :: "SegmentRef \<Rightarrow> SegTrailer \<Rightarrow> unit res" where
  "validateRefTrailer ref trailer =
     (if sr_Partition ref \<noteq> st_Partition trailer \<or> sr_SegmentUUID ref \<noteq> st_SegmentUUID trailer
        \<or> sr_WriterTag ref \<noteq> st_WriterTag trailer \<or> sr_BaseLSN ref \<noteq> st_BaseLSN trailer
        \<or> sr_LastLSN ref \<noteq> st_LastLSN trailer \<or> sr_MinTimestampMS ref \<noteq> st_MinTimestampMS trailer
        \<or> sr_MaxTimestampMS ref \<noteq> st_MaxTimestampMS trailer \<or> sr_RecordCount ref \<noteq> st_RecordCount trailer
        \<or> sr_BlockCount ref \<noteq> st_BlockCount trailer \<or> sr_SizeBytes ref \<noteq> st_TotalSize trailer
        \<or> sr_BlockIndexOffset ref \<noteq> st_BlockIndexOffset trailer
        \<or> sr_BlockIndexLength ref \<noteq> st_BlockIndexLength trailer \<or> sr_Codec ref \<noteq> st_Codec trailer
        \<or> sr_HashAlgo ref \<noteq> st_HashAlgo trailer \<or> sr_SegmentHash ref \<noteq> st_SegmentHash trailer
        \<or> sr_TrailerHash ref \<noteq> st_TrailerHash trailer
      then Inl [ReadErrInvalidSegment] else Inr ())"

definition validateOpen :: "SegmentStore option \<Rightarrow> SegmentRef \<Rightarrow> SegReaderOptions \<Rightarrow> SegReaderOptions res" where
  "validateOpen store ref opts =
     (if store = None then Inl [ReadErrInvalidOptions]
      else bindE (SegReader_normalizeOptions opts) (\<lambda>normalized.
      bindE (map_err (Cons ReadErrInvalidSegment) (SegmentRef_Validate ref)) (\<lambda>_.
      if sr_SizeBytes ref < of_nat (FilePreambleSize + SegTrailerSize) then Inl [ReadErrInvalidSegment]
      else if ucast (sr_BlockIndexLength ref) > ro_MaxIndexBytes normalized then Inl [ReadErrInvalidSegment]
      else Inr normalized)))"

definition open_segment ::
  "(bytes \<Rightarrow> u64) \<Rightarrow> ctx \<Rightarrow> SegmentStore \<Rightarrow> SegmentRef \<Rightarrow> SegReaderOptions \<Rightarrow> bool \<Rightarrow> SegReader res" where
  "open_segment xxh ctx store ref normalized borrowBlocks =
     (let trailerOff = sr_SizeBytes ref - of_nat SegTrailerSize in
      bindE (readAtExact ctx store (sr_URI ref) trailerOff (of_nat SegTrailerSize)) (\<lambda>trailerBytes.
      bindE (map_err (Cons ErrCorruptData) (ParseTrailer xxh trailerBytes (sr_SizeBytes ref))) (\<lambda>trailer.
      bindE (validateRefTrailer ref trailer) (\<lambda>_.
      bindE (readAtExact ctx store (sr_URI ref) 0 (of_nat FilePreambleSize)) (\<lambda>preambleBytes.
      bindE (map_err (Cons ErrCorruptData) (ParseFilePreamble preambleBytes)) (\<lambda>preamble.
      bindE (map_err (Cons ErrCorruptData) (ValidatePreambleTrailer preamble trailer)) (\<lambda>_.
      bindE (readAtExact ctx store (sr_URI ref) (st_BlockIndexOffset trailer) (ucast (st_BlockIndexLength trailer)))
        (\<lambda>indexBytes.
      bindE (map_err (Cons ErrCorruptData) (ParseBlockIndex xxh indexBytes (st_HashAlgo trailer))) (\<lambda>(_, index).
      bindE (map_err (Cons ErrCorruptData) (ValidateIndex index trailer)) (\<lambda>_.
      bindE (if ro_ValidateSegmentHash normalized then
               let indexEnd = st_BlockIndexOffset trailer + ucast (st_BlockIndexLength trailer)
               in validateSegmentHash xxh ctx store (sr_URI ref) indexEnd (st_HashAlgo trailer) (st_SegmentHash trailer)
             else Inr ()) (\<lambda>_.
      Inr \<lparr>sd_store = store, sd_ref = ref, sd_opts = normalized, sd_borrowBlocks = borrowBlocks,
           sd_preamble = preamble, sd_trailer = trailer, sd_index = index\<rparr>)))))))))))"

definition SegReader_Open ::
  "(bytes \<Rightarrow> u64) \<Rightarrow> ctx \<Rightarrow> SegmentStore option \<Rightarrow> SegmentRef \<Rightarrow> SegReaderOptions \<Rightarrow> SegReader res" where
  "SegReader_Open xxh ctx store ref opts =
     bindE (validateOpen store ref opts) (\<lambda>normalized. open_segment xxh ctx (the store) ref normalized False)"

definition wholeSegmentStore :: "string \<Rightarrow> bytes \<Rightarrow> SegmentStore" where
  "wholeSegmentStore own body ctx uri off n =
     (case ctx of Some err \<Rightarrow> Inl err | None \<Rightarrow>
      if uri \<noteq> own then Inl []
      else if off > of_nat (length body) \<or> n > of_nat (length body) - off then Inl []
      else Inr (subslice (unat off) (unat off + unat n) body))"

definition OpenWhole ::
  "(bytes \<Rightarrow> u64) \<Rightarrow> ctx \<Rightarrow> SegmentStore option \<Rightarrow> SegmentRef \<Rightarrow> SegReaderOptions \<Rightarrow> SegReader res" where
  "OpenWhole xxh ctx store ref opts =
     bindE (validateOpen store ref opts) (\<lambda>normalized.
     bindE (readAtExact ctx (the store) (sr_URI ref) 0 (sr_SizeBytes ref)) (\<lambda>body.
     open_segment xxh ctx (wholeSegmentStore (sr_URI ref) body) ref normalized True))"


section \<open>Scanning\<close>

record ReaderRecord =
  re_Partition :: u32
  re_LSN :: u64
  re_TimestampMS :: i64
  re_Headers :: "Header list"
  re_Value :: bytes

definition openBlockScanner ::
  "(bytes \<Rightarrow> bytes res) \<Rightarrow> (bytes \<Rightarrow> u64) \<Rightarrow> ctx \<Rightarrow> SegReader \<Rightarrow> nat \<Rightarrow> RawBlockScanner res" where
  "openBlockScanner zdec xxh ctx r idx =
     (let entry = sd_index r ! idx;
          len = of_nat BlockPreambleSize + ucast (bi_StoredSize entry)
      in if len > ro_MaxBlockBytes (sd_opts r) then Inl [ReadErrInvalidSegment]
      else bindE (readAtExact ctx (sd_store r) (sr_URI (sd_ref r)) (bi_BlockOffset entry) len) (\<lambda>blockBytes.
      bindE (map_err (Cons ErrCorruptData) (ParseBlockPreamble (take BlockPreambleSize blockBytes))) (\<lambda>blockPreamble.
      bindE (map_err (Cons ErrCorruptData) (MatchBlockIndexEntry blockPreamble entry)) (\<lambda>_.
      let stored = drop BlockPreambleSize blockBytes
      in bindE (map_err (Cons ErrCorruptData)
            (if sd_borrowBlocks r
             then OpenBorrowed zdec xxh (st_Codec (sd_trailer r)) (st_HashAlgo (sd_trailer r)) blockPreamble stored
             else Open zdec xxh (st_Codec (sd_trailer r)) (st_HashAlgo (sd_trailer r)) blockPreamble stored)) (\<lambda>raw.
         map_err (Cons ErrCorruptData) (NewRawBlockScanner raw blockPreamble))))))"

definition blockLastLSN :: "BlockIndexEntry \<Rightarrow> u64" where
  "blockLastLSN entry = bi_BaseLSN entry + ucast (bi_RecordCount entry) - 1"

record SegScanner =
  ss_r :: "SegReader option"
  ss_nextBlock :: nat
  ss_fromLSN :: u64
  ss_block :: RawBlockScanner
  ss_hasBlock :: bool
  ss_closed :: bool

definition zero_RawBlockScanner :: RawBlockScanner where
  "zero_RawBlockScanner =
     \<lparr>sc_raw = [], sc_block = \<lparr>bp_Flags = 0, bp_StoredSize = 0, bp_RawSize = 0, bp_RecordCount = 0, bp_BaseLSN = 0,
        bp_MinTimestampMS = 0, bp_MaxTimestampMS = 0, bp_BlockHash = 0\<rparr>,
      sc_offset = 0, sc_recordIndex = 0, sc_prevTimestampMS = 0\<rparr>"

definition closed_scanner :: SegScanner where
  "closed_scanner = \<lparr>ss_r = None, ss_nextBlock = 0, ss_fromLSN = 0, ss_block = zero_RawBlockScanner,
     ss_hasBlock = False, ss_closed = True\<rparr>"

definition SegReader_Scan :: "ctx \<Rightarrow> SegReader \<Rightarrow> u64 \<Rightarrow> SegScanner res" where
  "SegReader_Scan ctx r fromLSN =
     (case ctx of Some err \<Rightarrow> Inl err | None \<Rightarrow>
      if fromLSN > st_LastLSN (sd_trailer r) then Inr closed_scanner
      else let fromLSN = (if fromLSN < st_BaseLSN (sd_trailer r) then st_BaseLSN (sd_trailer r) else fromLSN);
               block = search_list (\<lambda>e. blockLastLSN e \<ge> fromLSN) (sd_index r)
      in if block \<ge> length (sd_index r) then Inr closed_scanner
      else Inr \<lparr>ss_r = Some r, ss_nextBlock = block, ss_fromLSN = fromLSN, ss_block = zero_RawBlockScanner,
                ss_hasBlock = False, ss_closed = False\<rparr>)"

text \<open>The records a block scanner can still return.\<close>

definition scan_left :: "RawBlockScanner \<Rightarrow> nat" where
  "scan_left s = unat (bp_RecordCount (sc_block s)) - unat (sc_recordIndex s)"

lemma RawBlockScanner_Next_left:
  assumes "RawBlockScanner_Next s = Inr (Some record, s')"
  shows "scan_left s' < scan_left s"
proof -
  have lt: "sc_recordIndex s < bp_RecordCount (sc_block s)"
    and s': "sc_block s' = sc_block s" "sc_recordIndex s' = sc_recordIndex s + 1"
    using assms by (auto simp: RawBlockScanner_Next_def Let_def split: if_splits)
  then have "unat (sc_recordIndex s + 1) = unat (sc_recordIndex s) + 1"
    using unat_u32_less[of "bp_RecordCount (sc_block s)"] by (simp add: word_less_nat_alt unat_word_ariths)
  then show ?thesis using lt s' by (simp add: scan_left_def word_less_nat_alt)
qed

definition blocks_left :: "SegScanner \<Rightarrow> nat" where
  "blocks_left s = (case ss_r s of None \<Rightarrow> 0 | Some r \<Rightarrow> length (sd_index r) - ss_nextBlock s)"

definition to_record :: "SegReader \<Rightarrow> Record \<Rightarrow> ReaderRecord" where
  "to_record r raw = \<lparr>re_Partition = st_Partition (sd_trailer r), re_LSN = rc_LSN raw, re_TimestampMS = rc_TimestampMS raw,
     re_Headers = rc_Headers raw, re_Value = rc_Value raw\<rparr>"

text \<open>The loop of \<^verbatim>\<open>Next\<close> on an open scanner; \<open>None\<close> is the end (\<^verbatim>\<open>false, nil\<close>).\<close>

function next_loop ::
  "(bytes \<Rightarrow> bytes res) \<Rightarrow> (bytes \<Rightarrow> u64) \<Rightarrow> ctx \<Rightarrow> SegReader \<Rightarrow> SegScanner \<Rightarrow> ReaderRecord option res \<times> SegScanner" where
  "next_loop zdec xxh ctx r s =
     (if ss_hasBlock s then
        (case RawBlockScanner_Next (ss_block s) of
           Inl err \<Rightarrow> (Inl (ErrCorruptData # err), s)
         | Inr (Some raw, block) \<Rightarrow>
             let s = s\<lparr>ss_block := block\<rparr>
             in if rc_LSN raw < ss_fromLSN s then next_loop zdec xxh ctx r s
                else (Inr (Some (to_record r raw)), s)
         | Inr (None, block) \<Rightarrow>
             next_loop zdec xxh ctx r (s\<lparr>ss_block := zero_RawBlockScanner, ss_hasBlock := False, ss_fromLSN := 0\<rparr>))
      else if ss_nextBlock s \<ge> length (sd_index r) then (Inr None, s\<lparr>ss_closed := True\<rparr>)
      else (case openBlockScanner zdec xxh ctx r (ss_nextBlock s) of
           Inl err \<Rightarrow> (Inl err, s)
         | Inr block \<Rightarrow>
             next_loop zdec xxh ctx r (s\<lparr>ss_nextBlock := ss_nextBlock s + 1, ss_block := block, ss_hasBlock := True\<rparr>)))"
  by pat_completeness auto
termination
  by (relation "measures [\<lambda>(_, _, _, r, s). length (sd_index r) - ss_nextBlock s,
      \<lambda>(_, _, _, r, s). if ss_hasBlock s then Suc (scan_left (ss_block s)) else 0]")
    (auto dest: RawBlockScanner_Next_left)

declare next_loop.simps [simp del]

definition SegScanner_Next ::
  "(bytes \<Rightarrow> bytes res) \<Rightarrow> (bytes \<Rightarrow> u64) \<Rightarrow> ctx \<Rightarrow> SegScanner \<Rightarrow> ReaderRecord option res \<times> SegScanner" where
  "SegScanner_Next zdec xxh ctx s =
     (if ss_closed s then (Inr None, s)
      else case ctx of Some err \<Rightarrow> (Inl err, s) | None \<Rightarrow>
      (case ss_r s of None \<Rightarrow> (Inl [GoPanic], s) | Some r \<Rightarrow> next_loop zdec xxh ctx r s))"

definition SegScanner_Close :: "SegScanner \<Rightarrow> SegScanner" where
  "SegScanner_Close s = s\<lparr>ss_block := zero_RawBlockScanner, ss_hasBlock := False, ss_closed := True\<rparr>"

text \<open>Every record a scanner returns uses up a block or a record of the open block.\<close>

definition scan_order :: "(SegScanner \<times> SegScanner) set" where
  "scan_order = measures [blocks_left, \<lambda>s. if ss_hasBlock s then Suc (scan_left (ss_block s)) else 0]"

lemma wf_scan_order: "wf scan_order"
  by (simp add: scan_order_def)

lemma scan_order_trans: "(a, b) \<in> scan_order \<Longrightarrow> (b, c) \<in> scan_order \<Longrightarrow> (a, c) \<in> scan_order"
  by (auto simp: scan_order_def)

lemma next_loop_left:
  "next_loop zdec xxh ctx r s = (Inr (Some record), s') \<Longrightarrow> ss_r s = Some r \<Longrightarrow>
     (s', s) \<in> scan_order \<and> ss_r s' = Some r \<and> ss_closed s' = ss_closed s"
proof (induction zdec xxh ctx r s rule: next_loop.induct)
  case (1 zdec xxh ctx r s)
  note IH = 1(1-3) and eq = 1(4) and r = 1(5)
  show ?case
  proof (cases "ss_hasBlock s")
    case True
    show ?thesis
    proof (cases "RawBlockScanner_Next (ss_block s)")
      case (Inl e)
      then show ?thesis using eq True by (simp add: next_loop.simps[of _ _ _ _ s])
    next
      case (Inr p)
      obtain ox bs where p: "p = (ox, bs)" by fastforce
      show ?thesis
      proof (cases ox)
        case None
        let ?s = "s\<lparr>ss_block := zero_RawBlockScanner, ss_hasBlock := False, ss_fromLSN := 0\<rparr>"
        have "next_loop zdec xxh ctx r ?s = (Inr (Some record), s')"
          using eq True Inr p None by (simp add: next_loop.simps[of _ _ _ _ s])
        then have "(s', ?s) \<in> scan_order \<and> ss_r s' = Some r \<and> ss_closed s' = ss_closed s"
          using IH(1)[OF True Inr p[symmetric] None] r by simp
        moreover have "(?s, s) \<in> scan_order" using True r by (simp add: scan_order_def blocks_left_def)
        ultimately show ?thesis using scan_order_trans by blast
      next
        case (Some x)
        let ?s = "s\<lparr>ss_block := bs\<rparr>"
        have less: "(?s, s) \<in> scan_order"
          using True Inr p Some r by (simp add: scan_order_def blocks_left_def RawBlockScanner_Next_left)
        show ?thesis
        proof (cases "rc_LSN x < ss_fromLSN s")
          case lt: True
          have "next_loop zdec xxh ctx r ?s = (Inr (Some record), s')"
            using eq True Inr p Some lt by (simp add: next_loop.simps[of _ _ _ _ s])
          then have "(s', ?s) \<in> scan_order \<and> ss_r s' = Some r \<and> ss_closed s' = ss_closed s"
            using IH(2)[OF True Inr p[symmetric] Some refl] lt r by simp
          then show ?thesis using less scan_order_trans by blast
        next
          case False
          then have "s' = ?s" using eq True Inr p Some by (simp add: next_loop.simps[of _ _ _ _ s])
          then show ?thesis using less r by simp
        qed
      qed
    qed
  next
    case False
    show ?thesis
    proof (cases "ss_nextBlock s < length (sd_index r)")
      case more: True
      then obtain bs where bs: "openBlockScanner zdec xxh ctx r (ss_nextBlock s) = Inr bs"
        using eq False
        by (cases "openBlockScanner zdec xxh ctx r (ss_nextBlock s)") (simp_all add: next_loop.simps[of _ _ _ _ s])
      let ?s = "s\<lparr>ss_nextBlock := ss_nextBlock s + 1, ss_block := bs, ss_hasBlock := True\<rparr>"
      have "next_loop zdec xxh ctx r ?s = (Inr (Some record), s')"
        using eq False more bs by (simp add: next_loop.simps[of _ _ _ _ s])
      then have "(s', ?s) \<in> scan_order \<and> ss_r s' = Some r \<and> ss_closed s' = ss_closed s"
        using IH(3)[OF False _ bs] more r by simp
      moreover have "(?s, s) \<in> scan_order" using more r by (auto simp: scan_order_def blocks_left_def)
      ultimately show ?thesis using scan_order_trans by blast
    qed (use eq False in \<open>simp add: next_loop.simps[of _ _ _ _ s]\<close>)
  qed
qed

lemma SegScanner_Next_left:
  "SegScanner_Next zdec xxh ctx s = (Inr (Some record), s') \<Longrightarrow> (s', s) \<in> scan_order"
  by (auto simp: SegScanner_Next_def dest: next_loop_left split: if_splits option.splits)

text \<open>The loop of \<^verbatim>\<open>Read\<close> with the records read so far.\<close>

function read_loop ::
  "(bytes \<Rightarrow> bytes res) \<Rightarrow> (bytes \<Rightarrow> u64) \<Rightarrow> ctx \<Rightarrow> int \<Rightarrow> SegScanner \<Rightarrow> ReaderRecord list \<Rightarrow> ReaderRecord list res" where
  "read_loop zdec xxh ctx limit s out =
     (if limit \<le> 0 \<or> int (length out) < limit then
        (case SegScanner_Next zdec xxh ctx s of
           (Inl err, s) \<Rightarrow> Inl err
         | (Inr None, s) \<Rightarrow> Inr out
         | (Inr (Some record), s) \<Rightarrow> read_loop zdec xxh ctx limit s (out @ [record]))
      else Inr out)"
  by pat_completeness auto
termination
  by (relation "inv_image scan_order (\<lambda>(_, _, _, _, s, _). s)")
    (auto simp: wf_scan_order dest: SegScanner_Next_left[OF sym])

declare read_loop.simps [simp del]

definition SegReader_Read ::
  "(bytes \<Rightarrow> bytes res) \<Rightarrow> (bytes \<Rightarrow> u64) \<Rightarrow> ctx \<Rightarrow> SegReader \<Rightarrow> u64 \<Rightarrow> int \<Rightarrow> ReaderRecord list res" where
  "SegReader_Read zdec xxh ctx r fromLSN limit =
     bindE (SegReader_Scan ctx r fromLSN) (\<lambda>scanner. read_loop zdec xxh ctx limit scanner [])"


section \<open>Search by timestamp\<close>

text \<open>The scan of the candidate block; \<open>None\<close> is its end.\<close>

function find_ts :: "ctx \<Rightarrow> i64 \<Rightarrow> RawBlockScanner \<Rightarrow> u64 option res" where
  "find_ts ctx timestampMS scanner =
     (case ctx of Some err \<Rightarrow> Inl err | None \<Rightarrow>
      (case RawBlockScanner_Next scanner of
         Inl err \<Rightarrow> Inl (ErrCorruptData # err)
       | Inr (None, scanner) \<Rightarrow> Inr None
       | Inr (Some record, scanner) \<Rightarrow>
           if sint (rc_TimestampMS record) \<ge> sint timestampMS then Inr (Some (rc_LSN record))
           else find_ts ctx timestampMS scanner))"
  by pat_completeness auto
termination
  by (relation "measure (\<lambda>(_, _, s). scan_left s)") (auto dest: RawBlockScanner_Next_left)

declare find_ts.simps [simp del]

function find_block ::
  "(bytes \<Rightarrow> bytes res) \<Rightarrow> (bytes \<Rightarrow> u64) \<Rightarrow> ctx \<Rightarrow> SegReader \<Rightarrow> i64 \<Rightarrow> nat \<Rightarrow> u64 option res" where
  "find_block zdec xxh ctx r timestampMS block =
     (if block < length (sd_index r) then
        let entry = sd_index r ! block
        in if sint timestampMS \<le> sint (bi_MinTimestampMS entry) then Inr (Some (bi_BaseLSN entry))
        else if sint timestampMS > sint (bi_MaxTimestampMS entry)
          then find_block zdec xxh ctx r timestampMS (block + 1)
        else bindE (openBlockScanner zdec xxh ctx r block) (\<lambda>scanner.
             bindE (find_ts ctx timestampMS scanner) (\<lambda>found.
             case found of Some lsn \<Rightarrow> Inr (Some lsn) | None \<Rightarrow> Inl [ErrCorruptData]))
      else Inr None)"
  by pat_completeness auto
termination
  by (relation "measure (\<lambda>(_, _, _, r, _, block). length (sd_index r) - block)") auto

declare find_block.simps [simp del]

definition FindLSNByTimestamp ::
  "(bytes \<Rightarrow> bytes res) \<Rightarrow> (bytes \<Rightarrow> u64) \<Rightarrow> ctx \<Rightarrow> SegReader \<Rightarrow> i64 \<Rightarrow> u64 option res" where
  "FindLSNByTimestamp zdec xxh ctx r timestampMS =
     (case ctx of Some err \<Rightarrow> Inl err | None \<Rightarrow>
      if sint timestampMS > sint (st_MaxTimestampMS (sd_trailer r)) then Inr None
      else if sint timestampMS \<le> sint (st_MinTimestampMS (sd_trailer r)) then Inr (Some (st_BaseLSN (sd_trailer r)))
      else let block = search_list (\<lambda>e. sint (bi_MaxTimestampMS e) \<ge> sint timestampMS) (sd_index r)
      in if block \<ge> length (sd_index r) then Inr None
      else find_block zdec xxh ctx r timestampMS block)"

end
