(* ===== verification/Seg_Reader_Spec.thy ===== *)
theory Seg_Reader_Spec
  imports Seg_Reader
begin

text \<open>
  What the segment reader returns (\<^verbatim>\<open>internal/segreader\<close>). The records an opened segment yields
  from a block on, up to its end or its first error, are written down once as a list
  (\<open>seg_stream\<close>); the scanner and the bounded read are shown to return prefixes of it. On top
  of this: a read returns exactly the numbers asked for or an error, whatever the store holds, and
  reading an object by ranges or as a whole is the same.
\<close>


section \<open>The records of a block\<close>

function drain :: "RawBlockScanner \<Rightarrow> Record list \<times> goerr option" where
  "drain s =
     (case RawBlockScanner_Next s of
        Inl e \<Rightarrow> ([], Some e)
      | Inr (None, _) \<Rightarrow> ([], None)
      | Inr (Some x, s') \<Rightarrow> let (xs, t) = drain s' in (x # xs, t))"
  by pat_completeness auto
termination
  by (relation "measure scan_left") (auto dest: RawBlockScanner_Next_left)

declare drain.simps [simp del]

lemma drain_simps:
  "RawBlockScanner_Next s = Inl e \<Longrightarrow> drain s = ([], Some e)"
  "RawBlockScanner_Next s = Inr (None, s') \<Longrightarrow> drain s = ([], None)"
  "RawBlockScanner_Next s = Inr (Some x, s') \<Longrightarrow> drain s = (x # fst (drain s'), snd (drain s'))"
  by (simp_all add: drain.simps[of s] split: prod.splits)

lemma scan_all_drain: "scan_all fuel s = Some (Inr recs) \<Longrightarrow> drain s = (recs, None)"
proof (induction fuel arbitrary: s recs)
  case (Suc fuel)
  then show ?case by (auto simp: drain_simps split: sum.splits prod.splits option.splits)
qed simp

lemma drain_decode:
  assumes "NewRawBlockScanner raw block = Inr s" "DecodeRawBlock raw block = Inr recs"
  shows "drain s = (recs, None)"
proof -
  have s: "s = \<lparr>sc_raw = raw, sc_block = block, sc_offset = 0, sc_recordIndex = 0, sc_prevTimestampMS = 0\<rparr>"
    and v: "validateRawBlockEnvelope raw block = Inr ()"
    using assms(1) by (auto simp: NewRawBlockScanner_def)
  have "scan_all (unat (bp_RecordCount block) + 1) s = Some (DecodeRawBlock raw block)"
    using scan_all_loop[of 0 "unat (bp_RecordCount block)" block raw 0 0] v
    by (simp add: s DecodeRawBlock_def finish_def del: scan_all.simps DecodeRawBlock_loop.simps)
  then show ?thesis unfolding assms(2) by (rule scan_all_drain)
qed

text \<open>The records of a block carry consecutive numbers and timestamps that do not decrease.\<close>

abbreviation lsn_of :: "Record \<Rightarrow> nat" where "lsn_of x \<equiv> unat (rc_LSN x)"

abbreviation time_of :: "Record \<Rightarrow> int" where "time_of x \<equiv> sint (rc_TimestampMS x)"

definition scanner_ok :: "RawBlockScanner \<Rightarrow> bool" where
  "scanner_ok s \<longleftrightarrow> sc_recordIndex s \<le> bp_RecordCount (sc_block s)
     \<and> unat (bp_BaseLSN (sc_block s)) + unat (bp_RecordCount (sc_block s)) < 18446744073709551616"

definition next_lsn :: "RawBlockScanner \<Rightarrow> nat" where
  "next_lsn s = unat (bp_BaseLSN (sc_block s)) + unat (sc_recordIndex s)"

lemma Next_Some:
  assumes "scanner_ok s" "RawBlockScanner_Next s = Inr (Some x, s')"
  shows "scanner_ok s'" "lsn_of x = next_lsn s" "next_lsn s' = Suc (next_lsn s)" "sc_block s' = sc_block s"
    "scan_left s = Suc (scan_left s')" "rc_TimestampMS x = sc_prevTimestampMS s'"
    "0 < sc_recordIndex s \<longrightarrow> sint (sc_prevTimestampMS s) \<le> time_of x"
    "sint (bp_MinTimestampMS (sc_block s)) \<le> time_of x" "time_of x \<le> sint (bp_MaxTimestampMS (sc_block s))"
    "0 < sc_recordIndex s'"
proof -
  have lt: "sc_recordIndex s < bp_RecordCount (sc_block s)"
    and s': "sc_block s' = sc_block s" "sc_recordIndex s' = sc_recordIndex s + 1"
    and lsn: "rc_LSN x = bp_BaseLSN (sc_block s) + ucast (sc_recordIndex s)"
    and ts: "rc_TimestampMS x = sc_prevTimestampMS s'"
    using assms(2) by (auto simp: RawBlockScanner_Next_fits stamp_def split: if_splits)
  show "0 < sc_recordIndex s \<longrightarrow> sint (sc_prevTimestampMS s) \<le> time_of x"
    "sint (bp_MinTimestampMS (sc_block s)) \<le> time_of x" "time_of x \<le> sint (bp_MaxTimestampMS (sc_block s))"
    using assms(2) by (auto simp: RawBlockScanner_Next_fits stamp_def ts_fits_def split: if_splits)
  have i: "unat (sc_recordIndex s + 1) = unat (sc_recordIndex s) + 1"
    using lt unat_u32_less[of "bp_RecordCount (sc_block s)"] by (simp add: word_less_nat_alt unat_word_ariths)
  show "scanner_ok s'" using assms(1) lt by (simp add: scanner_ok_def s' i word_le_nat_alt word_less_nat_alt)
  show "lsn_of x = next_lsn s"
    using assms(1) lt by (simp add: lsn next_lsn_def scanner_ok_def unat_add_u64 word_less_nat_alt)
  show "next_lsn s' = Suc (next_lsn s)" by (simp add: next_lsn_def s' i)
  show "scan_left s = Suc (scan_left s')" using lt by (simp add: scan_left_def s' i word_less_nat_alt)
  show "sc_block s' = sc_block s" "rc_TimestampMS x = sc_prevTimestampMS s'" by (simp_all add: s' ts)
  show "0 < sc_recordIndex s'" using i by (simp add: s' word_less_nat_alt)
qed

lemma drain_lsns:
  "scanner_ok s \<Longrightarrow> map lsn_of (fst (drain s)) = [next_lsn s..<next_lsn s + length (fst (drain s))]
     \<and> length (fst (drain s)) \<le> scan_left s \<and> (snd (drain s) = None \<longrightarrow> length (fst (drain s)) = scan_left s)"
proof (induction s rule: drain.induct)
  case (1 s)
  show ?case
  proof (cases "RawBlockScanner_Next s")
    case (Inl e)
    then show ?thesis by (simp add: drain_simps)
  next
    case (Inr p)
    obtain ox s' where p: "p = (ox, s')" by fastforce
    show ?thesis
    proof (cases ox)
      case None
      then have "scan_left s = 0"
        using Inr p by (auto simp: RawBlockScanner_Next_fits scan_left_def word_le_nat_alt split: if_splits)
      then show ?thesis using Inr p None by (simp add: drain_simps)
    next
      case (Some x)
      have nx: "RawBlockScanner_Next s = Inr (Some x, s')" using Inr p Some by simp
      note N = Next_Some[OF 1(2) nx]
      note IH = 1(1)[OF Inr p[symmetric] Some N(1)]
      have "[next_lsn s..<next_lsn s + Suc n] = next_lsn s # [Suc (next_lsn s)..<Suc (next_lsn s) + n]" for n
        by (simp add: upt_rec)
      then show ?thesis using IH N(2,3,5) by (simp add: drain_simps(3)[OF nx] del: upt_Suc)
    qed
  qed
qed

lemma drain_times:
  "scanner_ok s \<Longrightarrow> sorted (map time_of (fst (drain s)))
     \<and> (\<forall>x\<in>set (fst (drain s)). (0 < sc_recordIndex s \<longrightarrow> sint (sc_prevTimestampMS s) \<le> time_of x)
          \<and> sint (bp_MinTimestampMS (sc_block s)) \<le> time_of x \<and> time_of x \<le> sint (bp_MaxTimestampMS (sc_block s)))"
proof (induction s rule: drain.induct)
  case (1 s)
  show ?case
  proof (cases "\<exists>x s'. RawBlockScanner_Next s = Inr (Some x, s')")
    case True
    then obtain x s' where nx: "RawBlockScanner_Next s = Inr (Some x, s')" by blast
    note N = Next_Some[OF 1(2) nx]
    note IH = 1(1)[OF nx refl refl N(1)]
    show ?thesis using IH N(4,6-10) by (auto simp: drain_simps(3)[OF nx] intro: order_trans)
  next
    case False
    then have "fst (drain s) = []"
      by (cases "RawBlockScanner_Next s") (auto simp: drain.simps[of s] split: option.splits)
    then show ?thesis by simp
  qed
qed


section \<open>The records of a segment\<close>

text \<open>
  \<^term>\<open>seg_stream zdec xxh r f k\<close> is what the scanner of \<open>r\<close> returns from block \<open>k\<close> on, where
  numbers below \<open>f\<close> are skipped in that block: the records, and the error that ends them, if any.
\<close>

definition then_stream :: "u64 \<Rightarrow> Record list \<times> goerr option \<Rightarrow> Record list \<times> goerr option \<Rightarrow> Record list \<times> goerr option" where
  "then_stream f d rest =
     (let ys = filter (\<lambda>x. f \<le> rc_LSN x) (fst d)
      in case snd d of Some e \<Rightarrow> (ys, Some (ErrCorruptData # e)) | None \<Rightarrow> (ys @ fst rest, snd rest))"

function seg_stream ::
  "(bytes \<Rightarrow> bytes res) \<Rightarrow> (bytes \<Rightarrow> u64) \<Rightarrow> SegReader \<Rightarrow> u64 \<Rightarrow> nat \<Rightarrow> Record list \<times> goerr option" where
  "seg_stream zdec xxh r f k =
     (if k < length (sd_index r) then
        (case openBlockScanner zdec xxh None r k of
           Inl e \<Rightarrow> ([], Some e)
         | Inr bs \<Rightarrow> then_stream f (drain bs) (seg_stream zdec xxh r 0 (k + 1)))
      else ([], None))"
  by pat_completeness auto
termination
  by (relation "measure (\<lambda>(_, _, r, _, k). length (sd_index r) - k)") auto

declare seg_stream.simps [simp del]

definition scanner_stream ::
  "(bytes \<Rightarrow> bytes res) \<Rightarrow> (bytes \<Rightarrow> u64) \<Rightarrow> SegReader \<Rightarrow> SegScanner \<Rightarrow> Record list \<times> goerr option" where
  "scanner_stream zdec xxh r s =
     (if ss_hasBlock s
      then then_stream (ss_fromLSN s) (drain (ss_block s)) (seg_stream zdec xxh r 0 (ss_nextBlock s))
      else seg_stream zdec xxh r (ss_fromLSN s) (ss_nextBlock s))"

text \<open>One call of \<^verbatim>\<open>Next\<close> returns the first element of the stream and leaves the others.\<close>

definition returns_next ::
  "(bytes \<Rightarrow> bytes res) \<Rightarrow> (bytes \<Rightarrow> u64) \<Rightarrow> SegReader \<Rightarrow> SegScanner \<Rightarrow> ReaderRecord option res \<times> SegScanner \<Rightarrow> bool" where
  "returns_next zdec xxh r s res \<longleftrightarrow>
     (case scanner_stream zdec xxh r s of
        ([], None) \<Rightarrow> fst res = Inr None
      | ([], Some e) \<Rightarrow> fst res = Inl e
      | (x # xs, t) \<Rightarrow> fst res = Inr (Some (to_record r x)) \<and> scanner_stream zdec xxh r (snd res) = (xs, t)
           \<and> ss_r (snd res) = ss_r s \<and> ss_closed (snd res) = ss_closed s)"

lemma returns_next_cong:
  "returns_next zdec xxh r s' res \<Longrightarrow> scanner_stream zdec xxh r s' = scanner_stream zdec xxh r s \<Longrightarrow>
     ss_r s' = ss_r s \<Longrightarrow> ss_closed s' = ss_closed s \<Longrightarrow> returns_next zdec xxh r s res"
  by (auto simp: returns_next_def split: prod.splits list.splits option.splits)

lemma next_loop_stream: "returns_next zdec xxh r s (next_loop zdec xxh None r s)"
proof (induction zdec xxh "None :: ctx" r s rule: next_loop.induct)
  case (1 zdec xxh r s)
  note IH = 1
  show ?case
  proof (cases "ss_hasBlock s")
    case True
    show ?thesis
    proof (cases "RawBlockScanner_Next (ss_block s)")
      case (Inl e)
      then have "next_loop zdec xxh None r s = (Inl (ErrCorruptData # e), s)"
        using True by (simp add: next_loop.simps[of _ _ _ _ s])
      then show ?thesis
        using True Inl by (simp add: returns_next_def scanner_stream_def drain_simps then_stream_def)
    next
      case (Inr p)
      obtain ox bs where p: "p = (ox, bs)" by fastforce
      show ?thesis
      proof (cases ox)
        case None
        let ?s = "s\<lparr>ss_block := zero_RawBlockScanner, ss_hasBlock := False, ss_fromLSN := 0\<rparr>"
        have "next_loop zdec xxh None r s = next_loop zdec xxh None r ?s"
          using True Inr p None by (simp add: next_loop.simps[of _ _ _ _ s])
        moreover have "scanner_stream zdec xxh r ?s = scanner_stream zdec xxh r s"
          using True Inr p None by (simp add: scanner_stream_def drain_simps(2) then_stream_def)
        ultimately show ?thesis
          using returns_next_cong[OF IH(1)[OF True Inr p[symmetric] None]] by simp
      next
        case (Some x)
        let ?s = "s\<lparr>ss_block := bs\<rparr>"
        have d: "drain (ss_block s) = (x # fst (drain bs), snd (drain bs))"
          using Inr p Some by (intro drain_simps(3)) simp
        show ?thesis
        proof (cases "rc_LSN x < ss_fromLSN s")
          case lt: True
          have "next_loop zdec xxh None r s = next_loop zdec xxh None r ?s"
            using True Inr p Some lt by (simp add: next_loop.simps[of _ _ _ _ s])
          moreover have "scanner_stream zdec xxh r ?s = scanner_stream zdec xxh r s"
            using True leD[of "ss_fromLSN s" "rc_LSN x"] lt by (auto simp: scanner_stream_def d then_stream_def)
          ultimately show ?thesis
            using returns_next_cong[OF IH(2)[OF True Inr p[symmetric] Some refl]] lt by simp
        next
          case False
          then have "next_loop zdec xxh None r s = (Inr (Some (to_record r x)), ?s)"
            using True Inr p Some by (simp add: next_loop.simps[of _ _ _ _ s])
          moreover have "scanner_stream zdec xxh r s
              = (x # fst (scanner_stream zdec xxh r ?s), snd (scanner_stream zdec xxh r ?s))"
            using True False by (auto simp: scanner_stream_def d then_stream_def Let_def split: option.splits)
          ultimately show ?thesis by (simp add: returns_next_def)
        qed
      qed
    qed
  next
    case False
    show ?thesis
    proof (cases "ss_nextBlock s < length (sd_index r)")
      case more: True
      show ?thesis
      proof (cases "openBlockScanner zdec xxh None r (ss_nextBlock s)")
        case (Inl e)
        then have "next_loop zdec xxh None r s = (Inl e, s)"
          using False more by (simp add: next_loop.simps[of _ _ _ _ s])
        then show ?thesis
          using False more Inl
          by (simp add: returns_next_def scanner_stream_def seg_stream.simps[of _ _ _ _ "ss_nextBlock s"])
      next
        case (Inr bs)
        let ?s = "s\<lparr>ss_nextBlock := ss_nextBlock s + 1, ss_block := bs, ss_hasBlock := True\<rparr>"
        have "next_loop zdec xxh None r s = next_loop zdec xxh None r ?s"
          using False more Inr by (simp add: next_loop.simps[of _ _ _ _ s])
        moreover have "scanner_stream zdec xxh r ?s = scanner_stream zdec xxh r s"
          using False more Inr by (simp add: scanner_stream_def seg_stream.simps[of _ _ _ _ "ss_nextBlock s"])
        ultimately show ?thesis
          using returns_next_cong[OF IH(3)[OF False _ Inr]] more by simp
      qed
    next
      case none: False
      then have "next_loop zdec xxh None r s = (Inr None, s\<lparr>ss_closed := True\<rparr>)"
        using False by (simp add: next_loop.simps[of _ _ _ _ s])
      then show ?thesis
        using False none
        by (simp add: returns_next_def scanner_stream_def seg_stream.simps[of _ _ _ _ "ss_nextBlock s"])
    qed
  qed
qed

text \<open>A bounded read returns a prefix of the stream, or its error when it gets there.\<close>

definition take_stream :: "int \<Rightarrow> nat \<Rightarrow> 'a list \<times> goerr option \<Rightarrow> 'a list res" where
  "take_stream limit n st =
     (if 0 < limit \<and> limit \<le> int n + int (length (fst st)) then Inr (take (nat limit - n) (fst st))
      else case snd st of Some e \<Rightarrow> Inl e | None \<Rightarrow> Inr (fst st))"

lemma read_loop_stream:
  assumes "ss_r s = Some r" "\<not> ss_closed s" "scanner_stream zdec xxh r s = (xs, t)"
  shows "read_loop zdec xxh None limit s out
    = bindE (take_stream limit (length out) (xs, t)) (\<lambda>ys. Inr (out @ map (to_record r) ys))"
  using assms
proof (induction xs arbitrary: s out)
  case Nil
  have nx: "fst (SegScanner_Next zdec xxh None s) = (case t of None \<Rightarrow> Inr None | Some e \<Rightarrow> Inl e)"
    using next_loop_stream[of zdec xxh r s] Nil
    by (simp add: SegScanner_Next_def returns_next_def split: option.splits)
  show ?case
    by (cases "SegScanner_Next zdec xxh None s"; cases t)
      (use nx in \<open>auto simp: read_loop.simps[of _ _ _ _ s] take_stream_def\<close>)
next
  case (Cons x xs)
  obtain s' where nx: "SegScanner_Next zdec xxh None s = (Inr (Some (to_record r x)), s')"
    and s': "scanner_stream zdec xxh r s' = (xs, t)" "ss_r s' = Some r" "\<not> ss_closed s'"
    using next_loop_stream[of zdec xxh r s] Cons.prems
    by (cases "next_loop zdec xxh None r s") (auto simp: SegScanner_Next_def returns_next_def)
  show ?case
  proof (cases "limit \<le> 0 \<or> int (length out) < limit")
    case True
    then have "nat limit - length out = Suc (nat limit - Suc (length out))" if "0 < limit" using that by auto
    with True show ?thesis
      using Cons.IH[OF s'(2,3,1)] nx
      by (auto simp: read_loop.simps[of _ _ _ _ s] take_stream_def split: option.splits)
  next
    case False
    then have "0 < limit" "limit \<le> int (length out)" by auto
    then show ?thesis by (simp add: read_loop.simps[of _ _ _ _ s] take_stream_def nat_le_iff)
  qed
qed


section \<open>Opened segments\<close>

definition reader_ok :: "SegReader \<Rightarrow> bool" where
  "reader_ok r \<longleftrightarrow> ValidateIndex (sd_index r) (sd_trailer r) = Inr ()"

lemma open_segment_Inr:
  assumes "open_segment xxh ctx store ref opts borrow = Inr r"
  shows "reader_ok r" "validateRefTrailer ref (sd_trailer r) = Inr ()" "SegTrailer_Validate (sd_trailer r) (sr_SizeBytes ref) = Inr ()"
    "sd_store r = store" "sd_ref r = ref" "sd_opts r = opts" "sd_borrowBlocks r = borrow"
  using assms
  by (auto simp: open_segment_def reader_ok_def Let_def ParseTrailer_def split: if_splits prod.splits)

lemma reader_okD:
  assumes "reader_ok r"
  shows "list_all entry_ok (sd_index r)"
    "tiles block_lo block_hi (unat (st_BaseLSN (sd_trailer r))) (sd_index r) (unat (st_LastLSN (sd_trailer r)) + 1)"
    "sorted_wrt (\<lambda>x y. sint (bi_MaxTimestampMS x) \<le> sint (bi_MinTimestampMS y)) (sd_index r)"
    "sd_index r \<noteq> []" "st_LastLSN (sd_trailer r) \<le> MaxRecordLSN"
  using ValidateIndex_sound[OF assms[unfolded reader_ok_def]] assms
  by (auto simp: reader_ok_def ValidateIndex_def)

lemma block_hi_bound:
  assumes "reader_ok r" "k < length (sd_index r)"
  shows "unat (st_BaseLSN (sd_trailer r)) \<le> block_lo (sd_index r ! k)" "block_lo (sd_index r ! k) < block_hi (sd_index r ! k)"
    "block_hi (sd_index r ! k) \<le> unat (st_LastLSN (sd_trailer r)) + 1" "block_hi (sd_index r ! k) < 18446744073709551616"
  using blk.tiles_bounds[OF reader_okD(2,1)[OF assms(1)] nth_mem[OF assms(2)]] reader_okD(5)[OF assms(1)]
  by (auto simp: word_le_nat_alt)

lemma unat_blockLastLSN:
  assumes "reader_ok r" "k < length (sd_index r)"
  shows "Suc (unat (blockLastLSN (sd_index r ! k))) = block_hi (sd_index r ! k)"
proof -
  let ?e = "sd_index r ! k"
  note B = block_hi_bound[OF assms]
  have "unat (bi_BaseLSN ?e + ucast (bi_RecordCount ?e)) = block_hi ?e"
    using B(4) by (simp add: block_hi_def unat_add_u64)
  moreover have "0 < block_hi ?e" using B(2) by simp
  moreover have "0 < unat w \<Longrightarrow> Suc (unat (w - 1)) = unat w" for w :: u64
    using unat_minus_one[of w] unat_gt_0[of w] by simp
  ultimately show ?thesis unfolding blockLastLSN_def by metis
qed

lemma openBlockScanner_Inr:
  assumes "reader_ok r" "k < length (sd_index r)" "openBlockScanner zdec xxh ctx r k = Inr bs"
  shows "scanner_ok bs" "next_lsn bs = block_lo (sd_index r ! k)"
    "next_lsn bs + scan_left bs = block_hi (sd_index r ! k)"
    "bp_MinTimestampMS (sc_block bs) = bi_MinTimestampMS (sd_index r ! k)"
    "bp_MaxTimestampMS (sc_block bs) = bi_MaxTimestampMS (sd_index r ! k)"
proof -
  obtain p raw where m: "MatchBlockIndexEntry p (sd_index r ! k) = Inr ()" and bs: "NewRawBlockScanner raw p = Inr bs"
    using assms(3) by (auto simp: openBlockScanner_def Let_def split: if_splits)
  have b: "sc_block bs = p" "sc_recordIndex bs = 0" using bs by (auto simp: NewRawBlockScanner_def)
  have e: "bp_RecordCount p = bi_RecordCount (sd_index r ! k)" "bp_BaseLSN p = bi_BaseLSN (sd_index r ! k)"
    "bp_MinTimestampMS p = bi_MinTimestampMS (sd_index r ! k)" "bp_MaxTimestampMS p = bi_MaxTimestampMS (sd_index r ! k)"
    using m by (auto simp: MatchBlockIndexEntry_def split: if_splits)
  show "scanner_ok bs" using block_hi_bound(4)[OF assms(1,2)] by (simp add: scanner_ok_def b e block_hi_def)
  show "next_lsn bs = block_lo (sd_index r ! k)" by (simp add: next_lsn_def b e block_lo_def)
  show "next_lsn bs + scan_left bs = block_hi (sd_index r ! k)"
    by (simp add: next_lsn_def scan_left_def b e block_hi_def)
  show "bp_MinTimestampMS (sc_block bs) = bi_MinTimestampMS (sd_index r ! k)"
    "bp_MaxTimestampMS (sc_block bs) = bi_MaxTimestampMS (sd_index r ! k)"
    by (simp_all add: b e)
qed

text \<open>The first number a scanner positioned at block \<open>k\<close> returns.\<close>

definition start_at :: "SegReader \<Rightarrow> u64 \<Rightarrow> nat \<Rightarrow> nat" where
  "start_at r f k = (if k < length (sd_index r) then max (unat f) (block_lo (sd_index r ! k))
     else unat (st_LastLSN (sd_trailer r)) + 1)"

lemma filter_upt: "map g xs = [a..<b] \<Longrightarrow> map g (filter (\<lambda>x. c \<le> g x) xs) = [max a c..<b]"
proof -
  assume eq: "map g xs = [a..<b]"
  have "map g (filter (\<lambda>x. c \<le> g x) xs) = filter (\<lambda>n. c \<le> n) (map g xs)" by (simp add: filter_map o_def)
  also have "\<dots> = [max a c..<b]" unfolding eq
  proof (induction b)
    case (Suc b)
    then show ?case by (auto simp: max_def)
  qed simp
  finally show ?thesis .
qed

lemma start_at_Suc:
  assumes "reader_ok r" "k < length (sd_index r)"
  shows "start_at r 0 (Suc k) = block_hi (sd_index r ! k)"
proof (cases "Suc k < length (sd_index r)")
  case True
  then show ?thesis using tiles_nth[OF reader_okD(2)[OF assms(1)] True] by (simp add: start_at_def)
next
  case False
  then have "last (sd_index r) = sd_index r ! k" using assms(2) by (subst last_conv_nth) (auto simp: le_Suc_eq not_less)
  then show ?thesis
    using False tiles_last[OF reader_okD(2)[OF assms(1)] reader_okD(4)[OF assms(1)]] by (simp add: start_at_def)
qed

lemma upt_join: "a \<le> b \<Longrightarrow> b \<le> c \<Longrightarrow> [a..<b] @ [b..<c] = [a..<c]"
  by (metis le_iff_add upt_add_eq_append)

lemma seg_stream_lsns:
  assumes "reader_ok r" "k < length (sd_index r) \<longrightarrow> unat f < block_hi (sd_index r ! k)"
  shows "\<exists>n. map lsn_of (fst (seg_stream zdec xxh r f k)) = [start_at r f k..<n] \<and> n \<le> unat (st_LastLSN (sd_trailer r)) + 1
    \<and> (snd (seg_stream zdec xxh r f k) = None \<longrightarrow> n = unat (st_LastLSN (sd_trailer r)) + 1)"
  using assms
proof (induction zdec xxh r f k rule: seg_stream.induct)
  case (1 zdec xxh r f k)
  let ?top = "unat (st_LastLSN (sd_trailer r)) + 1"
  show ?case
  proof (cases "k < length (sd_index r)")
    case k: True
    note B = block_hi_bound[OF 1(2) k]
    show ?thesis
    proof (cases "openBlockScanner zdec xxh None r k")
      case (Inl e)
      then have "seg_stream zdec xxh r f k = ([], Some e)" using k by (simp add: seg_stream.simps[of _ _ _ _ k])
      then show ?thesis by (auto intro!: exI[of _ 0])
    next
      case (Inr bs)
      note O = openBlockScanner_Inr[OF 1(2) k Inr]
      define xs where "xs = fst (drain bs)"
      have xs: "map lsn_of xs = [block_lo (sd_index r ! k)..<block_lo (sd_index r ! k) + length xs]"
        "block_lo (sd_index r ! k) + length xs \<le> block_hi (sd_index r ! k)"
        "snd (drain bs) = None \<Longrightarrow> block_lo (sd_index r ! k) + length xs = block_hi (sd_index r ! k)"
        using drain_lsns[OF O(1)] O(2,3) by (auto simp: xs_def)
      have "map lsn_of (filter (\<lambda>x. unat f \<le> lsn_of x) xs)
          = [max (block_lo (sd_index r ! k)) (unat f)..<block_lo (sd_index r ! k) + length xs]"
        by (rule filter_upt[OF xs(1)])
      then have ys: "map lsn_of (filter (\<lambda>x. f \<le> rc_LSN x) xs) = [start_at r f k..<block_lo (sd_index r ! k) + length xs]"
        using k by (simp add: start_at_def word_le_nat_alt max.commute)
      have st: "seg_stream zdec xxh r f k = then_stream f (drain bs) (seg_stream zdec xxh r 0 (k + 1))"
        using k Inr by (simp add: seg_stream.simps[of _ _ _ _ k])
      show ?thesis
      proof (cases "snd (drain bs)")
        case (Some e)
        then have "seg_stream zdec xxh r f k = (filter (\<lambda>x. f \<le> rc_LSN x) xs, Some (ErrCorruptData # e))"
          by (simp add: st then_stream_def xs_def)
        then show ?thesis
          using ys xs(2) B(3) by (intro exI[of _ "block_lo (sd_index r ! k) + length xs"]) simp
      next
        case None
        define rest where "rest = seg_stream zdec xxh r 0 (k + 1)"
        have "k + 1 < length (sd_index r) \<longrightarrow> unat (0::u64) < block_hi (sd_index r ! (k + 1))"
          using block_hi_bound(2)[OF 1(2), of "k + 1"] by fastforce
        then obtain n where n: "map lsn_of (fst rest) = [block_hi (sd_index r ! k)..<n]" "n \<le> ?top"
            "snd rest = None \<longrightarrow> n = ?top"
          using 1(1)[OF k Inr 1(2)] start_at_Suc[OF 1(2) k] by (auto simp: rest_def)
        have e: "seg_stream zdec xxh r f k = (filter (\<lambda>x. f \<le> rc_LSN x) xs @ fst rest, snd rest)"
          using None by (simp add: st then_stream_def xs_def rest_def)
        have le: "start_at r f k \<le> block_hi (sd_index r ! k)" using 1(3) k B(2) by (simp add: start_at_def)
        show ?thesis
        proof (cases "block_hi (sd_index r ! k) \<le> n")
          case True
          then have "map lsn_of (fst (seg_stream zdec xxh r f k)) = [start_at r f k..<n]"
            using ys xs(3)[OF None] n(1) le by (simp add: e upt_join)
          then show ?thesis using n(2,3) by (intro exI[of _ n]) (simp add: e)
        next
          case False
          then have "map lsn_of (fst (seg_stream zdec xxh r f k)) = [start_at r f k..<block_hi (sd_index r ! k)]"
            using ys xs(3)[OF None] n(1) by (simp add: e)
          then show ?thesis
            using n(2,3) B(3) False by (intro exI[of _ "block_hi (sd_index r ! k)"]) (auto simp: e)
        qed
      qed
    qed
  next
    case False
    then show ?thesis
      by (intro exI[of _ ?top]) (simp add: seg_stream.simps[of _ _ _ _ k] start_at_def)
  qed
qed


section \<open>Reads\<close>

lemma scan_block:
  assumes "reader_ok r" "unat (st_BaseLSN (sd_trailer r)) \<le> unat f" "f \<le> st_LastLSN (sd_trailer r)"
  defines "k \<equiv> search_list (\<lambda>e. f \<le> blockLastLSN e) (sd_index r)"
  shows "k < length (sd_index r)" "block_lo (sd_index r ! k) \<le> unat f" "unat f < block_hi (sd_index r ! k)"
proof -
  note R = reader_okD[OF assms(1)]
  have "f \<le> blockLastLSN e \<longleftrightarrow> unat f < block_hi e" if "e \<in> set (sd_index r)" for e
    using that unat_blockLastLSN[OF assms(1)] by (fastforce simp: in_set_conv_nth word_le_nat_alt)
  then have "k = search_list (\<lambda>e. unat f < block_hi e) (sd_index r)"
    unfolding k_def by (intro search_list_cong) auto
  moreover have "unat f < unat (st_LastLSN (sd_trailer r)) + 1" using assms(3) by (simp add: word_le_nat_alt)
  ultimately show "k < length (sd_index r)" "block_lo (sd_index r ! k) \<le> unat f" "unat f < block_hi (sd_index r ! k)"
    using blk.search_hit[OF R(2,1) assms(2)] by simp_all
qed

text \<open>The stream a read with start \<open>f\<close> takes its records from.\<close>

definition read_stream :: "(bytes \<Rightarrow> bytes res) \<Rightarrow> (bytes \<Rightarrow> u64) \<Rightarrow> SegReader \<Rightarrow> u64 \<Rightarrow> Record list \<times> goerr option" where
  "read_stream zdec xxh r f =
     (if f > st_LastLSN (sd_trailer r) then ([], None)
      else let f = max f (st_BaseLSN (sd_trailer r))
           in seg_stream zdec xxh r f (search_list (\<lambda>e. f \<le> blockLastLSN e) (sd_index r)))"

lemma Read_stream:
  assumes "reader_ok r"
  shows "SegReader_Read zdec xxh None r f limit
    = bindE (take_stream limit 0 (read_stream zdec xxh r f)) (\<lambda>xs. Inr (map (to_record r) xs))"
proof (cases "f > st_LastLSN (sd_trailer r)")
  case True
  then show ?thesis
    by (auto simp: SegReader_Read_def SegReader_Scan_def read_stream_def take_stream_def closed_scanner_def
        SegScanner_Next_def read_loop.simps[of _ _ _ _ "\<lparr>ss_r = None, ss_nextBlock = _, ss_fromLSN = _,
          ss_block = _, ss_hasBlock = _, ss_closed = True\<rparr>"])
next
  case False
  define g where "g = max f (st_BaseLSN (sd_trailer r))"
  define k where "k = search_list (\<lambda>e. g \<le> blockLastLSN e) (sd_index r)"
  have "st_BaseLSN (sd_trailer r) \<le> st_LastLSN (sd_trailer r)"
    using blk.tiles_less[OF reader_okD(2,1,4)[OF assms]] by (simp add: word_le_nat_alt)
  then have "g \<le> st_LastLSN (sd_trailer r)" using False by (simp add: g_def)
  moreover have "unat (st_BaseLSN (sd_trailer r)) \<le> unat g"
    unfolding g_def by (simp add: max_def word_le_nat_alt)
  ultimately have "k < length (sd_index r)" using scan_block(1)[OF assms] by (simp add: k_def)
  moreover have "(if f < st_BaseLSN (sd_trailer r) then st_BaseLSN (sd_trailer r) else f) = g"
    by (auto simp: g_def max_def)
  ultimately have "SegReader_Scan None r f = Inr \<lparr>ss_r = Some r, ss_nextBlock = k, ss_fromLSN = g,
      ss_block = zero_RawBlockScanner, ss_hasBlock = False, ss_closed = False\<rparr>"
    using False by (simp add: SegReader_Scan_def Let_def k_def)
  then show ?thesis
    using False read_loop_stream[OF _ _ surjective_pairing, of _ r zdec xxh limit "[]"]
    by (simp add: SegReader_Read_def read_stream_def scanner_stream_def g_def k_def Let_def)
qed

lemma read_stream_lsns:
  fixes f :: u64
  assumes "reader_ok r"
  defines "a \<equiv> max (unat f) (unat (st_BaseLSN (sd_trailer r)))" and "b \<equiv> unat (st_LastLSN (sd_trailer r)) + 1"
  shows "\<exists>n\<le>b. map lsn_of (fst (read_stream zdec xxh r f)) = [a..<n]
    \<and> (snd (read_stream zdec xxh r f) = None \<longrightarrow> n = b)"
proof (cases "f > st_LastLSN (sd_trailer r)")
  case True
  then have "b \<le> a" by (simp add: a_def b_def word_less_nat_alt)
  with True show ?thesis by (intro exI[of _ b]) (simp add: read_stream_def)
next
  case False
  define g where "g = max f (st_BaseLSN (sd_trailer r))"
  define k where "k = search_list (\<lambda>e. g \<le> blockLastLSN e) (sd_index r)"
  have "st_BaseLSN (sd_trailer r) \<le> st_LastLSN (sd_trailer r)"
    using blk.tiles_less[OF reader_okD(2,1,4)[OF assms(1)]] by (simp add: word_le_nat_alt)
  then have "g \<le> st_LastLSN (sd_trailer r)" using False by (simp add: g_def)
  moreover have g: "unat g = a" by (auto simp: g_def a_def max_def word_le_nat_alt)
  ultimately have K: "k < length (sd_index r)" "block_lo (sd_index r ! k) \<le> a" "a < block_hi (sd_index r ! k)"
    using scan_block[OF assms(1), of g] by (simp_all add: k_def a_def)
  have pre: "k < length (sd_index r) \<longrightarrow> unat g < block_hi (sd_index r ! k)" using K(3) g by simp
  have "start_at r g k = a" using K g by (simp add: start_at_def)
  moreover have "read_stream zdec xxh r f = seg_stream zdec xxh r g k"
    using False by (simp add: read_stream_def g_def k_def Let_def)
  moreover obtain n where "map lsn_of (fst (seg_stream zdec xxh r g k)) = [start_at r g k..<n]" "n \<le> b"
      "snd (seg_stream zdec xxh r g k) = None \<longrightarrow> n = b"
    using seg_stream_lsns[OF assms(1) pre, of zdec xxh] unfolding b_def[symmetric] by (elim exE conjE) (rule that)
  ultimately show ?thesis by (intro exI[of _ n]) simp
qed

lemma take_upt: "map g xs = [a..<b] \<Longrightarrow> map g (take n xs) = [a..<min (a + n) (max a b)]"
  by (simp add: take_map[symmetric] min_def max_def)

lemma Read_lsns:
  assumes "reader_ok r" "SegReader_Read zdec xxh None r f limit = Inr out"
  defines "a \<equiv> max (unat f) (unat (st_BaseLSN (sd_trailer r)))" and "b \<equiv> unat (st_LastLSN (sd_trailer r)) + 1"
  shows "map (\<lambda>x. unat (re_LSN x)) out = [a..<(if limit \<le> 0 then b else min (a + nat limit) b)]"
    "\<forall>x\<in>set out. re_Partition x = st_Partition (sd_trailer r)"
proof -
  obtain n where n: "n \<le> b" "map lsn_of (fst (read_stream zdec xxh r f)) = [a..<n]"
      "snd (read_stream zdec xxh r f) = None \<longrightarrow> n = b"
    using read_stream_lsns[OF assms(1), of zdec xxh f] by (auto simp: a_def b_def)
  obtain xs where xs: "take_stream limit 0 (read_stream zdec xxh r f) = Inr xs" "out = map (to_record r) xs"
    using assms(2) unfolding Read_stream[OF assms(1)] by auto
  show "\<forall>x\<in>set out. re_Partition x = st_Partition (sd_trailer r)" by (auto simp: xs(2) to_record_def)
  have out: "map (\<lambda>x. unat (re_LSN x)) out = map lsn_of xs" by (simp add: xs(2) to_record_def o_def)
  have len: "length (fst (read_stream zdec xxh r f)) = n - a" using arg_cong[OF n(2), of length] by simp
  show "map (\<lambda>x. unat (re_LSN x)) out = [a..<(if limit \<le> 0 then b else min (a + nat limit) b)]"
  proof (cases "0 < limit \<and> limit \<le> int (length (fst (read_stream zdec xxh r f)))")
    case True
    then have "map lsn_of xs = [a..<a + nat limit]" "a + nat limit \<le> n"
      using xs(1) take_upt[OF n(2), of "nat limit"] len by (auto simp: take_stream_def min_def max_def split: if_splits)
    then show ?thesis using True n(1) by (simp add: out min_absorb1)
  next
    case False
    then have "snd (read_stream zdec xxh r f) = None" "xs = fst (read_stream zdec xxh r f)"
      using xs(1) by (auto simp: take_stream_def split: if_splits option.splits)
    then show ?thesis using n False len by (auto simp: out min_def nat_le_iff)
  qed
qed


section \<open>Search by timestamp\<close>

lemma reader_ok_times:
  assumes "reader_ok r"
  shows "bi_MinTimestampMS (hd (sd_index r)) = st_MinTimestampMS (sd_trailer r)"
    "bi_MaxTimestampMS (last (sd_index r)) = st_MaxTimestampMS (sd_trailer r)"
    "bi_BaseLSN (hd (sd_index r)) = st_BaseLSN (sd_trailer r)"
proof -
  obtain e es where es: "sd_index r = e # es" using reader_okD(4)[OF assms] by (cases "sd_index r") auto
  have v: "ValidateIndex (e # es) (sd_trailer r) = Inr ()" using assms by (simp add: reader_ok_def es)
  then obtain n where "ValidateIndex_loop (sd_trailer r) None 0 (e # es) = Inr n"
    unfolding ValidateIndex_def by (auto simp: Let_def simp del: ValidateIndex_loop.simps split: if_splits)
  from ValidateIndex_loop_head[OF this]
  show "bi_MinTimestampMS (hd (sd_index r)) = st_MinTimestampMS (sd_trailer r)"
    "bi_BaseLSN (hd (sd_index r)) = st_BaseLSN (sd_trailer r)" by (simp_all add: es)
  show "bi_MaxTimestampMS (last (sd_index r)) = st_MaxTimestampMS (sd_trailer r)"
    using v unfolding ValidateIndex_def es by (auto simp: Let_def simp del: ValidateIndex_loop.simps split: if_splits)
qed

lemma max_sorted:
  assumes "reader_ok r"
  shows "sorted_wrt (\<lambda>x y. sint (bi_MaxTimestampMS x) \<le> sint (bi_MaxTimestampMS y)) (sd_index r)"
proof (rule sorted_wrt_mono_rel[OF _ reader_okD(3)[OF assms]])
  fix x y assume "y \<in> set (sd_index r)" "sint (bi_MaxTimestampMS x) \<le> sint (bi_MinTimestampMS y)"
  then show "sint (bi_MaxTimestampMS x) \<le> sint (bi_MaxTimestampMS y)"
    using reader_okD(1)[OF assms] entry_okD(3)[of y] by (auto simp: list_all_iff)
qed

text \<open>The stream from a block on is the records of the block, then the stream from the next one.\<close>

lemma seg_stream_block:
  assumes "reader_ok r" "k < length (sd_index r)" "seg_stream zdec xxh r 0 k = (recs, None)"
  shows "\<exists>bs xs ys. openBlockScanner zdec xxh None r k = Inr bs \<and> drain bs = (xs, None) \<and> recs = xs @ ys
    \<and> seg_stream zdec xxh r 0 (k + 1) = (ys, None) \<and> xs \<noteq> [] \<and> rc_LSN (hd xs) = bi_BaseLSN (sd_index r ! k)
    \<and> (\<forall>x\<in>set xs. sint (bi_MinTimestampMS (sd_index r ! k)) \<le> time_of x \<and> time_of x \<le> sint (bi_MaxTimestampMS (sd_index r ! k)))"
proof -
  obtain bs where bs: "openBlockScanner zdec xxh None r k = Inr bs"
    using assms(2,3) by (cases "openBlockScanner zdec xxh None r k") (simp_all add: seg_stream.simps[of _ _ _ _ k])
  note O = openBlockScanner_Inr[OF assms(1,2) bs]
  obtain xs t where d: "drain bs = (xs, t)" by fastforce
  obtain ys u where rest: "seg_stream zdec xxh r 0 (k + 1) = (ys, u)" by fastforce
  have "then_stream 0 (xs, t) (ys, u) = (recs, None)"
    using assms(2,3) bs d rest by (simp add: seg_stream.simps[of _ _ _ _ k])
  then have t: "t = None" "u = None" "recs = xs @ ys"
    by (auto simp: then_stream_def Let_def split: option.splits)
  have L: "map lsn_of xs = [next_lsn bs..<next_lsn bs + length xs]" "length xs = scan_left bs"
    using drain_lsns[OF O(1)] by (simp_all add: d t(1))
  have ne: "xs \<noteq> []" using L(2) O(2,3) block_hi_bound(2)[OF assms(1,2)] by auto
  then have "lsn_of (hd xs) = next_lsn bs" using L(1) by (cases xs) (simp_all add: upt_rec)
  then have hd: "rc_LSN (hd xs) = bi_BaseLSN (sd_index r ! k)" using O(2) by (simp add: block_lo_def word_unat_eq_iff)
  have "\<forall>x\<in>set xs. sint (bi_MinTimestampMS (sd_index r ! k)) \<le> time_of x \<and> time_of x \<le> sint (bi_MaxTimestampMS (sd_index r ! k))"
    using drain_times[OF O(1)] by (simp add: d O(4,5))
  then show ?thesis using bs d rest t ne hd by blast
qed

lemma find_ts_drain:
  "drain s = (xs, None) \<Longrightarrow>
     find_ts None t s = Inr (map_option rc_LSN (List.find (\<lambda>x. sint t \<le> time_of x) xs))"
proof (induction s arbitrary: xs rule: drain.induct)
  case (1 s)
  show ?case
  proof (cases "RawBlockScanner_Next s")
    case (Inl e)
    then show ?thesis using 1(2) by (simp add: drain_simps)
  next
    case (Inr p)
    obtain ox s' where p: "p = (ox, s')" by fastforce
    show ?thesis
    proof (cases ox)
      case None
      then show ?thesis using 1(2) Inr p by (simp add: drain_simps(2) find_ts.simps[of _ _ s])
    next
      case (Some x)
      then have nx: "RawBlockScanner_Next s = Inr (Some x, s')" using Inr p by simp
      then have "xs = x # fst (drain s')" "drain s' = (fst (drain s'), None)"
        using 1(2) by (auto simp: drain_simps(3)[OF nx] prod_eq_iff)
      then show ?thesis using 1(1)[OF Inr p[symmetric] Some] nx by (simp add: find_ts.simps[of _ _ s])
    qed
  qed
qed

lemma find_append: "List.find P (xs @ ys) = (case List.find P xs of None \<Rightarrow> List.find P ys | Some x \<Rightarrow> Some x)"
  by (induction xs) auto

lemma find_none: "(\<And>x. x \<in> set xs \<Longrightarrow> \<not> P x) \<Longrightarrow> List.find P xs = None"
  by (simp add: find_None_iff)

lemma find_block_stream:
  assumes "reader_ok r" "seg_stream zdec xxh r 0 k = (recs, None)" "find_block zdec xxh None r t k = Inr res"
  shows "res = map_option rc_LSN (List.find (\<lambda>x. sint t \<le> time_of x) recs)"
  using assms
proof (induction zdec xxh "None :: ctx" r t k arbitrary: recs rule: find_block.induct)
  case (1 zdec xxh r t k)
  show ?case
  proof (cases "k < length (sd_index r)")
    case k: True
    obtain bs xs ys where S: "openBlockScanner zdec xxh None r k = Inr bs" "drain bs = (xs, None)" "recs = xs @ ys"
        "seg_stream zdec xxh r 0 (k + 1) = (ys, None)" "xs \<noteq> []" "rc_LSN (hd xs) = bi_BaseLSN (sd_index r ! k)"
      and T: "\<forall>x\<in>set xs. sint (bi_MinTimestampMS (sd_index r ! k)) \<le> time_of x \<and> time_of x \<le> sint (bi_MaxTimestampMS (sd_index r ! k))"
      using seg_stream_block[OF 1(2) k 1(3)] by blast
    consider "sint t \<le> sint (bi_MinTimestampMS (sd_index r ! k))" | "sint (bi_MaxTimestampMS (sd_index r ! k)) < sint t"
        "\<not> sint t \<le> sint (bi_MinTimestampMS (sd_index r ! k))"
      | "\<not> sint t \<le> sint (bi_MinTimestampMS (sd_index r ! k))" "\<not> sint (bi_MaxTimestampMS (sd_index r ! k)) < sint t" by blast
    then show ?thesis
    proof cases
      case c: 1
      then have "res = Some (bi_BaseLSN (sd_index r ! k))" using 1(4) k by (simp add: find_block.simps[of _ _ _ _ _ k])
      moreover have "sint t \<le> time_of (hd xs)" using T S(5) c by (meson hd_in_set order_trans)
      ultimately show ?thesis using S(3,5,6) by (cases xs) simp_all
    next
      case 2
      then have "find_block zdec xxh None r t (k + 1) = Inr res" using 1(4) k by (simp add: find_block.simps[of _ _ _ _ _ k])
      then have "res = map_option rc_LSN (List.find (\<lambda>x. sint t \<le> time_of x) ys)"
        using 1(1)[OF k refl _ _ 1(2) S(4)] 2 by simp
      moreover have "List.find (\<lambda>x. sint t \<le> time_of x) xs = None" using T 2 by (intro find_none) fastforce
      ultimately show ?thesis using S(3) by (simp add: find_append)
    next
      case 3
      then have "(case List.find (\<lambda>x. sint t \<le> time_of x) xs of Some x \<Rightarrow> Inr (Some (rc_LSN x)) | None \<Rightarrow> Inl [ErrCorruptData]) = Inr res"
        using 1(4) k S(1) find_ts_drain[OF S(2), of t]
        by (simp add: find_block.simps[of _ _ _ _ _ k] split: option.splits)
      then show ?thesis using S(3) by (auto simp: find_append split: option.splits)
    qed
  next
    case False
    then show ?thesis using 1(3,4) by (simp add: find_block.simps[of _ _ _ _ _ k] seg_stream.simps[of _ _ _ _ k])
  qed
qed

text \<open>A search fails only in a block whose index entry promises a later timestamp than the block
  holds.\<close>

definition times_met where
  "times_met zdec xxh r \<longleftrightarrow> (\<forall>k<length (sd_index r). \<forall>bs. openBlockScanner zdec xxh None r k = Inr bs \<longrightarrow>
     (\<exists>x\<in>set (fst (drain bs)). sint (bi_MaxTimestampMS (sd_index r ! k)) \<le> time_of x))"

lemma find_block_returns:
  assumes "reader_ok r" "times_met zdec xxh r" "seg_stream zdec xxh r 0 k = (recs, None)"
  shows "\<exists>res. find_block zdec xxh None r t k = Inr res"
  using assms
proof (induction zdec xxh "None :: ctx" r t k arbitrary: recs rule: find_block.induct)
  case (1 zdec xxh r t k)
  show ?case
  proof (cases "k < length (sd_index r)")
    case k: True
    obtain bs xs ys where S: "openBlockScanner zdec xxh None r k = Inr bs" "drain bs = (xs, None)"
        "seg_stream zdec xxh r 0 (k + 1) = (ys, None)"
      using seg_stream_block[OF 1(2) k 1(4)] by blast
    obtain x where x: "x \<in> set xs" "sint (bi_MaxTimestampMS (sd_index r ! k)) \<le> time_of x"
      using 1(3) k S(1,2) by (fastforce simp: times_met_def)
    show ?thesis
    proof (cases "sint t \<le> sint (bi_MinTimestampMS (sd_index r ! k)) \<or> sint (bi_MaxTimestampMS (sd_index r ! k)) < sint t")
      case True
      have "\<exists>res. find_block zdec xxh None r t (k + 1) = Inr res" if "\<not> sint t \<le> sint (bi_MinTimestampMS (sd_index r ! k))"
        using 1(1)[OF k refl _ _ 1(2,3) S(3)] True that by simp
      then show ?thesis using True k by (cases "sint t \<le> sint (bi_MinTimestampMS (sd_index r ! k))") (simp_all add: find_block.simps[of _ _ _ _ _ k])
    next
      case False
      then have "List.find (\<lambda>x. sint t \<le> time_of x) xs \<noteq> None" using x by (fastforce simp: find_None_iff)
      then obtain y where "List.find (\<lambda>x. sint t \<le> time_of x) xs = Some y" by blast
      then show ?thesis using False k S(1) find_ts_drain[OF S(2), of t] by (simp add: find_block.simps[of _ _ _ _ _ k])
    qed
  qed (simp add: find_block.simps[of _ _ _ _ _ k])
qed

lemma seg_stream_skip:
  assumes "reader_ok r" "seg_stream zdec xxh r 0 0 = (recs, None)" "k \<le> length (sd_index r)"
  shows "\<exists>xs ys. recs = xs @ ys \<and> seg_stream zdec xxh r 0 k = (ys, None)
    \<and> (\<forall>x\<in>set xs. \<exists>j<k. time_of x \<le> sint (bi_MaxTimestampMS (sd_index r ! j)))"
  using assms(3)
proof (induction k)
  case 0
  then show ?case using assms(2) by auto
next
  case (Suc k)
  then obtain xs ys where IH: "recs = xs @ ys" "seg_stream zdec xxh r 0 k = (ys, None)"
      "\<forall>x\<in>set xs. \<exists>j<k. time_of x \<le> sint (bi_MaxTimestampMS (sd_index r ! j))" by auto
  obtain zs ws where B: "ys = zs @ ws" "seg_stream zdec xxh r 0 (k + 1) = (ws, None)"
      "\<forall>x\<in>set zs. time_of x \<le> sint (bi_MaxTimestampMS (sd_index r ! k))"
    using seg_stream_block[OF assms(1) _ IH(2)] Suc.prems by auto
  have "\<forall>x\<in>set (xs @ zs). \<exists>j<Suc k. time_of x \<le> sint (bi_MaxTimestampMS (sd_index r ! j))"
    using IH(3) B(3) less_Suc_eq by auto
  then show ?case using IH(1) B(1,2) by (metis Suc_eq_plus1 append.assoc)
qed

lemma FindLSNByTimestamp_find:
  assumes "reader_ok r" "seg_stream zdec xxh r 0 0 = (recs, None)" "FindLSNByTimestamp zdec xxh None r t = Inr res"
  shows "res = map_option rc_LSN (List.find (\<lambda>x. sint t \<le> time_of x) recs)"
proof -
  let ?n = "length (sd_index r)" and ?max = "st_MaxTimestampMS (sd_trailer r)"
  define k where "k = search_list (\<lambda>e. sint t \<le> sint (bi_MaxTimestampMS e)) (sd_index r)"
  note ne = reader_okD(4)[OF assms(1)]
  have below: "\<forall>j<k. \<not> sint t \<le> sint (bi_MaxTimestampMS (sd_index r ! j))"
  proof (intro allI impI)
    fix j assume "j < k"
    moreover have "sorted_wrt (\<lambda>x y. sint t \<le> sint (bi_MaxTimestampMS x) \<longrightarrow> sint t \<le> sint (bi_MaxTimestampMS y)) (sd_index r)"
      by (rule sorted_wrt_mono_rel[OF _ max_sorted[OF assms(1)]]) auto
    ultimately have "sd_index r ! j \<in> set (takeWhile (\<lambda>e. \<not> sint t \<le> sint (bi_MaxTimestampMS e)) (sd_index r))"
      unfolding k_def search_list_takeWhile by (metis nth_mem takeWhile_nth search_list_takeWhile)
    then show "\<not> sint t \<le> sint (bi_MaxTimestampMS (sd_index r ! j))" by (auto dest: set_takeWhileD)
  qed
  have kn: "k \<le> ?n" unfolding k_def by (rule search_list_le)
  obtain xs ys where S: "recs = xs @ ys" "seg_stream zdec xxh r 0 k = (ys, None)"
      "\<forall>x\<in>set xs. \<exists>j<k. time_of x \<le> sint (bi_MaxTimestampMS (sd_index r ! j))"
    using seg_stream_skip[OF assms(1,2) kn] by blast
  have "List.find (\<lambda>x. sint t \<le> time_of x) xs = None" using S(3) below by (intro find_none) fastforce
  then have rest: "List.find (\<lambda>x. sint t \<le> time_of x) recs = List.find (\<lambda>x. sint t \<le> time_of x) ys"
    by (simp add: S(1) find_append)
  have top: "sint (bi_MaxTimestampMS (sd_index r ! j)) \<le> sint ?max" if "j < ?n" for j
    using sorted_wrt_nth_less[OF max_sorted[OF assms(1)], of j "?n - 1"] reader_ok_times(2)[OF assms(1)] that ne
    by (cases "j = ?n - 1") (auto simp: last_conv_nth)
  consider "sint ?max < sint t" | "\<not> sint ?max < sint t" "sint t \<le> sint (st_MinTimestampMS (sd_trailer r))"
    | "\<not> sint ?max < sint t" "\<not> sint t \<le> sint (st_MinTimestampMS (sd_trailer r))" "k = ?n"
    | "\<not> sint ?max < sint t" "\<not> sint t \<le> sint (st_MinTimestampMS (sd_trailer r))" "k < ?n" using kn by linarith
  then show ?thesis
  proof cases
    case 1
    then have "\<not> sint t \<le> sint (bi_MaxTimestampMS (sd_index r ! j))" if "j < ?n" for j using top[OF that] by linarith
    then have "k = ?n" using search_list_hit[of "\<lambda>e. sint t \<le> sint (bi_MaxTimestampMS e)" "sd_index r"] kn
      unfolding k_def by (meson le_neq_implies_less)
    then have "ys = []" using S(2) by (simp add: seg_stream.simps[of _ _ _ _ "length (sd_index r)"])
    then show ?thesis using assms(3) 1 by (simp add: FindLSNByTimestamp_def rest)
  next
    case 2
    obtain zs ws where B: "recs = zs @ ws" "zs \<noteq> []" "rc_LSN (hd zs) = bi_BaseLSN (sd_index r ! 0)"
        "\<forall>x\<in>set zs. sint (bi_MinTimestampMS (sd_index r ! 0)) \<le> time_of x"
      using seg_stream_block[OF assms(1) _ assms(2)] ne by auto
    have "sint t \<le> time_of (hd zs)"
      using B(2,4) 2(2) reader_ok_times(1)[OF assms(1)] ne hd_in_set[OF B(2)] by (fastforce simp: hd_conv_nth)
    moreover have "res = Some (st_BaseLSN (sd_trailer r))" using assms(3) 2 by (simp add: FindLSNByTimestamp_def)
    ultimately show ?thesis
      using B(1-3) reader_ok_times(3)[OF assms(1)] ne by (cases zs) (simp_all add: hd_conv_nth)
  next
    case 3
    then have "ys = []" using S(2) by (simp add: seg_stream.simps[of _ _ _ _ "length (sd_index r)"])
    then show ?thesis using assms(3) 3 by (simp add: FindLSNByTimestamp_def k_def rest)
  next
    case 4
    then have "find_block zdec xxh None r t k = Inr res"
      using assms(3) by (simp add: FindLSNByTimestamp_def k_def Let_def)
    then show ?thesis using find_block_stream[OF assms(1) S(2)] by (simp add: rest)
  qed
qed

lemma FindLSNByTimestamp_returns:
  assumes "reader_ok r" "seg_stream zdec xxh r 0 0 = (recs, None)" "times_met zdec xxh r"
  shows "FindLSNByTimestamp zdec xxh None r t = Inr (map_option rc_LSN (List.find (\<lambda>x. sint t \<le> time_of x) recs))"
proof -
  have "\<exists>res. find_block zdec xxh None r t k = Inr res" if "k \<le> length (sd_index r)" for k
    using seg_stream_skip[OF assms(1,2) that] find_block_returns[OF assms(1,3)] by blast
  then have "\<exists>res. FindLSNByTimestamp zdec xxh None r t = Inr res"
    by (auto simp: FindLSNByTimestamp_def Let_def not_le)
  then show ?thesis using FindLSNByTimestamp_find[OF assms(1,2)] by blast
qed

end
