(* ===== verification/Seg_Whole.thy ===== *)
theory Seg_Whole
  imports Seg_Reader_Spec
begin

text \<open>
  Reading a segment object whose bytes are known. A store serves an object when every range inside
  it is answered with those bytes; opening over such a store is parsing the bytes, whether they are
  fetched range by range (\<^verbatim>\<open>reader.go\<close>) or at once (\<^verbatim>\<open>whole.go\<close>).
\<close>

definition serves :: "SegmentStore \<Rightarrow> string \<Rightarrow> bytes \<Rightarrow> bool" where
  "serves store uri body \<longleftrightarrow> length body < 18446744073709551616 \<and>
     (\<forall>off n. unat off + unat n \<le> length body \<longrightarrow>
        store None uri off n = Inr (subslice (unat off) (unat off + unat n) body))"

lemma wholeSegmentStore_serves:
  "length body < 18446744073709551616 \<Longrightarrow> serves (wholeSegmentStore uri body) uri body"
proof (unfold serves_def, intro conjI allI impI)
  fix off n :: u64
  assume len: "length body < 18446744073709551616" and le: "unat off + unat n \<le> length body"
  have "off \<le> of_nat (length body)" using len le by (simp add: word_le_nat_alt unat_of_nat_u64)
  moreover from this have "n \<le> of_nat (length body) - off"
    using len le by (simp add: word_le_nat_alt unat_sub unat_of_nat_u64)
  ultimately show "wholeSegmentStore uri body None uri off n = Inr (subslice (unat off) (unat off + unat n) body)"
    by (simp add: wholeSegmentStore_def not_less)
qed

lemma readAtExact_serves:
  assumes "serves store uri body" "unat off + unat n \<le> length body"
  shows "readAtExact None store uri off n = Inr (subslice (unat off) (unat off + unat n) body)"
proof -
  have len: "length body < 18446744073709551616" using assms(1) by (simp add: serves_def)
  have "\<not> MaxUint64 - n < off"
    using assms(2) len unat_max_diff[of n] by (simp add: MaxUint64_def word_less_nat_alt)
  moreover have "length (subslice (unat off) (unat off + unat n) body) = unat n" using assms(2) by simp
  ultimately show ?thesis using assms by (simp add: readAtExact_def serves_def)
qed

lemma hash_chunks_serves:
  assumes "serves store uri body" "unat len \<le> length body" "chunk \<noteq> 0" "off \<le> len"
  shows "hash_chunks None store uri len chunk off written = Inr (written @ subslice (unat off) (unat len) body)"
  using assms(4)
proof (induction "unat len - unat off" arbitrary: off written rule: less_induct)
  case less
  show ?case
  proof (cases "off < len")
    case True
    let ?n = "min chunk (len - off)"
    note C = chunk_progress[OF True assms(3)]
    have mid: "unat off \<le> unat (off + ?n)" "unat (off + ?n) \<le> unat len"
      using C(2,3) by (simp_all add: word_less_nat_alt word_le_nat_alt)
    then have n: "unat off + unat ?n = unat (off + ?n)"
      using C(1) True by (simp add: min_def word_le_nat_alt unat_sub)
    then have read: "readAtExact None store uri off ?n = Inr (subslice (unat off) (unat (off + ?n)) body)"
      using readAtExact_serves[OF assms(1), of off ?n] mid assms(2) by simp
    have IH: "hash_chunks None store uri len chunk (off + ?n) (written @ subslice (unat off) (unat (off + ?n)) body)
        = Inr ((written @ subslice (unat off) (unat (off + ?n)) body) @ subslice (unat (off + ?n)) (unat len) body)"
      using C True by (intro less(1)) (auto simp: word_less_nat_alt)
    show ?thesis
      using True assms(3) read IH slice_split[OF mid, of body]
      by (simp add: hash_chunks.simps[of _ _ _ _ _ off] Let_def)
  next
    case False
    then have "off = len" using less.prems by simp
    then show ?thesis by (simp add: hash_chunks.simps[of _ _ _ _ _ len] subslice_def)
  qed
qed

lemma trailer_extent:
  assumes "SegTrailer_Validate t n = Inr ()" "n \<noteq> 0"
  shows "unat (st_BlockIndexOffset t) + unat (st_BlockIndexLength t) + 192 = unat n"
    "unat (st_BlockIndexOffset t + ucast (st_BlockIndexLength t)) = unat (st_BlockIndexOffset t) + unat (st_BlockIndexLength t)"
    "HashAlgo_Validate (st_HashAlgo t) = Inr ()" "st_TotalSize t = n"
proof -
  let ?l = "ucast (st_BlockIndexLength t) :: u64" and ?o = "st_BlockIndexOffset t"
  have c: "?o \<le> NOT 0 - ?l" "?o + ?l \<le> NOT 0 - 192" "st_TotalSize t = ?o + ?l + 192" "st_TotalSize t = n"
    using assms by (auto simp: SegTrailer_Validate_def Let_def split: if_splits)
  show "HashAlgo_Validate (st_HashAlgo t) = Inr ()" "st_TotalSize t = n"
    using assms by (auto simp: SegTrailer_Validate_def Let_def split: if_splits)
  have "unat ?o + unat ?l < 18446744073709551616"
    using c(1) unat_u64_less[of ?l] by (simp add: word_le_nat_alt unat_diff_u64)
  then show s: "unat (?o + ?l) = unat ?o + unat (st_BlockIndexLength t)" by (simp add: unat_add_u64)
  have "unat (?o + ?l) + 192 < 18446744073709551616" using c(2) by (simp add: word_le_nat_alt unat_diff_u64)
  then have "unat (?o + ?l + 192) = unat (?o + ?l) + 192" by (simp add: unat_add_u64)
  then show "unat ?o + unat (st_BlockIndexLength t) + 192 = unat n" using c(3,4) s by simp
qed


section \<open>Opening is parsing\<close>

definition open_body ::
  "(bytes \<Rightarrow> u64) \<Rightarrow> bytes \<Rightarrow> SegmentRef \<Rightarrow> SegReaderOptions \<Rightarrow> (FilePreamble \<times> SegTrailer \<times> BlockIndexEntry list) res" where
  "open_body xxh body ref opts =
     (let size = length body in
      bindE (map_err (Cons ErrCorruptData) (ParseTrailer xxh (subslice (size - 192) size body) (sr_SizeBytes ref))) (\<lambda>trailer.
      bindE (validateRefTrailer ref trailer) (\<lambda>_.
      bindE (map_err (Cons ErrCorruptData) (ParseFilePreamble (subslice 0 64 body))) (\<lambda>preamble.
      bindE (map_err (Cons ErrCorruptData) (ValidatePreambleTrailer preamble trailer)) (\<lambda>_.
      let o1 = unat (st_BlockIndexOffset trailer); o2 = o1 + unat (st_BlockIndexLength trailer) in
      bindE (map_err (Cons ErrCorruptData) (ParseBlockIndex xxh (subslice o1 o2 body) (st_HashAlgo trailer))) (\<lambda>(_, index).
      bindE (map_err (Cons ErrCorruptData) (ValidateIndex index trailer)) (\<lambda>_.
      if ro_ValidateSegmentHash opts \<and> HashBytes xxh (st_HashAlgo trailer) (subslice 0 o2 body) \<noteq> Inr (st_SegmentHash trailer)
      then Inl [ErrCorruptData] else Inr (preamble, trailer, index))))))))"

lemma segmentHasher_HashBytes:
  "HashAlgo_Validate algo = Inr () \<Longrightarrow> \<exists>sum. segmentHasher xxh algo = Inr sum \<and> (\<forall>data. HashBytes xxh algo data = Inr (sum data))"
  by (auto simp: segmentHasher_def HashBytes_def)

lemma validateSegmentHash_serves:
  assumes "serves store uri body" "unat len \<le> length body" "HashAlgo_Validate algo = Inr ()"
  shows "validateSegmentHash xxh None store uri len algo want
    = (if HashBytes xxh algo (subslice 0 (unat len) body) \<noteq> Inr want then Inl [ErrCorruptData] else Inr ())"
proof -
  have "hash_chunks None store uri len segmentHashChunkBytes 0 [] = Inr (subslice 0 (unat len) body)"
    using hash_chunks_serves[OF assms(1,2), of segmentHashChunkBytes 0 "[]"] by (simp add: segmentHashChunkBytes_def)
  moreover obtain sum where "segmentHasher xxh algo = Inr sum" "\<forall>data. HashBytes xxh algo data = Inr (sum data)"
    using segmentHasher_HashBytes[OF assms(3)] by blast
  ultimately show ?thesis
    by (simp add: validateSegmentHash_def validateSegmentHashChunks_def segmentHashChunkBytes_def)
qed

lemma bindE_assoc: "bindE (bindE m f) g = bindE m (\<lambda>x. bindE (f x) g)"
  by (cases m) simp_all

lemma open_segment_serves:
  assumes "serves store (sr_URI ref) body" "length body = unat (sr_SizeBytes ref)" "256 \<le> sr_SizeBytes ref"
  shows "open_segment xxh None store ref opts borrow = bindE (open_body xxh body ref opts) (\<lambda>(preamble, trailer, index).
    Inr \<lparr>sd_store = store, sd_ref = ref, sd_opts = opts, sd_borrowBlocks = borrow,
         sd_preamble = preamble, sd_trailer = trailer, sd_index = index\<rparr>)"
proof -
  have size: "256 \<le> length body" using assms(2,3) by (simp add: word_le_nat_alt)
  have "unat (sr_SizeBytes ref - 192) = length body - 192" using assms(2,3) size by (simp add: unat_sub word_le_nat_alt)
  then have t: "readAtExact None store (sr_URI ref) (sr_SizeBytes ref - 192) 192
      = Inr (subslice (length body - 192) (length body) body)"
    using readAtExact_serves[OF assms(1), of "sr_SizeBytes ref - 192" 192] size by simp
  have p: "readAtExact None store (sr_URI ref) 0 64 = Inr (subslice 0 64 body)"
    using readAtExact_serves[OF assms(1), of 0 64] size by simp
  have x: "readAtExact None store (sr_URI ref) (st_BlockIndexOffset tr) (ucast (st_BlockIndexLength tr))
      = Inr (subslice (unat (st_BlockIndexOffset tr)) (unat (st_BlockIndexOffset tr) + unat (st_BlockIndexLength tr)) body)"
    and h: "validateSegmentHash xxh None store (sr_URI ref) (st_BlockIndexOffset tr + ucast (st_BlockIndexLength tr))
        (st_HashAlgo tr) want
      = (if HashBytes xxh (st_HashAlgo tr) (subslice 0 (unat (st_BlockIndexOffset tr) + unat (st_BlockIndexLength tr)) body)
            \<noteq> Inr want then Inl [ErrCorruptData] else Inr ())"
    if "ParseTrailer xxh (subslice (length body - 192) (length body) body) (sr_SizeBytes ref) = Inr tr" for tr want
  proof -
    have v: "SegTrailer_Validate tr (sr_SizeBytes ref) = Inr ()"
      using that by (auto simp: ParseTrailer_def Let_def split: if_splits)
    have "sr_SizeBytes ref \<noteq> 0" using assms(3) by auto
    note E = trailer_extent[OF v this]
    show "readAtExact None store (sr_URI ref) (st_BlockIndexOffset tr) (ucast (st_BlockIndexLength tr))
      = Inr (subslice (unat (st_BlockIndexOffset tr)) (unat (st_BlockIndexOffset tr) + unat (st_BlockIndexLength tr)) body)"
      using readAtExact_serves[OF assms(1)] E(1) assms(2) by simp
    show "validateSegmentHash xxh None store (sr_URI ref) (st_BlockIndexOffset tr + ucast (st_BlockIndexLength tr))
        (st_HashAlgo tr) want
      = (if HashBytes xxh (st_HashAlgo tr) (subslice 0 (unat (st_BlockIndexOffset tr) + unat (st_BlockIndexLength tr)) body)
            \<noteq> Inr want then Inl [ErrCorruptData] else Inr ())"
      using validateSegmentHash_serves[OF assms(1), of "st_BlockIndexOffset tr + ucast (st_BlockIndexLength tr)"
          "st_HashAlgo tr" xxh want] E assms(2) by simp
  qed
  show ?thesis
    unfolding open_segment_def open_body_def Let_def
    by (simp add: t p x h bindE_assoc case_prod_unfold cong: bindE_cong)
      (auto simp: x h bindE_assoc intro!: bindE_cong)
qed


section \<open>Reading is decoding\<close>

definition reader_serves :: "SegReader \<Rightarrow> bytes \<Rightarrow> bool" where
  "reader_serves r body \<longleftrightarrow> reader_ok r \<and> serves (sd_store r) (sr_URI (sd_ref r)) body
     \<and> unat (st_BlockIndexOffset (sd_trailer r)) \<le> length body"

definition block_scanner ::
  "(bytes \<Rightarrow> bytes res) \<Rightarrow> (bytes \<Rightarrow> u64) \<Rightarrow> bytes \<Rightarrow> SegReaderOptions \<Rightarrow> SegTrailer \<Rightarrow> BlockIndexEntry \<Rightarrow> RawBlockScanner res" where
  "block_scanner zdec xxh body opts trailer entry =
     (if 64 + ucast (bi_StoredSize entry) > ro_MaxBlockBytes opts then Inl [ReadErrInvalidSegment]
      else let block = subslice (block_start entry) (block_end entry) body in
      bindE (map_err (Cons ErrCorruptData) (ParseBlockPreamble (take 64 block))) (\<lambda>preamble.
      bindE (map_err (Cons ErrCorruptData) (MatchBlockIndexEntry preamble entry)) (\<lambda>_.
      bindE (map_err (Cons ErrCorruptData) (Open zdec xxh (st_Codec trailer) (st_HashAlgo trailer) preamble (drop 64 block))) (\<lambda>raw.
      map_err (Cons ErrCorruptData) (NewRawBlockScanner raw preamble)))))"

lemma openBlockScanner_serves:
  assumes "reader_serves r body" "k < length (sd_index r)"
  shows "openBlockScanner zdec xxh None r k = block_scanner zdec xxh body (sd_opts r) (sd_trailer r) (sd_index r ! k)"
proof -
  let ?e = "sd_index r ! k"
  have ok: "reader_ok r" and sv: "serves (sd_store r) (sr_URI (sd_ref r)) body"
    and off: "unat (st_BlockIndexOffset (sd_trailer r)) \<le> length body" using assms(1) by (simp_all add: reader_serves_def)
  have "tiles block_start block_end FilePreambleSize (sd_index r) (unat (st_BlockIndexOffset (sd_trailer r)))"
    using ok unfolding reader_ok_def by (rule ValidateIndex_sound)
  then have e: "block_end ?e \<le> length body"
    using span.tiles_bounds[OF _ reader_okD(1)[OF ok] nth_mem[OF assms(2)]] off by fastforce
  have l: "unat (64 + ucast (bi_StoredSize ?e) :: u64) = 64 + unat (bi_StoredSize ?e)"
    using unat_u32_less[of "bi_StoredSize ?e"] by (simp add: unat_add_u64)
  have "readAtExact None (sd_store r) (sr_URI (sd_ref r)) (bi_BlockOffset ?e) (64 + ucast (bi_StoredSize ?e))
      = Inr (subslice (block_start ?e) (block_end ?e) body)"
    using readAtExact_serves[OF sv, of "bi_BlockOffset ?e" "64 + ucast (bi_StoredSize ?e)"] e l
    by (simp add: block_start_def block_end_def add.assoc)
  then show ?thesis
    unfolding openBlockScanner_def block_scanner_def Let_def by (simp add: OpenBorrowed_eq cong: if_cong)
qed

text \<open>Readers of the same object agree on every call.\<close>

definition same_segment :: "SegReader \<Rightarrow> SegReader \<Rightarrow> bool" where
  "same_segment r r' \<longleftrightarrow> (\<exists>body. reader_serves r body \<and> reader_serves r' body) \<and> sd_index r' = sd_index r
     \<and> sd_trailer r' = sd_trailer r \<and> sd_opts r' = sd_opts r"

lemma same_openBlockScanner:
  "same_segment r r' \<Longrightarrow> k < length (sd_index r) \<Longrightarrow> openBlockScanner zdec xxh None r' k = openBlockScanner zdec xxh None r k"
  by (auto simp: same_segment_def openBlockScanner_serves)

lemma same_seg_stream: "same_segment r r' \<Longrightarrow> seg_stream zdec xxh r' f k = seg_stream zdec xxh r f k"
proof (induction zdec xxh r f k rule: seg_stream.induct)
  case (1 zdec xxh r f k)
  have "length (sd_index r') = length (sd_index r)" using 1(2) by (simp add: same_segment_def)
  then show ?case
    using 1 same_openBlockScanner[OF 1(2)]
    by (simp add: seg_stream.simps[of _ _ _ _ k] split: sum.splits)
qed

lemma same_Read:
  assumes "same_segment r r'"
  shows "SegReader_Read zdec xxh None r' f limit = SegReader_Read zdec xxh None r f limit"
proof -
  have r: "reader_ok r" "reader_ok r'" and t: "sd_trailer r' = sd_trailer r" "sd_index r' = sd_index r"
    using assms by (auto simp: same_segment_def reader_serves_def)
  have "to_record r' = to_record r" by (simp add: fun_eq_iff to_record_def t)
  moreover have "read_stream zdec xxh r' f = read_stream zdec xxh r f"
    by (simp add: read_stream_def t same_seg_stream[OF assms] Let_def)
  ultimately show ?thesis unfolding Read_stream[OF r(1)] Read_stream[OF r(2)] by simp
qed

lemma same_find_block: "same_segment r r' \<Longrightarrow> find_block zdec xxh None r' t k = find_block zdec xxh None r t k"
proof (induction zdec xxh "None :: ctx" r t k rule: find_block.induct)
  case (1 zdec xxh r t k)
  have "sd_index r' = sd_index r" using 1(2) by (simp add: same_segment_def)
  then show ?case
    using 1 same_openBlockScanner[OF 1(2)] by (simp add: find_block.simps[of _ _ _ _ _ k] Let_def)
qed

lemma same_FindLSNByTimestamp:
  "same_segment r r' \<Longrightarrow> FindLSNByTimestamp zdec xxh None r' t = FindLSNByTimestamp zdec xxh None r t"
  by (simp add: FindLSNByTimestamp_def same_find_block same_segment_def Let_def)

lemma open_serves:
  assumes "serves store (sr_URI ref) body" "length body = unat (sr_SizeBytes ref)" "256 \<le> sr_SizeBytes ref"
    and "open_segment xxh None store ref opts borrow = Inr r"
  shows "reader_serves r body"
proof -
  note O = open_segment_Inr[OF assms(4)]
  have "sr_SizeBytes ref \<noteq> 0" using assms(3) by auto
  from trailer_extent(1)[OF O(3) this]
  show ?thesis using assms(1,2) O(1,4,5) by (simp add: reader_serves_def)
qed

lemma validateOpen_size: "validateOpen store ref opts = Inr n \<Longrightarrow> 256 \<le> sr_SizeBytes ref \<and> store \<noteq> None"
  by (auto simp: validateOpen_def split: if_splits)

end
