(* ===== verification/Seg_Packer.thy ===== *)
theory Seg_Packer
  imports Seg_Block Seg_Codec
begin

text \<open>
  Where a segment writer puts its bytes: the sink interface (\<^verbatim>\<open>internal/segwriter/sink.go\<close>), the
  in-memory sink (\<^verbatim>\<open>memory_sink.go\<close>) and the packer that keeps offset, body hash and the first
  error of a transaction (\<^verbatim>\<open>packer.go\<close>). A sink is the record of its operations over its own
  state; a transaction is a value that the operations return updated. The locale states what
  \<^verbatim>\<open>sink.go\<close> demands of implementations; the in-memory sink interprets it. Upload limiters are
  not modelled.
\<close>


section \<open>The sink interface\<close>

record Plan =
  pl_Partition :: u32
  pl_Codec :: Codec
  pl_HashAlgo :: HashAlgo
  pl_PartSize :: int
  pl_UploadParallelism :: int
  pl_UploadQueueSize :: int

record CommittedObject =
  co_URI :: string
  co_SizeBytes :: u64
  co_Token :: string

record ('x, 'k) Sink =
  sk_Begin :: "ctx \<Rightarrow> Plan \<Rightarrow> 'k \<Rightarrow> 'x res \<times> 'k"
  tx_Write :: "ctx \<Rightarrow> bytes \<Rightarrow> 'x \<Rightarrow> 'k \<Rightarrow> unit res \<times> 'x \<times> 'k"
  tx_Commit :: "ctx \<Rightarrow> 'x \<Rightarrow> 'k \<Rightarrow> CommittedObject res \<times> 'x \<times> 'k"
  tx_Abort :: "ctx \<Rightarrow> 'x \<Rightarrow> 'k \<Rightarrow> unit res \<times> 'x \<times> 'k"


section \<open>The in-memory sink\<close>

record MemorySink =
  mk_uri :: string
  mk_object :: bytes
  mk_token :: string
  mk_beginCount :: nat

record memoryTxn =
  mt_bytes :: bytes
  mt_aborted :: bool
  mt_completed :: bool

definition NewMemorySink :: "string \<Rightarrow> MemorySink" where
  "NewMemorySink uri = \<lparr>mk_uri = (if uri = [] then ''memory://segment'' else uri), mk_object = [], mk_token = [],
     mk_beginCount = 0\<rparr>"

definition MemorySink_Begin :: "ctx \<Rightarrow> Plan \<Rightarrow> MemorySink \<Rightarrow> memoryTxn res \<times> MemorySink" where
  "MemorySink_Begin ctx plan s =
     (Inr \<lparr>mt_bytes = [], mt_aborted = False, mt_completed = False\<rparr>, s\<lparr>mk_beginCount := mk_beginCount s + 1\<rparr>)"

definition memoryTxn_Write :: "ctx \<Rightarrow> bytes \<Rightarrow> memoryTxn \<Rightarrow> MemorySink \<Rightarrow> unit res \<times> memoryTxn \<times> MemorySink" where
  "memoryTxn_Write ctx bs t s =
     (case ctx of Some err \<Rightarrow> (Inl err, t, s) | None \<Rightarrow>
      if mt_aborted t then (Inl [ErrTxnAborted], t, s)
      else if mt_completed t then (Inl [ErrTxnCompleted], t, s)
      else (Inr (), t\<lparr>mt_bytes := mt_bytes t @ bs\<rparr>, s))"

definition memoryTxn_Commit :: "ctx \<Rightarrow> memoryTxn \<Rightarrow> MemorySink \<Rightarrow> CommittedObject res \<times> memoryTxn \<times> MemorySink" where
  "memoryTxn_Commit ctx t s =
     (case ctx of Some err \<Rightarrow> (Inl err, t, s) | None \<Rightarrow>
      if mt_aborted t then (Inl [ErrTxnAborted], t, s)
      else if mt_completed t then (Inl [ErrTxnCompleted], t, s)
      else let s = s\<lparr>mk_object := mt_bytes t, mk_token := ''memory-complete''\<rparr>
      in (Inr \<lparr>co_URI = mk_uri s, co_SizeBytes = of_nat (length (mt_bytes t)), co_Token = mk_token s\<rparr>,
          t\<lparr>mt_completed := True\<rparr>, s))"

definition memoryTxn_Abort :: "ctx \<Rightarrow> memoryTxn \<Rightarrow> MemorySink \<Rightarrow> unit res \<times> memoryTxn \<times> MemorySink" where
  "memoryTxn_Abort ctx t s =
     (if mt_completed t then (Inr (), t, s) else (Inr (), t\<lparr>mt_aborted := True, mt_bytes := []\<rparr>, s))"

definition MemorySink_Bytes :: "MemorySink \<Rightarrow> bytes" where
  "MemorySink_Bytes s = mk_object s"

definition memory_sink :: "(memoryTxn, MemorySink) Sink" where
  "memory_sink = \<lparr>sk_Begin = MemorySink_Begin, tx_Write = memoryTxn_Write, tx_Commit = memoryTxn_Commit,
     tx_Abort = memoryTxn_Abort\<rparr>"


section \<open>The packer\<close>

record 'x packer =
  pk_txn :: 'x
  pk_offset :: u64
  pk_firstErr :: "goerr option"
  pk_bodySealed :: bool
  pk_completed :: bool
  pk_aborted :: bool
  pk_abortErr :: "goerr option"
  pk_hashAlgo :: HashAlgo
  pk_hashed :: bytes

definition newPacker :: "'x option \<Rightarrow> HashAlgo \<Rightarrow> 'x packer res" where
  "newPacker txn hashAlgo =
     (case txn of None \<Rightarrow> Inl [WriteErrInvalidOptions] | Some x \<Rightarrow>
      bindE (map_err (Cons WriteErrInvalidOptions) (HashAlgo_Validate hashAlgo)) (\<lambda>_.
      Inr \<lparr>pk_txn = x, pk_offset = 0, pk_firstErr = None, pk_bodySealed = False, pk_completed = False,
           pk_aborted = False, pk_abortErr = None, pk_hashAlgo = hashAlgo, pk_hashed = []\<rparr>))"

definition pk_setFirstErr :: "goerr \<Rightarrow> 'x packer \<Rightarrow> 'x packer" where
  "pk_setFirstErr err p = (if pk_firstErr p = None then p\<lparr>pk_firstErr := Some err\<rparr> else p)"

definition packer_write ::
  "('x, 'k) Sink \<Rightarrow> ctx \<Rightarrow> bytes \<Rightarrow> 'x packer \<Rightarrow> 'k \<Rightarrow> unit res \<times> 'x packer \<times> 'k" where
  "packer_write S ctx bs p k =
     (if pk_completed p then (Inl [ErrPackerClosed], p, k)
      else case pk_firstErr p of Some err \<Rightarrow> (Inl err, p, k) | None \<Rightarrow>
      if pk_aborted p then (Inl [ErrPackerAborted], p, k)
      else case ctx of Some err \<Rightarrow> (Inl err, p, k) | None \<Rightarrow>
      if length bs = 0 then (Inr (), p, k)
      else (case tx_Write S ctx bs (pk_txn p) k of
         (Inl err, x, k) \<Rightarrow> (Inl err, pk_setFirstErr err (p\<lparr>pk_txn := x\<rparr>), k)
       | (Inr _, x, k) \<Rightarrow> (Inr (), p\<lparr>pk_txn := x, pk_offset := pk_offset p + of_nat (length bs)\<rparr>, k)))"

definition WriteBody ::
  "('x, 'k) Sink \<Rightarrow> ctx \<Rightarrow> bytes \<Rightarrow> 'x packer \<Rightarrow> 'k \<Rightarrow> unit res \<times> 'x packer \<times> 'k" where
  "WriteBody S ctx bs p k =
     (if pk_bodySealed p then (Inl [ErrBodySealed], p, k)
      else case packer_write S ctx bs p k of
        (Inl err, p, k) \<Rightarrow> (Inl err, p, k)
      | (Inr _, p, k) \<Rightarrow> (Inr (), p\<lparr>pk_hashed := pk_hashed p @ bs\<rparr>, k))"

definition BodyHash :: "(bytes \<Rightarrow> u64) \<Rightarrow> 'x packer \<Rightarrow> u64 \<times> 'x packer" where
  "BodyHash xxh p =
     ((if pk_hashAlgo p = HashCRC32C then ucast (crc32c (pk_hashed p)) else xxh (pk_hashed p)), p\<lparr>pk_bodySealed := True\<rparr>)"

definition WriteFinal ::
  "('x, 'k) Sink \<Rightarrow> ctx \<Rightarrow> bytes \<Rightarrow> 'x packer \<Rightarrow> 'k \<Rightarrow> unit res \<times> 'x packer \<times> 'k" where
  "WriteFinal S ctx bs p k =
     (if \<not> pk_bodySealed p then (Inl [ErrBodyNotSealed], p, k) else packer_write S ctx bs p k)"

definition packer_Abort :: "('x, 'k) Sink \<Rightarrow> ctx \<Rightarrow> 'x packer \<Rightarrow> 'k \<Rightarrow> unit res \<times> 'x packer \<times> 'k" where
  "packer_Abort S ctx p k =
     (if pk_completed p then (Inr (), p, k)
      else if pk_aborted p \<and> pk_abortErr p = None then (Inr (), p, k)
      else (case tx_Abort S ctx (pk_txn p) k of
         (Inl err, x, k) \<Rightarrow> (Inl err, p\<lparr>pk_aborted := True, pk_abortErr := Some err, pk_txn := x\<rparr>, k)
       | (Inr _, x, k) \<Rightarrow> (Inr (), p\<lparr>pk_aborted := True, pk_abortErr := None, pk_txn := x\<rparr>, k)))"

text \<open>\<^verbatim>\<open>errors.Join\<close> of an error with a result whose error, if any, is appended.\<close>

definition join_err :: "goerr \<Rightarrow> unit res \<Rightarrow> goerr" where
  "join_err err r = (case r of Inl e \<Rightarrow> err @ e | Inr _ \<Rightarrow> err)"

definition contract_failure :: "('x, 'k) Sink \<Rightarrow> ctx \<Rightarrow> 'x packer \<Rightarrow> 'k \<Rightarrow> CommittedObject res \<times> 'x packer \<times> 'k" where
  "contract_failure S cleanup p k =
     (let p = pk_setFirstErr [ErrSinkContract] p; (r, p, k) = packer_Abort S cleanup p k
      in (Inl (join_err [ErrSinkContract] r), p, k))"

definition Complete ::
  "('x, 'k) Sink \<Rightarrow> ctx \<Rightarrow> ctx \<Rightarrow> 'x packer \<Rightarrow> 'k \<Rightarrow> CommittedObject res \<times> 'x packer \<times> 'k" where
  "Complete S ctx cleanup p k =
     (if pk_completed p then (Inl [ErrPackerClosed], p, k)
      else if pk_aborted p then (Inl [ErrPackerAborted], p, k)
      else case pk_firstErr p of Some err \<Rightarrow> (Inl err, p, k) | None \<Rightarrow>
      if \<not> pk_bodySealed p then (Inl [ErrBodyNotSealed], p, k)
      else if pk_offset p = 0 then (Inl [ErrEmptyObject], p, k)
      else case ctx of Some err \<Rightarrow> (Inl err, p, k) | None \<Rightarrow>
      (case tx_Commit S ctx (pk_txn p) k of
         (Inl err, x, k) \<Rightarrow> (Inl err, p\<lparr>pk_txn := x\<rparr>, k)
       | (Inr obj, x, k) \<Rightarrow>
           let p = p\<lparr>pk_txn := x\<rparr> in
           if co_URI obj = [] then contract_failure S cleanup p k
           else if co_SizeBytes obj \<noteq> pk_offset p then contract_failure S cleanup p k
           else (Inr obj, p\<lparr>pk_completed := True\<rparr>, k)))"


section \<open>The contract of a sink\<close>

text \<open>
  A write that succeeds appends its bytes to the transaction, a commit that succeeds publishes
  exactly the bytes of the transaction under the returned name. \<open>content\<close> is what a transaction
  has accepted, \<open>published\<close> what the sink carries under a name.
\<close>

locale segment_sink =
  fixes S :: "('x, 'k) Sink"
    and content :: "'x \<Rightarrow> 'k \<Rightarrow> bytes"
    and published :: "'k \<Rightarrow> string \<Rightarrow> bytes option"
  assumes begin_empty: "sk_Begin S ctx plan k = (Inr x, k') \<Longrightarrow> content x k' = []"
    and write_appends: "tx_Write S ctx bs x k = (Inr u, x', k') \<Longrightarrow> content x' k' = content x k @ bs"
    and commit_publishes: "tx_Commit S ctx x k = (Inr obj, x', k') \<Longrightarrow> published k' (co_URI obj) = Some (content x k)"
begin

definition carries :: "'x packer \<Rightarrow> 'k \<Rightarrow> bytes \<Rightarrow> bool" where
  "carries p k bs \<longleftrightarrow> content (pk_txn p) k = bs \<and> pk_offset p = of_nat (length bs)"

lemma newPacker_carries:
  "sk_Begin S ctx plan k = (Inr x, k') \<Longrightarrow> newPacker (Some x) algo = Inr p \<Longrightarrow>
     carries p k' [] \<and> pk_hashed p = [] \<and> \<not> pk_bodySealed p \<and> pk_hashAlgo p = algo \<and> HashAlgo_Validate algo = Inr ()"
  by (auto simp: newPacker_def carries_def begin_empty)

lemma packer_write_carries:
  assumes "packer_write S ctx bs p k = (Inr u, p', k')" "carries p k w"
  shows "carries p' k' (w @ bs)" "pk_hashed p' = pk_hashed p" "pk_bodySealed p' = pk_bodySealed p" "pk_hashAlgo p' = pk_hashAlgo p"
  using assms
  by (auto simp: packer_write_def carries_def split: if_splits option.splits sum.splits prod.splits dest: write_appends)

lemma WriteBody_carries:
  assumes "WriteBody S ctx bs p k = (Inr u, p', k')" "carries p k w"
  shows "carries p' k' (w @ bs)" "pk_hashed p' = pk_hashed p @ bs" "\<not> pk_bodySealed p'" "pk_hashAlgo p' = pk_hashAlgo p"
proof -
  obtain q where q: "packer_write S ctx bs p k = (Inr (), q, k')" "p' = q\<lparr>pk_hashed := pk_hashed q @ bs\<rparr>" "\<not> pk_bodySealed p"
    using assms(1) by (auto simp: WriteBody_def split: if_splits sum.splits prod.splits)
  note W = packer_write_carries[OF q(1) assms(2)]
  show "carries p' k' (w @ bs)" using W(1) by (simp add: q(2) carries_def)
  show "pk_hashed p' = pk_hashed p @ bs" "\<not> pk_bodySealed p'" "pk_hashAlgo p' = pk_hashAlgo p" using W(2-4) q(2,3) by simp_all
qed

lemma WriteFinal_carries:
  "WriteFinal S ctx bs p k = (Inr u, p', k') \<Longrightarrow> carries p k w \<Longrightarrow> carries p' k' (w @ bs)"
  by (auto simp: WriteFinal_def dest: packer_write_carries(1) split: if_splits)

lemma Complete_publishes:
  assumes "Complete S ctx cleanup p k = (Inr obj, p', k')" "carries p k w"
  shows "published k' (co_URI obj) = Some w" "co_SizeBytes obj = of_nat (length w)" "co_URI obj \<noteq> []"
  using assms
  by (auto simp: Complete_def carries_def contract_failure_def Let_def split: if_splits option.splits sum.splits prod.splits
      dest: commit_publishes)

end

interpretation msink: segment_sink memory_sink "\<lambda>x k. mt_bytes x" "\<lambda>k uri. if uri = mk_uri k then Some (mk_object k) else None"
  by unfold_locales
    (auto simp: memory_sink_def MemorySink_Begin_def memoryTxn_Write_def memoryTxn_Commit_def Let_def
      split: option.splits if_splits)

end
