(* ===== verification/Seg_Writer.thy ===== *)
theory Seg_Writer
  imports Seg_Packer
begin

text \<open>
  The segment writer (\<^verbatim>\<open>internal/segwriter/writer.go\<close>, \<^verbatim>\<open>encode.go\<close>). The owner appends
  records to a block buffer and hands full buffers to a pipeline: workers take a buffer from the
  channel of jobs, seal it and post the result; one emitter takes results in any order and writes
  them in sequence. The state holds the channels, what the workers are busy with and what the
  emitter waits for. A step of the pipeline is a step of the relation \<open>bg\<close>. The owner's
  operations are functions; wherever they wait they first let the pipeline run as a schedule
  \<open>\<sigma>\<close> says, indexed by the number of waits so far, and a wait that would never end is
  \<open>None\<close>. Contexts are asked at every call: the emitter's through \<open>c\<close>, indexed by the
  call.
\<close>


section \<open>Options and records\<close>

definition DefaultTargetBlockSize :: int where "DefaultTargetBlockSize = 1048576"
definition DefaultPartSize :: int where "DefaultPartSize = 8388608"
definition DefaultUploadParallelism :: int where "DefaultUploadParallelism = 2"

record SegWriterOptions =
  wo_Partition :: u32
  wo_Codec :: Codec
  wo_HashAlgo :: HashAlgo
  wo_TargetBlockSize :: int
  wo_PartSize :: int
  wo_SealParallelism :: int
  wo_BlockBufferCount :: int
  wo_UploadParallelism :: int
  wo_UploadQueueSize :: int
  wo_SegmentUUID :: bytes16
  wo_WriterTag :: bytes16
  wo_CreatedUnixMS :: i64

record WriterRecord =
  wc_LSN :: u64
  wc_TimestampMS :: i64
  wc_Headers :: "Header list"
  wc_Value :: bytes

record Metadata =
  md_Partition :: u32
  md_BaseLSN :: u64
  md_LastLSN :: u64
  md_MinTimestampMS :: i64
  md_MaxTimestampMS :: i64
  md_RecordCount :: u32
  md_BlockCount :: u32
  md_SizeBytes :: u64
  md_BlockIndexOffset :: u64
  md_BlockIndexLength :: u32
  md_SegmentUUID :: bytes16
  md_Codec :: Codec
  md_HashAlgo :: HashAlgo
  md_SegmentHash :: u64
  md_TrailerHash :: u64

record WriterResult =
  wq_Metadata :: Metadata
  wq_Object :: CommittedObject
  wq_Trailer :: SegTrailer

definition defaultSealParallelism :: "int \<Rightarrow> int" where
  "defaultSealParallelism numCPU =
     (let n = numCPU; n = (if n > 4 then 4 else n) in if n < 1 then 1 else n)"

definition isZero16 :: "bytes16 \<Rightarrow> bool" where
  "isZero16 v \<longleftrightarrow> v = 0"

text \<open>The sums of a Go \<^verbatim>\<open>int\<close>, which has 64 bits, wrap around.\<close>

definition go_int :: "int \<Rightarrow> int" where
  "go_int i = sint (word_of_int i :: i64)"

text \<open>The processor count, the random identifier and the clock are arguments.\<close>

definition SegWriter_normalizeOptions ::
  "int \<Rightarrow> bytes16 res \<Rightarrow> i64 \<Rightarrow> SegWriterOptions \<Rightarrow> SegWriterOptions res" where
  "SegWriter_normalizeOptions numCPU rand now opts =
     bindE (map_err (Cons WriteErrInvalidOptions) (Codec_Validate (wo_Codec opts))) (\<lambda>_.
     bindE (map_err (Cons WriteErrInvalidOptions) (HashAlgo_Validate (wo_HashAlgo opts))) (\<lambda>_.
     let target = (if wo_TargetBlockSize opts \<le> 0 then DefaultTargetBlockSize else wo_TargetBlockSize opts);
         target = (if target > int MaxRawBlockSize then int MaxRawBlockSize else target);
         partSize = (if wo_PartSize opts \<le> 0 then DefaultPartSize else wo_PartSize opts);
         seal = (if wo_SealParallelism opts \<le> 0 then defaultSealParallelism numCPU else wo_SealParallelism opts);
         buffers = (if wo_BlockBufferCount opts \<le> 0 then go_int (2 * seal + 1) else wo_BlockBufferCount opts);
         buffers = (if buffers < go_int (seal + 1) then go_int (seal + 1) else buffers);
         upload = (if wo_UploadParallelism opts \<le> 0 then DefaultUploadParallelism else wo_UploadParallelism opts);
         queue = (if wo_UploadQueueSize opts \<le> 0 then upload else wo_UploadQueueSize opts)
     in bindE (if isZero16 (wo_SegmentUUID opts) then map_err (Cons WriteErrInvalidOptions) rand
               else Inr (wo_SegmentUUID opts)) (\<lambda>uuid.
        Inr (opts\<lparr>wo_TargetBlockSize := target, wo_PartSize := partSize, wo_SealParallelism := seal,
          wo_BlockBufferCount := buffers, wo_UploadParallelism := upload, wo_UploadQueueSize := queue,
          wo_SegmentUUID := uuid, wo_CreatedUnixMS := (if wo_CreatedUnixMS opts = 0 then now else wo_CreatedUnixMS opts)\<rparr>))))"


section \<open>Block buffers\<close>

record blockBuffer =
  bb_Seq :: u64
  bb_Raw :: bytes
  bb_BaseLSN :: u64
  bb_RecordCount :: u32
  bb_MinTimestampMS :: i64
  bb_MaxTimestampMS :: i64

definition empty_buffer :: blockBuffer where
  "empty_buffer = \<lparr>bb_Seq = 0, bb_Raw = [], bb_BaseLSN = 0, bb_RecordCount = 0, bb_MinTimestampMS = 0,
     bb_MaxTimestampMS = 0\<rparr>"

definition CanAppend :: "blockBuffer \<Rightarrow> nat \<Rightarrow> int \<Rightarrow> bool" where
  "CanAppend b recordSize targetBlockSize =
     (if recordSize = 0 \<or> recordSize > MaxRawBlockSize then False
      else let nextSize = length (bb_Raw b) + recordSize
      in if nextSize > MaxRawBlockSize then False
      else if length (bb_Raw b) = 0 then True
      else int nextSize \<le> targetBlockSize)"

definition raw_record :: "WriterRecord \<Rightarrow> RawRecord" where
  "raw_record r = \<lparr>rr_TimestampMS = wc_TimestampMS r, rr_Headers = wc_Headers r, rr_Value = wc_Value r\<rparr>"

definition blockBuffer_Append :: "blockBuffer \<Rightarrow> WriterRecord \<Rightarrow> blockBuffer res" where
  "blockBuffer_Append b r =
     bindE (RecordSize (wc_Headers r) (wc_Value r)) (\<lambda>recordSize.
     if \<not> CanAppend b recordSize (int MaxRawBlockSize) then Inl [SegErrBlockTooLarge]
     else if bb_RecordCount b \<noteq> 0 \<and> sint (wc_TimestampMS r) < sint (bb_MaxTimestampMS b)
       then Inl [WriteErrTimestampOrder]
     else let b = (if bb_RecordCount b = 0
                   then b\<lparr>bb_BaseLSN := wc_LSN r, bb_MinTimestampMS := wc_TimestampMS r\<rparr> else b);
              b = b\<lparr>bb_MaxTimestampMS := wc_TimestampMS r\<rparr>
     in bindE (AppendRawRecord (bb_Raw b) (raw_record r)) (\<lambda>raw.
        Inr (b\<lparr>bb_Raw := raw, bb_RecordCount := bb_RecordCount b + 1\<rparr>)))"

definition blockBuffer_Meta :: "blockBuffer \<Rightarrow> Meta" where
  "blockBuffer_Meta b = \<lparr>me_BaseLSN = bb_BaseLSN b, me_RecordCount = bb_RecordCount b,
     me_MinTimestampMS = bb_MinTimestampMS b, me_MaxTimestampMS = bb_MaxTimestampMS b\<rparr>"


section \<open>State\<close>

record sealedBlockResult =
  sb_Seq :: u64
  sb_Sealed :: "Sealed res"

text \<open>
  Buffers carry nothing once they are reset, so the channel of free buffers is their number. The
  emitter's map of waiting results is an association list, and \<open>wr_emitting\<close> says that it is in
  its inner loop. \<open>wr_tick\<close> counts the owner's waits.
\<close>

record ('x, 'k) Writer =
  wr_opts :: SegWriterOptions
  wr_freeBuffers :: nat
  wr_sealJobs :: "blockBuffer list"
  wr_jobsClosed :: bool
  wr_sealing :: "blockBuffer list"
  wr_sealedOut :: "sealedBlockResult list"
  wr_workers :: nat
  wr_pending :: "(u64 \<times> Sealed) list"
  wr_emitting :: bool
  wr_nextEmit :: u64
  wr_index :: "BlockIndexEntry list"
  wr_packer :: "'x packer option"
  wr_active :: "blockBuffer option"
  wr_hasRecords :: bool
  wr_closed :: bool
  wr_aborted :: bool
  wr_firstErr :: "goerr option"
  wr_baseLSN :: u64
  wr_nextLSN :: u64
  wr_recordCount :: u32
  wr_minTimestampMS :: i64
  wr_maxTimestampMS :: i64
  wr_nextSeq :: u64
  wr_sink :: 'k
  wr_tick :: nat

definition isDirectContextCancellation :: "goerr \<Rightarrow> bool" where
  "isDirectContextCancellation err \<longleftrightarrow> err = [ContextCanceled] \<or> err = [DeadlineExceeded]"

definition wr_setFirstErr :: "goerr \<Rightarrow> ('x, 'k) Writer \<Rightarrow> ('x, 'k) Writer" where
  "wr_setFirstErr err w =
     (case wr_firstErr w of
        None \<Rightarrow> w\<lparr>wr_firstErr := Some err\<rparr>
      | Some e \<Rightarrow>
          if isDirectContextCancellation e \<and> \<not> isDirectContextCancellation err
          then w\<lparr>wr_firstErr := Some (err @ e)\<rparr> else w)"

text \<open>Making a channel of a negative size panics.\<close>

definition SegWriter_New ::
  "int \<Rightarrow> bytes16 res \<Rightarrow> i64 \<Rightarrow> SegWriterOptions \<Rightarrow> 'k option \<Rightarrow> ('x, 'k) Writer res" where
  "SegWriter_New numCPU rand now opts sink =
     (case sink of None \<Rightarrow> Inl [WriteErrInvalidOptions] | Some k \<Rightarrow>
      bindE (SegWriter_normalizeOptions numCPU rand now opts) (\<lambda>normalized.
      if wo_BlockBufferCount normalized < 0 then Inl [GoPanic] else
      Inr \<lparr>wr_opts = normalized, wr_freeBuffers = nat (wo_BlockBufferCount normalized) - 1, wr_sealJobs = [],
           wr_jobsClosed = False, wr_sealing = [], wr_sealedOut = [], wr_workers = nat (wo_SealParallelism normalized), wr_pending = [],
           wr_emitting = False, wr_nextEmit = 0, wr_index = [], wr_packer = None, wr_active = Some empty_buffer, wr_hasRecords = False,
           wr_closed = False, wr_aborted = False, wr_firstErr = None, wr_baseLSN = 0, wr_nextLSN = 0,
           wr_recordCount = 0, wr_minTimestampMS = 0, wr_maxTimestampMS = 0, wr_nextSeq = 0, wr_sink = k, wr_tick = 0\<rparr>))"


text \<open>What every accepted set of options looks like.\<close>

definition options_ok :: "SegWriterOptions \<Rightarrow> bool" where
  "options_ok opts \<longleftrightarrow> Codec_Validate (wo_Codec opts) = Inr () \<and> HashAlgo_Validate (wo_HashAlgo opts) = Inr ()
     \<and> 0 < wo_TargetBlockSize opts \<and> wo_TargetBlockSize opts \<le> int MaxRawBlockSize \<and> 0 < wo_PartSize opts
     \<and> 0 < wo_SealParallelism opts \<and> 0 < wo_UploadParallelism opts \<and> 0 < wo_UploadQueueSize opts"

lemma normalizeOptions_ok:
  assumes "SegWriter_normalizeOptions numCPU rand now opts = Inr opts'"
  shows "options_ok opts'"
proof -
  obtain uuid where o': "Codec_Validate (wo_Codec opts) = Inr ()" "HashAlgo_Validate (wo_HashAlgo opts) = Inr ()"
    "opts' = opts\<lparr>wo_TargetBlockSize := wo_TargetBlockSize opts', wo_PartSize := wo_PartSize opts',
       wo_SealParallelism := wo_SealParallelism opts', wo_BlockBufferCount := wo_BlockBufferCount opts',
       wo_UploadParallelism := wo_UploadParallelism opts', wo_UploadQueueSize := wo_UploadQueueSize opts',
       wo_SegmentUUID := uuid, wo_CreatedUnixMS := wo_CreatedUnixMS opts'\<rparr>"
    using assms by (auto simp: SegWriter_normalizeOptions_def Let_def map_err_def split del: if_split split: sum.splits)
  have "0 < wo_TargetBlockSize opts' \<and> wo_TargetBlockSize opts' \<le> int MaxRawBlockSize" "0 < wo_PartSize opts'"
    "0 < wo_SealParallelism opts'" "0 < wo_UploadParallelism opts'" "0 < wo_UploadQueueSize opts'"
    using assms
    by (auto simp: SegWriter_normalizeOptions_def Let_def defaultSealParallelism_def DefaultTargetBlockSize_def
        DefaultPartSize_def DefaultUploadParallelism_def MaxRawBlockSize_def)
  moreover have "wo_Codec opts' = wo_Codec opts" "wo_HashAlgo opts' = wo_HashAlgo opts" by (subst o'(3); simp)+
  ultimately show ?thesis using o'(1,2) by (simp add: options_ok_def)
qed

lemma go_int_id: "- 9223372036854775808 \<le> i \<Longrightarrow> i < 9223372036854775808 \<Longrightarrow> go_int i = i"
  by (simp add: go_int_def sint_sbintrunc' signed_take_bit_int_eq_self)

text \<open>
  There are more buffers than workers, unless the largest integer was asked for as the number of
  workers, where the next one wraps around.
\<close>

lemma normalizeOptions_buffers:
  assumes "SegWriter_normalizeOptions numCPU rand now opts = Inr opts'" "wo_SealParallelism opts < 9223372036854775807"
  shows "wo_SealParallelism opts' < wo_BlockBufferCount opts'"
proof -
  let ?s = "wo_SealParallelism opts'"
  have s: "?s = (if wo_SealParallelism opts \<le> 0 then defaultSealParallelism numCPU else wo_SealParallelism opts)"
    using assms(1) by (auto simp: SegWriter_normalizeOptions_def Let_def)
  have "0 < ?s" "?s < 9223372036854775807" unfolding s using assms(2) by (auto simp: defaultSealParallelism_def)
  then have "go_int (?s + 1) = ?s + 1" by (intro go_int_id) simp_all
  moreover have "go_int (?s + 1) \<le> wo_BlockBufferCount opts'"
    using assms(1) by (auto simp: SegWriter_normalizeOptions_def Let_def not_less)
  ultimately show ?thesis by simp
qed


section \<open>The emitter\<close>

definition file_preamble :: "SegWriterOptions \<Rightarrow> u64 \<Rightarrow> FilePreamble" where
  "file_preamble opts baseLSN =
     \<lparr>fp_Flags = 0, fp_Partition = wo_Partition opts, fp_Codec = wo_Codec opts, fp_HashAlgo = wo_HashAlgo opts,
      fp_RecordFormat = RecordFormatV1, fp_BaseLSN = baseLSN, fp_SegmentUUID = wo_SegmentUUID opts,
      fp_WriterTag = wo_WriterTag opts\<rparr>"

definition begin_plan :: "SegWriterOptions \<Rightarrow> Plan" where
  "begin_plan opts =
     \<lparr>pl_Partition = wo_Partition opts, pl_Codec = wo_Codec opts, pl_HashAlgo = wo_HashAlgo opts,
      pl_PartSize = wo_PartSize opts, pl_UploadParallelism = wo_UploadParallelism opts,
      pl_UploadQueueSize = wo_UploadQueueSize opts\<rparr>"

text \<open>A failed start aborts the transaction as well as it can and reports both errors.\<close>

definition ensurePacker ::
  "('x, 'k) Sink \<Rightarrow> (nat \<Rightarrow> ctx) \<Rightarrow> ('x, 'k) Writer \<Rightarrow> 'x packer res \<times> ('x, 'k) Writer" where
  "ensurePacker S c w =
     (case wr_packer w of Some p \<Rightarrow> (Inr p, w) | None \<Rightarrow>
      case c 0 of Some err \<Rightarrow> (Inl err, w) | None \<Rightarrow>
      (case sk_Begin S (c 1) (begin_plan (wr_opts w)) (wr_sink w) of
         (Inl err, k) \<Rightarrow> (Inl err, w\<lparr>wr_sink := k\<rparr>)
       | (Inr txn, k) \<Rightarrow>
         (case newPacker (Some txn) (wo_HashAlgo (wr_opts w)) of
            Inl err \<Rightarrow> (case tx_Abort S (c 2) txn k of (r, _, k) \<Rightarrow> (Inl (join_err err r), w\<lparr>wr_sink := k\<rparr>))
          | Inr p \<Rightarrow>
            (case FilePreamble_MarshalBinary (file_preamble (wr_opts w) (wr_baseLSN w)) of
               Inl err \<Rightarrow> (case packer_Abort S (c 2) p k of (r, _, k) \<Rightarrow> (Inl (join_err err r), w\<lparr>wr_sink := k\<rparr>))
             | Inr preamble \<Rightarrow>
               (case WriteBody S (c 3) preamble p k of
                  (Inl err, p, k) \<Rightarrow>
                    (case packer_Abort S (c 2) p k of (r, _, k) \<Rightarrow> (Inl (join_err err r), w\<lparr>wr_sink := k\<rparr>))
                | (Inr _, p, k) \<Rightarrow> (Inr p, w\<lparr>wr_packer := Some p, wr_sink := k\<rparr>))))))"

definition index_entry :: "u64 \<Rightarrow> BlockPreamble \<Rightarrow> BlockIndexEntry" where
  "index_entry blockOffset p =
     \<lparr>bi_BlockOffset = blockOffset, bi_StoredSize = bp_StoredSize p, bi_RawSize = bp_RawSize p,
      bi_RecordCount = bp_RecordCount p, bi_BaseLSN = bp_BaseLSN p, bi_MinTimestampMS = bp_MinTimestampMS p,
      bi_MaxTimestampMS = bp_MaxTimestampMS p, bi_BlockHash = bp_BlockHash p\<rparr>"

definition emitSealed ::
  "('x, 'k) Sink \<Rightarrow> (nat \<Rightarrow> ctx) \<Rightarrow> Sealed \<Rightarrow> ('x, 'k) Writer \<Rightarrow> BlockIndexEntry res \<times> ('x, 'k) Writer" where
  "emitSealed S c sealed w =
     (case ensurePacker S c w of (Inl err, w) \<Rightarrow> (Inl err, w) | (Inr p, w) \<Rightarrow>
      let blockOffset = pk_offset p in
      (case BlockPreamble_MarshalBinary (sl_Preamble sealed) of Inl err \<Rightarrow> (Inl err, w) | Inr preambleBytes \<Rightarrow>
       (case WriteBody S (c 4) preambleBytes p (wr_sink w) of
          (Inl err, p, k) \<Rightarrow> (Inl err, w\<lparr>wr_packer := Some p, wr_sink := k\<rparr>)
        | (Inr _, p, k) \<Rightarrow>
          (case WriteBody S (c 5) (sl_Stored sealed) p k of
             (Inl err, p, k) \<Rightarrow> (Inl err, w\<lparr>wr_packer := Some p, wr_sink := k\<rparr>)
           | (Inr _, p, k) \<Rightarrow>
             (Inr (index_entry blockOffset (sl_Preamble sealed)), w\<lparr>wr_packer := Some p, wr_sink := k\<rparr>)))))"

text \<open>
  The writer's own context is done once an error is recorded or the writer is closed. A buffer goes
  back to the channel of free buffers, which has room for all of them; once the context is done
  the select may take that branch instead and drop the buffer (\<open>keep\<close> is the choice, and
  \<open>kept\<close> the number of waiting buffers that went back).
\<close>

definition wr_done :: "('x, 'k) Writer \<Rightarrow> bool" where
  "wr_done w \<longleftrightarrow> wr_firstErr w \<noteq> None \<or> wr_closed w"

definition return_buffer :: "bool \<Rightarrow> ('x, 'k) Writer \<Rightarrow> ('x, 'k) Writer" where
  "return_buffer keep w = (if keep \<or> \<not> wr_done w then w\<lparr>wr_freeBuffers := wr_freeBuffers w + 1\<rparr> else w)"

definition returnPending :: "nat \<Rightarrow> ('x, 'k) Writer \<Rightarrow> ('x, 'k) Writer" where
  "returnPending kept w =
     w\<lparr>wr_freeBuffers := wr_freeBuffers w + (if wr_done w then min kept (length (wr_pending w)) else length (wr_pending w)),
       wr_pending := []\<rparr>"

lemma return_buffer_fields [simp]:
  "wr_packer (return_buffer d w) = wr_packer w"
  "wr_index (return_buffer d w) = wr_index w"
  "wr_sink (return_buffer d w) = wr_sink w"
  "wr_firstErr (return_buffer d w) = wr_firstErr w"
  "wr_nextEmit (return_buffer d w) = wr_nextEmit w"
  "wr_pending (return_buffer d w) = wr_pending w"
  "wr_emitting (return_buffer d w) = wr_emitting w"
  "wr_opts (return_buffer d w) = wr_opts w"
  "wr_workers (return_buffer d w) = wr_workers w"
  "wr_sealJobs (return_buffer d w) = wr_sealJobs w"
  "wr_sealing (return_buffer d w) = wr_sealing w"
  "wr_sealedOut (return_buffer d w) = wr_sealedOut w"
  "wr_active (return_buffer d w) = wr_active w"
  "wr_closed (return_buffer d w) = wr_closed w"
  "wr_baseLSN (return_buffer d w) = wr_baseLSN w"
  by (simp_all add: return_buffer_def)

lemma returnPending_fields [simp]:
  "wr_pending (returnPending n w) = []"
  "wr_packer (returnPending n w) = wr_packer w"
  "wr_index (returnPending n w) = wr_index w"
  "wr_sink (returnPending n w) = wr_sink w"
  "wr_firstErr (returnPending n w) = wr_firstErr w"
  "wr_nextEmit (returnPending n w) = wr_nextEmit w"
  "wr_emitting (returnPending n w) = wr_emitting w"
  "wr_opts (returnPending n w) = wr_opts w"
  "wr_workers (returnPending n w) = wr_workers w"
  "wr_sealJobs (returnPending n w) = wr_sealJobs w"
  "wr_sealing (returnPending n w) = wr_sealing w"
  "wr_sealedOut (returnPending n w) = wr_sealedOut w"
  "wr_active (returnPending n w) = wr_active w"
  "wr_closed (returnPending n w) = wr_closed w"
  "wr_baseLSN (returnPending n w) = wr_baseLSN w"
  by (simp_all add: returnPending_def)

lemma ensurePacker_frame:
  "ensurePacker S c w = (r, w') \<Longrightarrow> w'\<lparr>wr_packer := p, wr_sink := k\<rparr> = w\<lparr>wr_packer := p, wr_sink := k\<rparr>"
  unfolding ensurePacker_def by (auto split: option.splits sum.splits prod.splits)

lemma emitSealed_frame:
  assumes "emitSealed S c sealed w = (r, w')"
  shows "w'\<lparr>wr_packer := p, wr_sink := k\<rparr> = w\<lparr>wr_packer := p, wr_sink := k\<rparr>"
proof -
  obtain r1 w1 where e: "ensurePacker S c w = (r1, w1)" by fastforce
  have "w'\<lparr>wr_packer := p, wr_sink := k\<rparr> = w1\<lparr>wr_packer := p, wr_sink := k\<rparr>"
    using assms unfolding emitSealed_def e by (auto simp: Let_def split: sum.splits prod.splits)
  then show ?thesis using ensurePacker_frame[OF e, where p = p and k = k] by simp
qed

lemma emitSealed_fields:
  assumes "emitSealed S c sealed w = (r, w')"
  shows "wr_pending w' = wr_pending w" "wr_nextEmit w' = wr_nextEmit w" "wr_index w' = wr_index w"
    "wr_firstErr w' = wr_firstErr w"
proof -
  have e: "w'\<lparr>wr_packer := None, wr_sink := wr_sink w\<rparr> = w\<lparr>wr_packer := None, wr_sink := wr_sink w\<rparr>"
    by (rule emitSealed_frame[OF assms])
  show "wr_pending w' = wr_pending w" "wr_nextEmit w' = wr_nextEmit w" "wr_index w' = wr_index w"
    "wr_firstErr w' = wr_firstErr w"
    using arg_cong[OF e, of wr_pending] arg_cong[OF e, of wr_nextEmit] arg_cong[OF e, of wr_index]
      arg_cong[OF e, of wr_firstErr] by simp_all
qed

lemma remove_key_decreases:
  assumes "map_of (wr_pending w) (wr_nextEmit w) = Some sealed"
  shows "length (filter (\<lambda>e. fst e \<noteq> wr_nextEmit w) (wr_pending w)) < length (wr_pending w)"
  using map_of_SomeD[OF assms] by (intro length_filter_less) auto

text \<open>
  The emitter receives a result: one that failed, or that comes after an error, only gives its
  buffer back; the others wait in the map and the inner loop starts.
\<close>

definition emitter_receive :: "bool \<Rightarrow> sealedBlockResult \<Rightarrow> ('x, 'k) Writer \<Rightarrow> ('x, 'k) Writer" where
  "emitter_receive keep result w =
     (case sb_Sealed result of
        Inl err \<Rightarrow> return_buffer keep (wr_setFirstErr err w)
      | Inr sealed \<Rightarrow>
          if wr_firstErr w \<noteq> None then return_buffer keep w
          else w\<lparr>wr_pending := (sb_Seq result, sealed) # filter (\<lambda>e. fst e \<noteq> sb_Seq result) (wr_pending w),
                 wr_emitting := True\<rparr>)"

text \<open>
  One iteration of the inner loop: if the next block in sequence is there it is written, and the
  loop ends when it is not there or when an error was recorded.
\<close>

definition emitter_iterate ::
  "('x, 'k) Sink \<Rightarrow> (nat \<Rightarrow> ctx) \<Rightarrow> bool \<Rightarrow> nat \<Rightarrow> ('x, 'k) Writer \<Rightarrow> ('x, 'k) Writer" where
  "emitter_iterate S c keep kept w =
     (if wr_firstErr w \<noteq> None then (returnPending kept w)\<lparr>wr_emitting := False\<rparr>
      else case map_of (wr_pending w) (wr_nextEmit w) of
        None \<Rightarrow> w\<lparr>wr_emitting := False\<rparr>
      | Some sealed \<Rightarrow>
          let w' = w\<lparr>wr_pending := filter (\<lambda>e. fst e \<noteq> wr_nextEmit w) (wr_pending w)\<rparr>
          in case emitSealed S c sealed w' of
            (Inl err, w') \<Rightarrow> (returnPending kept (wr_setFirstErr err (return_buffer keep w')))\<lparr>wr_emitting := False\<rparr>
          | (Inr entry, w') \<Rightarrow>
              return_buffer keep (w'\<lparr>wr_index := wr_index w' @ [entry], wr_nextEmit := wr_nextEmit w' + 1\<rparr>))"


section \<open>The pipeline\<close>

definition seal_buffer :: "(bytes \<Rightarrow> bytes) \<Rightarrow> (bytes \<Rightarrow> u64) \<Rightarrow> SegWriterOptions \<Rightarrow> blockBuffer \<Rightarrow> Sealed res" where
  "seal_buffer zenc xxh opts b = SealOwned zenc xxh (wo_Codec opts) (wo_HashAlgo opts) (bb_Raw b) (blockBuffer_Meta b)"

definition record_seal :: "Sealed res \<Rightarrow> ('x, 'k) Writer \<Rightarrow> ('x, 'k) Writer" where
  "record_seal r w = (case r of Inl err \<Rightarrow> wr_setFirstErr err w | Inr _ \<Rightarrow> w)"

text \<open>
  A worker takes a job; it seals the buffer and posts the result, and stops if sealing failed; once
  the writer is cancelled it may also stop without posting. The emitter receives a result or goes
  on with its inner loop, so that workers and errors come between any two blocks it writes. With
  \<open>cancels\<close> a context may be cancelled: the ones the emitter passes to the sink, and the one
  of the owner, whose error is recorded at any moment.
\<close>

inductive bg ::
  "bool \<Rightarrow> ('x, 'k) Sink \<Rightarrow> (bytes \<Rightarrow> bytes) \<Rightarrow> (bytes \<Rightarrow> u64) \<Rightarrow> ('x, 'k) Writer \<Rightarrow> ('x, 'k) Writer \<Rightarrow> bool"
  for cancels S zenc xxh where
  take_job: "wr_sealJobs w = b # jobs \<Longrightarrow> length (wr_sealing w) < wr_workers w \<Longrightarrow>
    bg cancels S zenc xxh w (w\<lparr>wr_sealJobs := jobs, wr_sealing := wr_sealing w @ [b]\<rparr>)"
| post: "wr_sealing w = xs @ b # ys \<Longrightarrow> r = seal_buffer zenc xxh (wr_opts w) b \<Longrightarrow>
    bg cancels S zenc xxh w (record_seal r (w\<lparr>wr_sealing := xs @ ys,
      wr_sealedOut := wr_sealedOut w @ [\<lparr>sb_Seq = bb_Seq b, sb_Sealed = r\<rparr>],
      wr_workers := (case r of Inl _ \<Rightarrow> wr_workers w - 1 | Inr _ \<Rightarrow> wr_workers w)\<rparr>))"
| stop: "wr_sealing w = xs @ b # ys \<Longrightarrow> r = seal_buffer zenc xxh (wr_opts w) b \<Longrightarrow>
    wr_firstErr (record_seal r w) \<noteq> None \<Longrightarrow>
    bg cancels S zenc xxh w (record_seal r (w\<lparr>wr_sealing := xs @ ys, wr_workers := wr_workers w - 1\<rparr>))"
| receive: "\<not> wr_emitting w \<Longrightarrow> wr_sealedOut w = result # rest \<Longrightarrow>
    bg cancels S zenc xxh w (emitter_receive keep result (w\<lparr>wr_sealedOut := rest\<rparr>))"
| iterate: "wr_emitting w \<Longrightarrow> cancels \<or> c = (\<lambda>_. None) \<Longrightarrow>
    bg cancels S zenc xxh w (emitter_iterate S c keep kept w)"
| cancel: "cancels \<Longrightarrow> bg cancels S zenc xxh w (wr_setFirstErr err w)"

inductive_cases bgE: "bg cancels S zenc xxh w w'"

lemma bg_mono: "bg False S zenc xxh w w' \<Longrightarrow> bg cancels S zenc xxh w w'"
  by (induction rule: bg.induct) (simp_all add: bg.intros del: One_nat_def)

text \<open>
  A schedule says how the pipeline runs before each wait of the owner and which of the ready
  branches of a \<^verbatim>\<open>select\<close> is taken.
\<close>

type_synonym ('x, 'k) schedule = "nat \<Rightarrow> (('x, 'k) Writer \<Rightarrow> ('x, 'k) Writer) \<times> nat"

definition follows :: "('x, 'k) Sink \<Rightarrow> (bytes \<Rightarrow> bytes) \<Rightarrow> (bytes \<Rightarrow> u64) \<Rightarrow> ('x, 'k) schedule \<Rightarrow> bool" where
  "follows S zenc xxh \<sigma> \<longleftrightarrow> (\<forall>n w. (bg True S zenc xxh)\<^sup>*\<^sup>* w (fst (\<sigma> n) w))"

definition wait :: "('x, 'k) schedule \<Rightarrow> ('x, 'k) Writer \<Rightarrow> ('x, 'k) Writer" where
  "wait \<sigma> w = (fst (\<sigma> (wr_tick w)) w)\<lparr>wr_tick := wr_tick w + 1\<rparr>"

definition select :: "nat \<Rightarrow> 'a option list \<Rightarrow> 'a option" where
  "select n cases =
     (let ready = map the (filter (\<lambda>x. x \<noteq> None) cases)
      in if ready = [] then None else Some (ready ! (n mod length ready)))"

lemma select_cases: "select n cases = Some x \<Longrightarrow> Some x \<in> set cases"
proof -
  assume s: "select n cases = Some x"
  let ?ready = "map the (filter (\<lambda>x. x \<noteq> None) cases)"
  have "?ready \<noteq> []" "x = ?ready ! (n mod length ?ready)"
    using s by (auto simp: select_def Let_def split: if_splits)
  then have "x \<in> set ?ready" by (metis length_greater_0_conv mod_less_divisor nth_mem)
  then show "Some x \<in> set cases" by auto
qed


section \<open>The owner's operations\<close>

definition appendCancellation :: "goerr \<Rightarrow> ('x, 'k) Writer \<Rightarrow> goerr" where
  "appendCancellation ctxErr w =
     (case wr_firstErr w of Some err \<Rightarrow> err
      | None \<Rightarrow> if wr_aborted w then [ErrWriterAborted] else ErrAppendNotAccepted # ctxErr)"

text \<open>The two branches of a select that watch the caller's context and the writer's own.\<close>

definition cancel_branches :: "ctx \<Rightarrow> ('x, 'k) Writer \<Rightarrow> (unit res \<times> ('x, 'k) Writer) option list" where
  "cancel_branches ctx w =
     [case ctx of None \<Rightarrow> None | Some err \<Rightarrow> Some (Inl (appendCancellation err w), w),
      if wr_done w
      then Some (Inl (case wr_firstErr w of Some err \<Rightarrow> err | None \<Rightarrow> [ErrWriterAborted]), w) else None]"

definition takeFreeBuffer ::
  "('x, 'k) schedule \<Rightarrow> ctx \<Rightarrow> ('x, 'k) Writer \<Rightarrow> (unit res \<times> ('x, 'k) Writer) option" where
  "takeFreeBuffer \<sigma> ctx w =
     (let n = snd (\<sigma> (wr_tick w)); w = wait \<sigma> w
      in select n ((if wr_freeBuffers w > 0
           then Some (Inr (), w\<lparr>wr_active := Some empty_buffer, wr_freeBuffers := wr_freeBuffers w - 1\<rparr>) else None)
         # cancel_branches ctx w))"

definition enqueueActive ::
  "('x, 'k) schedule \<Rightarrow> ctx \<Rightarrow> ('x, 'k) Writer \<Rightarrow> (unit res \<times> ('x, 'k) Writer) option" where
  "enqueueActive \<sigma> ctx w =
     (case wr_active w of None \<Rightarrow> Some (Inr (), w) | Some buf \<Rightarrow>
      if length (bb_Raw buf) = 0 then Some (Inr (), w)
      else let buf = buf\<lparr>bb_Seq := wr_nextSeq w\<rparr>; n = snd (\<sigma> (wr_tick w)); w = wait \<sigma> (w\<lparr>wr_active := Some buf\<rparr>)
      in select n ((if length (wr_sealJobs w) < nat (wo_BlockBufferCount (wr_opts w))
           then Some (Inr (), w\<lparr>wr_sealJobs := wr_sealJobs w @ [buf], wr_nextSeq := wr_nextSeq w + 1, wr_active := None\<rparr>)
           else None)
         # cancel_branches ctx w))"

definition quiescent :: "('x, 'k) Writer \<Rightarrow> bool" where
  "quiescent w \<longleftrightarrow> wr_sealing w = [] \<and> (wr_sealJobs w = [] \<or> wr_workers w = 0) \<and> wr_sealedOut w = []
     \<and> \<not> wr_emitting w"

definition finishPipeline :: "('x, 'k) schedule \<Rightarrow> ('x, 'k) Writer \<Rightarrow> ('x, 'k) Writer option" where
  "finishPipeline \<sigma> w =
     (let kept = snd (\<sigma> (wr_tick w)); w = wait \<sigma> (w\<lparr>wr_jobsClosed := True\<rparr>)
      in if quiescent w then Some (if wr_firstErr w \<noteq> None then returnPending kept w else w) else None)"

definition abort_packer :: "('x, 'k) Sink \<Rightarrow> ctx \<Rightarrow> ('x, 'k) Writer \<Rightarrow> unit res \<times> ('x, 'k) Writer" where
  "abort_packer S cleanup w =
     (case wr_packer w of None \<Rightarrow> (Inr (), w) | Some p \<Rightarrow>
      (case packer_Abort S cleanup p (wr_sink w) of (r, p, k) \<Rightarrow> (r, w\<lparr>wr_packer := Some p, wr_sink := k\<rparr>)))"

definition abortWith ::
  "('x, 'k) Sink \<Rightarrow> ('x, 'k) schedule \<Rightarrow> ctx \<Rightarrow> goerr \<Rightarrow> bool \<Rightarrow> ('x, 'k) Writer \<Rightarrow> ('a res \<times> ('x, 'k) Writer) option" where
  "abortWith S \<sigma> cleanup err drainPipeline w =
     (let w = (wr_setFirstErr err w)\<lparr>wr_aborted := True\<rparr>
      in case (if drainPipeline then finishPipeline \<sigma> w else Some w) of None \<Rightarrow> None | Some w \<Rightarrow>
         (case abort_packer S cleanup w of (r, w) \<Rightarrow> Some (Inl (join_err err r), w)))"

definition validateRecord :: "('x, 'k) Writer \<Rightarrow> WriterRecord \<Rightarrow> unit res" where
  "validateRecord w r =
     bindE (RecordSize (wc_Headers r) (wc_Value r)) (\<lambda>_.
     if wc_LSN r > MaxRecordLSN then Inl [WriteErrLSNExhausted]
     else if \<not> wr_hasRecords w then Inr ()
     else if wr_nextLSN w > MaxRecordLSN then Inl [WriteErrLSNExhausted]
     else if unat (wr_recordCount w) = MaxRecordCount then Inl [SegErrInvalidSegment]
     else if wc_LSN r \<noteq> wr_nextLSN w then Inl [ErrNonContiguousLSN]
     else if sint (wc_TimestampMS r) < sint (wr_maxTimestampMS w) then Inl [WriteErrTimestampOrder]
     else Inr ())"

text \<open>What the writer remembers of an accepted record.\<close>

definition accept_record :: "WriterRecord \<Rightarrow> ('x, 'k) Writer \<Rightarrow> ('x, 'k) Writer" where
  "accept_record r w =
     (let w = (if \<not> wr_hasRecords w
               then w\<lparr>wr_hasRecords := True, wr_baseLSN := wc_LSN r, wr_minTimestampMS := wc_TimestampMS r\<rparr>
               else if sint (wc_TimestampMS r) < sint (wr_minTimestampMS w)
               then w\<lparr>wr_minTimestampMS := wc_TimestampMS r\<rparr> else w)
      in w\<lparr>wr_maxTimestampMS := wc_TimestampMS r, wr_nextLSN := wc_LSN r + 1, wr_recordCount := wr_recordCount w + 1\<rparr>)"

text \<open>A wait that failed: only an append that was not accepted leaves the writer usable.\<close>

definition wait_failed ::
  "('x, 'k) Sink \<Rightarrow> ('x, 'k) schedule \<Rightarrow> ctx \<Rightarrow> goerr \<Rightarrow> ('x, 'k) Writer \<Rightarrow> (unit res \<times> ('x, 'k) Writer) option" where
  "wait_failed S \<sigma> cleanup err w =
     (if errors_Is err ErrAppendNotAccepted then Some (Inl err, w) else abortWith S \<sigma> cleanup err True w)"

definition store_record ::
  "('x, 'k) Sink \<Rightarrow> ('x, 'k) schedule \<Rightarrow> ctx \<Rightarrow> WriterRecord \<Rightarrow> ('x, 'k) Writer \<Rightarrow> (unit res \<times> ('x, 'k) Writer) option" where
  "store_record S \<sigma> cleanup r w =
     (case wr_active w of None \<Rightarrow> Some (Inl [GoPanic], w) | Some b \<Rightarrow>
      (case blockBuffer_Append b r of
         Inl err \<Rightarrow> abortWith S \<sigma> cleanup err True w
       | Inr b \<Rightarrow> Some (Inr (), accept_record r (w\<lparr>wr_active := Some b\<rparr>))))"

definition make_room ::
  "('x, 'k) Sink \<Rightarrow> ('x, 'k) schedule \<Rightarrow> ctx \<Rightarrow> ctx \<Rightarrow> nat \<Rightarrow> WriterRecord \<Rightarrow> ('x, 'k) Writer \<Rightarrow> (unit res \<times> ('x, 'k) Writer) option" where
  "make_room S \<sigma> ctx cleanup recordSize r w =
     (case wr_active w of None \<Rightarrow> Some (Inl [GoPanic], w) | Some b \<Rightarrow>
      if length (bb_Raw b) > 0 \<and> \<not> CanAppend b recordSize (wo_TargetBlockSize (wr_opts w)) then
        (case enqueueActive \<sigma> ctx w of None \<Rightarrow> None
         | Some (Inl err, w) \<Rightarrow> wait_failed S \<sigma> cleanup err w
         | Some (Inr _, w) \<Rightarrow>
           (case takeFreeBuffer \<sigma> ctx w of None \<Rightarrow> None
            | Some (Inl err, w) \<Rightarrow> wait_failed S \<sigma> cleanup err w
            | Some (Inr _, w) \<Rightarrow> store_record S \<sigma> cleanup r w))
      else store_record S \<sigma> cleanup r w)"

definition SegWriter_Append ::
  "('x, 'k) Sink \<Rightarrow> ('x, 'k) schedule \<Rightarrow> ctx \<Rightarrow> ctx \<Rightarrow> WriterRecord \<Rightarrow> ('x, 'k) Writer \<Rightarrow> (unit res \<times> ('x, 'k) Writer) option" where
  "SegWriter_Append S \<sigma> ctx cleanup r w =
     (if wr_closed w then Some (Inl [ErrWriterClosed], w)
      else if wr_aborted w then Some (Inl [ErrWriterAborted], w)
      else case wr_firstErr w of Some err \<Rightarrow> abortWith S \<sigma> cleanup err True w | None \<Rightarrow>
      case validateRecord w r of Inl err \<Rightarrow> abortWith S \<sigma> cleanup err True w | Inr _ \<Rightarrow>
      case RecordSize (wc_Headers r) (wc_Value r) of Inl err \<Rightarrow> abortWith S \<sigma> cleanup err True w | Inr recordSize \<Rightarrow>
      if wr_active w = None then
        (case takeFreeBuffer \<sigma> ctx w of None \<Rightarrow> None
         | Some (Inl err, w) \<Rightarrow> wait_failed S \<sigma> cleanup err w
         | Some (Inr _, w) \<Rightarrow> make_room S \<sigma> ctx cleanup recordSize r w)
      else make_room S \<sigma> ctx cleanup recordSize r w)"

definition checkedBlockCount :: "nat \<Rightarrow> u32 res" where
  "checkedBlockCount n = (if n > MaxBlockCount then Inl [SegErrInvalidSegment] else Inr (of_nat n))"

definition writer_trailer :: "('x, 'k) Writer \<Rightarrow> u64 \<Rightarrow> u32 \<Rightarrow> u64 \<Rightarrow> SegTrailer" where
  "writer_trailer w indexOffset blockCount segmentHash =
     (let indexLength = of_nat IndexPreambleSize + ucast blockCount * of_nat BlockIndexEntrySize :: u64
      in \<lparr>st_Flags = 0, st_Partition = wo_Partition (wr_opts w), st_Codec = wo_Codec (wr_opts w),
          st_HashAlgo = wo_HashAlgo (wr_opts w), st_RecordFormat = RecordFormatV1, st_BaseLSN = wr_baseLSN w,
          st_LastLSN = wr_nextLSN w - 1, st_MinTimestampMS = wr_minTimestampMS w,
          st_MaxTimestampMS = wr_maxTimestampMS w, st_RecordCount = wr_recordCount w, st_BlockCount = blockCount,
          st_BlockIndexOffset = indexOffset, st_BlockIndexLength = ucast indexLength,
          st_TotalSize = indexOffset + indexLength + of_nat SegTrailerSize,
          st_CreatedUnixMS = wo_CreatedUnixMS (wr_opts w), st_SegmentUUID = wo_SegmentUUID (wr_opts w),
          st_WriterTag = wo_WriterTag (wr_opts w), st_SegmentHash = segmentHash, st_TrailerHash = 0\<rparr>)"

definition metadataFromTrailer :: "SegTrailer \<Rightarrow> Metadata" where
  "metadataFromTrailer t =
     \<lparr>md_Partition = st_Partition t, md_BaseLSN = st_BaseLSN t, md_LastLSN = st_LastLSN t,
      md_MinTimestampMS = st_MinTimestampMS t, md_MaxTimestampMS = st_MaxTimestampMS t,
      md_RecordCount = st_RecordCount t, md_BlockCount = st_BlockCount t, md_SizeBytes = st_TotalSize t,
      md_BlockIndexOffset = st_BlockIndexOffset t, md_BlockIndexLength = st_BlockIndexLength t,
      md_SegmentUUID = st_SegmentUUID t, md_Codec = st_Codec t, md_HashAlgo = st_HashAlgo t,
      md_SegmentHash = st_SegmentHash t, md_TrailerHash = st_TrailerHash t\<rparr>"

definition closeEnqueueError :: "ctx \<Rightarrow> goerr \<Rightarrow> goerr" where
  "closeEnqueueError ctx err =
     (if \<not> errors_Is err ErrAppendNotAccepted then err
      else case ctx of Some ctxErr \<Rightarrow> ctxErr | None \<Rightarrow> err)"

text \<open>The tail of \<^verbatim>\<open>Close\<close>: index, trailer and commit over the packer of the drained pipeline.\<close>

definition write_tail ::
  "('x, 'k) Sink \<Rightarrow> (bytes \<Rightarrow> u64) \<Rightarrow> ('x, 'k) schedule \<Rightarrow> (nat \<Rightarrow> ctx) \<Rightarrow> ('x, 'k) Writer
     \<Rightarrow> (WriterResult res \<times> ('x, 'k) Writer) option" where
  "write_tail S xxh \<sigma> c w =
     (case wr_packer w of None \<Rightarrow> abortWith S \<sigma> (c 0) [ErrEmptySegment] False w | Some p \<Rightarrow>
      let indexOffset = pk_offset p in
      case checkedBlockCount (length (wr_index w)) of Inl err \<Rightarrow> abortWith S \<sigma> (c 0) err False w | Inr blockCount \<Rightarrow>
      let trailer = writer_trailer w indexOffset blockCount 0 in
      case MarshalBlockIndex xxh (wr_index w) trailer of Inl err \<Rightarrow> abortWith S \<sigma> (c 0) err False w | Inr (indexBytes, _) \<Rightarrow>
      case WriteBody S (c 1) indexBytes p (wr_sink w) of
        (Inl err, p, k) \<Rightarrow> abortWith S \<sigma> (c 0) err False (w\<lparr>wr_packer := Some p, wr_sink := k\<rparr>)
      | (Inr _, p, k) \<Rightarrow>
      let (hash, p) = BodyHash xxh p; w = w\<lparr>wr_packer := Some p, wr_sink := k\<rparr> in
      case MarshalTrailer xxh (trailer\<lparr>st_SegmentHash := hash\<rparr>) of Inl err \<Rightarrow> abortWith S \<sigma> (c 0) err False w
      | Inr (trailerBytes, sealedTrailer) \<Rightarrow>
      case WriteFinal S (c 2) trailerBytes p k of
        (Inl err, p, k) \<Rightarrow> abortWith S \<sigma> (c 0) err False (w\<lparr>wr_packer := Some p, wr_sink := k\<rparr>)
      | (Inr _, p, k) \<Rightarrow>
      case Complete S (c 3) (c 0) p k of
        (Inl err, p, k) \<Rightarrow> abortWith S \<sigma> (c 0) err False (w\<lparr>wr_packer := Some p, wr_sink := k\<rparr>)
      | (Inr obj, p, k) \<Rightarrow>
        Some (Inr \<lparr>wq_Metadata = metadataFromTrailer sealedTrailer, wq_Object = obj, wq_Trailer = sealedTrailer\<rparr>,
              w\<lparr>wr_packer := Some p, wr_sink := k, wr_closed := True\<rparr>))"

definition SegWriter_Close ::
  "('x, 'k) Sink \<Rightarrow> (bytes \<Rightarrow> u64) \<Rightarrow> ('x, 'k) schedule \<Rightarrow> (nat \<Rightarrow> ctx) \<Rightarrow> ('x, 'k) Writer
     \<Rightarrow> (WriterResult res \<times> ('x, 'k) Writer) option" where
  "SegWriter_Close S xxh \<sigma> c w =
     (if wr_closed w then Some (Inl [ErrWriterClosed], w)
      else if wr_aborted w then Some (Inl [ErrWriterAborted], w)
      else case wr_firstErr w of Some err \<Rightarrow> abortWith S \<sigma> (c 0) err True w | None \<Rightarrow>
      if \<not> wr_hasRecords w then abortWith S \<sigma> (c 0) [ErrEmptySegment] True w
      else case (case wr_active w of None \<Rightarrow> Some (Inr (), w) | Some b \<Rightarrow>
                 if length (bb_Raw b) > 0 then enqueueActive \<sigma> (c 4) w else Some (Inr (), w)) of
        None \<Rightarrow> None
      | Some (Inl err, w) \<Rightarrow> abortWith S \<sigma> (c 0) (closeEnqueueError (c 4) err) True w
      | Some (Inr _, w) \<Rightarrow>
        (case finishPipeline \<sigma> w of None \<Rightarrow> None | Some w \<Rightarrow>
         case wr_firstErr w of Some err \<Rightarrow> abortWith S \<sigma> (c 0) err False w | None \<Rightarrow> write_tail S xxh \<sigma> c w))"

definition SegWriter_Abort ::
  "('x, 'k) Sink \<Rightarrow> ('x, 'k) schedule \<Rightarrow> ctx \<Rightarrow> ('x, 'k) Writer \<Rightarrow> (unit res \<times> ('x, 'k) Writer) option" where
  "SegWriter_Abort S \<sigma> ctx w =
     (if wr_closed w then Some (Inr (), w)
      else if wr_aborted w then Some (abort_packer S ctx w)
      else case finishPipeline \<sigma> (wr_setFirstErr [ErrWriterAborted] (w\<lparr>wr_aborted := True\<rparr>)) of
        None \<Rightarrow> None | Some w \<Rightarrow> Some (abort_packer S ctx w))"

text \<open>The appending loop of \<^verbatim>\<open>Encode\<close>, and \<^verbatim>\<open>Encode\<close> over the in-memory sink.\<close>

fun append_all ::
  "('x, 'k) Sink \<Rightarrow> ('x, 'k) schedule \<Rightarrow> ctx \<Rightarrow> ctx \<Rightarrow> WriterRecord list \<Rightarrow> ('x, 'k) Writer \<Rightarrow> (unit res \<times> ('x, 'k) Writer) option" where
  "append_all S \<sigma> ctx cleanup [] w = Some (Inr (), w)"
| "append_all S \<sigma> ctx cleanup (r # rs) w =
     (case SegWriter_Append S \<sigma> ctx cleanup r w of
        None \<Rightarrow> None
      | Some (Inl err, w) \<Rightarrow>
          (case SegWriter_Abort S \<sigma> cleanup w of None \<Rightarrow> None | Some (a, w) \<Rightarrow> Some (Inl (join_err err a), w))
      | Some (Inr _, w) \<Rightarrow> append_all S \<sigma> ctx cleanup rs w)"

definition Encode ::
  "(bytes \<Rightarrow> u64) \<Rightarrow> (memoryTxn, MemorySink) schedule \<Rightarrow> int \<Rightarrow> bytes16 res \<Rightarrow> i64 \<Rightarrow> ctx \<Rightarrow> (nat \<Rightarrow> ctx)
     \<Rightarrow> WriterRecord list \<Rightarrow> SegWriterOptions \<Rightarrow> (bytes \<times> Metadata) res option" where
  "Encode xxh \<sigma> numCPU rand now ctx c records opts =
     (case SegWriter_New numCPU rand now opts (Some (NewMemorySink ''memory://encode'')) of
        Inl err \<Rightarrow> Some (Inl err)
      | Inr w \<Rightarrow>
        (case append_all memory_sink \<sigma> ctx (c 0) records w of
           None \<Rightarrow> None
         | Some (Inl err, w) \<Rightarrow> Some (Inl err)
         | Some (Inr _, w) \<Rightarrow>
           (case SegWriter_Close memory_sink xxh \<sigma> c w of
              None \<Rightarrow> None
            | Some (Inl err, w) \<Rightarrow> Some (Inl err)
            | Some (Inr result, w) \<Rightarrow> Some (Inr (MemorySink_Bytes (wr_sink w), wq_Metadata result)))))"

end
