(* ===== verification/Seg_Pipeline.thy ===== *)
theory Seg_Pipeline
  imports Seg_Writer "HOL-Library.Multiset"
begin

text \<open>
  What the sealing pipeline of the segment writer keeps at every step, in any order of its steps:
  as long as no error is recorded, every buffer that was handed over is either written, in
  sequence, or in exactly one of the channels, and the packer carries the bytes that writing the
  blocks one after the other produces.
\<close>


section \<open>Writing blocks one after the other\<close>

fun emit_ref :: "bytes \<times> BlockIndexEntry list \<Rightarrow> Sealed list \<Rightarrow> (bytes \<times> BlockIndexEntry list) res" where
  "emit_ref st [] = Inr st"
| "emit_ref (bs, ix) (s # ss) =
     bindE (BlockPreamble_MarshalBinary (sl_Preamble s)) (\<lambda>pre.
     emit_ref (bs @ pre @ sl_Stored s, ix @ [index_entry (of_nat (length bs)) (sl_Preamble s)]) ss)"

definition body_ref :: "SegWriterOptions \<Rightarrow> u64 \<Rightarrow> Sealed list \<Rightarrow> (bytes \<times> BlockIndexEntry list) res" where
  "body_ref opts base ss = bindE (FilePreamble_MarshalBinary (file_preamble opts base)) (\<lambda>pre. emit_ref (pre, []) ss)"

lemma emit_ref_append: "emit_ref st (ss @ ts) = bindE (emit_ref st ss) (\<lambda>st. emit_ref st ts)"
proof (induction ss arbitrary: st)
  case (Cons s ss)
  then show ?case by (cases st; cases "BlockPreamble_MarshalBinary (sl_Preamble s)") simp_all
qed simp

lemma body_ref_snoc: "body_ref opts base (ss @ [s]) = bindE (body_ref opts base ss) (\<lambda>st. emit_ref st [s])"
  by (cases "FilePreamble_MarshalBinary (file_preamble opts base)") (simp_all add: body_ref_def emit_ref_append)

lemma emit_ref_single:
  "emit_ref (bs, ix) [s] = bindE (BlockPreamble_MarshalBinary (sl_Preamble s)) (\<lambda>pre.
     Inr (bs @ pre @ sl_Stored s, ix @ [index_entry (of_nat (length bs)) (sl_Preamble s)]))"
  by simp


section \<open>What the pipeline leaves alone\<close>

text \<open>The part of the state that only the owner changes.\<close>

definition owner where
  "owner w = (wr_opts w, wr_active w, wr_hasRecords w, wr_closed w, wr_aborted w, wr_baseLSN w, wr_nextLSN w,
     wr_recordCount w, wr_minTimestampMS w, wr_maxTimestampMS w, wr_nextSeq w, wr_jobsClosed w, wr_tick w)"

lemma owner_fields:
  "owner w' = owner w \<Longrightarrow> wr_opts w' = wr_opts w \<and> wr_active w' = wr_active w \<and> wr_hasRecords w' = wr_hasRecords w
     \<and> wr_closed w' = wr_closed w \<and> wr_aborted w' = wr_aborted w \<and> wr_baseLSN w' = wr_baseLSN w
     \<and> wr_nextLSN w' = wr_nextLSN w \<and> wr_recordCount w' = wr_recordCount w
     \<and> wr_minTimestampMS w' = wr_minTimestampMS w \<and> wr_maxTimestampMS w' = wr_maxTimestampMS w
     \<and> wr_nextSeq w' = wr_nextSeq w \<and> wr_jobsClosed w' = wr_jobsClosed w \<and> wr_tick w' = wr_tick w"
  by (simp add: owner_def)

lemma owner_updates [simp]:
  "owner (w\<lparr>wr_pending := a\<rparr>) = owner w" "owner (w\<lparr>wr_sealJobs := b\<rparr>) = owner w"
  "owner (w\<lparr>wr_sealing := b\<rparr>) = owner w" "owner (w\<lparr>wr_sealedOut := d\<rparr>) = owner w"
  "owner (w\<lparr>wr_workers := e\<rparr>) = owner w" "owner (w\<lparr>wr_index := f\<rparr>) = owner w"
  "owner (w\<lparr>wr_nextEmit := g\<rparr>) = owner w" "owner (w\<lparr>wr_emitting := h\<rparr>) = owner w"
  by (simp_all add: owner_def)

lemma owner_setFirstErr [simp]: "owner (wr_setFirstErr err w) = owner w"
  by (simp add: owner_def wr_setFirstErr_def split: option.split)

lemma owner_returns [simp]: "owner (return_buffer d w) = owner w" "owner (returnPending n w) = owner w"
  by (simp_all add: owner_def return_buffer_def returnPending_def)

lemma owner_record_seal [simp]: "owner (record_seal r w) = owner w"
  by (simp add: record_seal_def split: sum.split)

text \<open>The channels besides the emitter's own state.\<close>

definition channels where
  "channels w = (wr_sealJobs w, wr_sealing w, wr_sealedOut w, wr_workers w)"

lemma channels_updates [simp]:
  "channels (w\<lparr>wr_pending := a\<rparr>) = channels w" "channels (w\<lparr>wr_index := f\<rparr>) = channels w"
  "channels (w\<lparr>wr_nextEmit := g\<rparr>) = channels w" "channels (w\<lparr>wr_emitting := h\<rparr>) = channels w"
  by (simp_all add: channels_def)

lemma channels_setFirstErr [simp]: "channels (wr_setFirstErr err w) = channels w"
  by (simp add: channels_def wr_setFirstErr_def split: option.split)

lemma channels_returns [simp]: "channels (return_buffer d w) = channels w" "channels (returnPending n w) = channels w"
  by (simp_all add: channels_def return_buffer_def returnPending_def)

lemma emitSealed_owner:
  assumes "emitSealed S c s w = (r, w')"
  shows "owner w' = owner w" "channels w' = channels w"
proof -
  have e: "w'\<lparr>wr_packer := None, wr_sink := wr_sink w\<rparr> = w\<lparr>wr_packer := None, wr_sink := wr_sink w\<rparr>"
    by (rule emitSealed_frame[OF assms])
  show "owner w' = owner w" using arg_cong[OF e, of owner] by (simp add: owner_def)
  show "channels w' = channels w" using arg_cong[OF e, of channels] by (simp add: channels_def)
qed

lemma emitter_receive_owner:
  "owner (emitter_receive d result w) = owner w \<and> channels (emitter_receive d result w) = channels w"
  by (simp add: emitter_receive_def split: sum.split)

lemma emitter_iterate_owner:
  "owner (emitter_iterate S c d n w) = owner w \<and> channels (emitter_iterate S c d n w) = channels w"
proof (cases "wr_firstErr w = None \<and> map_of (wr_pending w) (wr_nextEmit w) \<noteq> None")
  case False
  then show ?thesis by (auto simp: emitter_iterate_def split: option.split)
next
  case True
  then obtain s where s: "map_of (wr_pending w) (wr_nextEmit w) = Some s" by blast
  obtain r w' where e: "emitSealed S c s (w\<lparr>wr_pending := filter (\<lambda>e. fst e \<noteq> wr_nextEmit w) (wr_pending w)\<rparr>) = (r, w')" by fastforce
  have "owner w' = owner w" "channels w' = channels w" using emitSealed_owner[OF e] by simp_all
  then show ?thesis using True s e by (simp add: emitter_iterate_def split: sum.split)
qed

lemma bg_owner: "bg cx S zenc xxh w w' \<Longrightarrow> owner w' = owner w"
  by (induction rule: bg.induct) (simp_all add: emitter_receive_owner emitter_iterate_owner)

text \<open>A recorded error stays recorded.\<close>

lemma setFirstErr_set [simp]: "wr_firstErr (wr_setFirstErr err w) \<noteq> None"
  by (simp add: wr_setFirstErr_def split: option.split)


section \<open>Where the buffers are\<close>

definition seqs :: "('x, 'k) Writer \<Rightarrow> u64 list" where
  "seqs w = map bb_Seq (wr_sealJobs w @ wr_sealing w) @ map sb_Seq (wr_sealedOut w) @ map fst (wr_pending w)"

text \<open>
  \<open>Bs\<close> are the buffers handed over so far, in order, and \<open>n\<close> the number of those written:
  what is in the channels comes from the buffers, and the sequence numbers in the channels are
  those from \<open>n\<close> on, each once.
\<close>

definition in_flight ::
  "(bytes \<Rightarrow> bytes) \<Rightarrow> (bytes \<Rightarrow> u64) \<Rightarrow> blockBuffer list \<Rightarrow> nat \<Rightarrow> ('x, 'k) Writer \<Rightarrow> bool" where
  "in_flight zenc xxh Bs n w \<longleftrightarrow>
     set (wr_sealJobs w @ wr_sealing w) \<subseteq> set Bs
   \<and> (\<forall>r \<in> set (wr_sealedOut w). \<exists>b \<in> set Bs. r = \<lparr>sb_Seq = bb_Seq b, sb_Sealed = seal_buffer zenc xxh (wr_opts w) b\<rparr>)
   \<and> (\<forall>e \<in> set (wr_pending w). \<exists>b \<in> set Bs. fst e = bb_Seq b \<and> seal_buffer zenc xxh (wr_opts w) b = Inr (snd e))
   \<and> mset (seqs w) = mset (map of_nat [n..<length Bs])"

definition numbered :: "blockBuffer list \<Rightarrow> bool" where
  "numbered Bs \<longleftrightarrow> length Bs < 18446744073709551616 \<and> (\<forall>i < length Bs. bb_Seq (Bs ! i) = of_nat i)"

definition waiting :: "('x, 'k) Writer \<Rightarrow> bool" where
  "waiting w \<longleftrightarrow> wr_nextEmit w \<notin> fst ` set (wr_pending w)"

lemma of_nat_u64_inj: "i < 18446744073709551616 \<Longrightarrow> j < 18446744073709551616 \<Longrightarrow> (of_nat i :: u64) = of_nat j \<longleftrightarrow> i = j"
  by (metis unat_of_nat_u64)

lemma numbered_eq: "numbered Bs \<Longrightarrow> b \<in> set Bs \<Longrightarrow> bb_Seq b = of_nat i \<Longrightarrow> i < length Bs \<Longrightarrow> b = Bs ! i"
proof -
  assume n: "numbered Bs" and b: "b \<in> set Bs" "bb_Seq b = of_nat i" "i < length Bs"
  obtain j where j: "j < length Bs" "b = Bs ! j" using b(1) by (auto simp: in_set_conv_nth)
  then have "(of_nat j :: u64) = of_nat i" using n b(2) by (simp add: numbered_def)
  then have "j = i" using n j(1) b(3) by (simp add: numbered_def of_nat_u64_inj)
  then show "b = Bs ! i" using j(2) by simp
qed

lemma distinct_of_nat_upt: "m < 18446744073709551616 \<Longrightarrow> distinct (map (of_nat :: nat \<Rightarrow> u64) [n..<m])"
  by (auto simp: distinct_map inj_on_def of_nat_u64_inj)

lemma in_flight_distinct: "numbered Bs \<Longrightarrow> in_flight zenc xxh Bs n w \<Longrightarrow> distinct (seqs w)"
  unfolding in_flight_def numbered_def by (metis distinct_of_nat_upt mset_eq_imp_distinct_iff)

lemma mset_remove_key:
  "distinct (map fst xs) \<Longrightarrow> k \<in> fst ` set xs \<Longrightarrow> mset (map fst xs) = add_mset k (mset (map fst (filter (\<lambda>e. fst e \<noteq> k) xs)))"
proof (induction xs)
  case (Cons x xs)
  show ?case
  proof (cases "fst x = k")
    case True
    then have "e \<in> set xs \<Longrightarrow> fst e \<noteq> k" for e using Cons.prems(1) by (metis distinct.simps(2) image_eqI list.simps(9) set_map)
    then have "filter (\<lambda>e. fst e \<noteq> k) xs = xs" by (simp add: filter_id_conv)
    then show ?thesis using True by simp
  next
    case False
    then show ?thesis using Cons by auto
  qed
qed simp

text \<open>The result the emitter looks for is the one of the next buffer.\<close>

lemma in_flight_next:
  assumes "numbered Bs" "in_flight zenc xxh Bs n w" "n \<le> length Bs" "wr_nextEmit w = of_nat n"
    and "map_of (wr_pending w) (wr_nextEmit w) = Some s"
  shows "n < length Bs" "seal_buffer zenc xxh (wr_opts w) (Bs ! n) = Inr s"
    "in_flight zenc xxh Bs (n + 1) (w\<lparr>wr_pending := filter (\<lambda>e. fst e \<noteq> wr_nextEmit w) (wr_pending w)\<rparr>)"
proof -
  let ?k = "of_nat n :: u64" and ?rest = "filter (\<lambda>e. fst e \<noteq> wr_nextEmit w) (wr_pending w)"
  note F = assms(2)[unfolded in_flight_def]
  have L: "length Bs < 18446744073709551616" using assms(1) by (simp add: numbered_def)
  have mem: "(?k, s) \<in> set (wr_pending w)" using map_of_SomeD[OF assms(5)] assms(4) by simp
  then have "?k \<in> set (seqs w)" by (force simp: seqs_def)
  moreover have "set (seqs w) = set (map (of_nat :: nat \<Rightarrow> u64) [n..<length Bs])" using F by (metis mset_eq_setD)
  ultimately obtain j where j: "?k = of_nat j" "n \<le> j" "j < length Bs" by auto
  then have "n = j" using of_nat_u64_inj[of n j] L assms(3) by simp
  then show n: "n < length Bs" using j by simp
  obtain b where b: "b \<in> set Bs" "bb_Seq b = ?k" "seal_buffer zenc xxh (wr_opts w) b = Inr s"
    using F mem by force
  then show "seal_buffer zenc xxh (wr_opts w) (Bs ! n) = Inr s" using numbered_eq[OF assms(1) b(1,2) n] by simp
  have d: "distinct (map fst (wr_pending w))" using in_flight_distinct[OF assms(1,2)] by (simp add: seqs_def)
  have "mset (map fst (wr_pending w)) = add_mset ?k (mset (map fst ?rest))"
    using mset_remove_key[OF d, of ?k] mem assms(4) by force
  then have "mset (seqs w) = add_mset ?k (mset (seqs (w\<lparr>wr_pending := ?rest\<rparr>)))" by (simp add: seqs_def)
  moreover have "mset (map (of_nat :: nat \<Rightarrow> u64) [n..<length Bs]) = add_mset ?k (mset (map of_nat [n + 1..<length Bs]))"
    using n by (simp add: upt_conv_Cons)
  ultimately have "mset (seqs (w\<lparr>wr_pending := ?rest\<rparr>)) = mset (map of_nat [n + 1..<length Bs])" using F by simp
  then show "in_flight zenc xxh Bs (n + 1) (w\<lparr>wr_pending := ?rest\<rparr>)" using F by (auto simp: in_flight_def)
qed

lemma in_flight_frame:
  assumes "in_flight zenc xxh Bs n w" "channels w' = channels w" "wr_opts w' = wr_opts w" "wr_pending w' = wr_pending w"
  shows "in_flight zenc xxh Bs n w'"
  using assms by (simp add: in_flight_def channels_def seqs_def)


section \<open>The steps of the pipeline\<close>

context segment_sink
begin

definition emitted :: "('x, 'k) Writer \<Rightarrow> Sealed list \<Rightarrow> bool" where
  "emitted w ss \<longleftrightarrow>
     (if ss = [] then wr_packer w = None \<and> wr_index w = []
      else \<exists>p bs. wr_packer w = Some p \<and> body_ref (wr_opts w) (wr_baseLSN w) ss = Inr (bs, wr_index w)
        \<and> carries p (wr_sink w) bs \<and> pk_hashed p = bs \<and> pk_hashAlgo p = wo_HashAlgo (wr_opts w) \<and> \<not> pk_bodySealed p
        \<and> HashAlgo_Validate (pk_hashAlgo p) = Inr ())"

lemma emitted_frame:
  "emitted w ss \<Longrightarrow> wr_packer w' = wr_packer w \<Longrightarrow> wr_index w' = wr_index w \<Longrightarrow> wr_sink w' = wr_sink w
     \<Longrightarrow> owner w' = owner w \<Longrightarrow> emitted w' ss"
  by (auto simp: emitted_def dest: owner_fields)

lemma ensurePacker_emitted:
  assumes "emitted w ss" "ensurePacker S c w = (Inr p, w')"
  obtains bs where "body_ref (wr_opts w) (wr_baseLSN w) ss = Inr (bs, wr_index w)" "carries p (wr_sink w') bs"
    "pk_hashed p = bs" "pk_hashAlgo p = wo_HashAlgo (wr_opts w)" "\<not> pk_bodySealed p" "HashAlgo_Validate (pk_hashAlgo p) = Inr ()"
    "wr_index w' = wr_index w" "owner w' = owner w"
proof (cases "ss = []")
  case True
  then have w: "wr_packer w = None" "wr_index w = []" using assms(1) by (simp_all add: emitted_def)
  obtain txn k q pre where b: "sk_Begin S (c 1) (begin_plan (wr_opts w)) (wr_sink w) = (Inr txn, k)"
      "newPacker (Some txn) (wo_HashAlgo (wr_opts w)) = Inr q"
      "FilePreamble_MarshalBinary (file_preamble (wr_opts w) (wr_baseLSN w)) = Inr pre"
      "WriteBody S (c 3) pre q k = (Inr (), p, wr_sink w')" "w' = w\<lparr>wr_packer := Some p, wr_sink := wr_sink w'\<rparr>"
    using assms(2) w by (auto simp: ensurePacker_def split: option.splits sum.splits prod.splits)
  note q = newPacker_carries[OF b(1,2)]
  note W = WriteBody_carries[OF b(4), of "[]"]
  have i: "wr_index w' = wr_index w" "owner w' = owner w" by (subst b(5); simp add: owner_def)+
  show thesis
    by (rule that[of pre]) (use q W i w b(3) True in \<open>simp_all add: body_ref_def\<close>)
next
  case False
  then obtain q bs where "wr_packer w = Some q" "body_ref (wr_opts w) (wr_baseLSN w) ss = Inr (bs, wr_index w)"
      "carries q (wr_sink w) bs" "pk_hashed q = bs" "pk_hashAlgo q = wo_HashAlgo (wr_opts w)" "\<not> pk_bodySealed q"
      "HashAlgo_Validate (pk_hashAlgo q) = Inr ()"
    using assms(1) by (auto simp: emitted_def)
  then show thesis using assms(2) by (intro that[of bs]) (auto simp: ensurePacker_def)
qed

lemma emitSealed_emitted:
  assumes "emitted w ss" "emitSealed S c s w = (Inr e, w')"
  shows "emitted (w'\<lparr>wr_index := wr_index w' @ [e]\<rparr>) (ss @ [s])"
proof -
  obtain p w1 where e1: "ensurePacker S c w = (Inr p, w1)"
    using assms(2) by (auto simp: emitSealed_def split: sum.splits prod.splits)
  then obtain pre p1 k1 p2 k2 where e2: "BlockPreamble_MarshalBinary (sl_Preamble s) = Inr pre"
      "WriteBody S (c 4) pre p (wr_sink w1) = (Inr (), p1, k1)" "WriteBody S (c 5) (sl_Stored s) p1 k1 = (Inr (), p2, k2)"
      "e = index_entry (pk_offset p) (sl_Preamble s)" "w' = w1\<lparr>wr_packer := Some p2, wr_sink := k2\<rparr>"
    using assms(2) by (auto simp: emitSealed_def Let_def split: sum.splits prod.splits)
  obtain bs where B: "body_ref (wr_opts w) (wr_baseLSN w) ss = Inr (bs, wr_index w)" "carries p (wr_sink w1) bs"
    "pk_hashed p = bs" "pk_hashAlgo p = wo_HashAlgo (wr_opts w)" "\<not> pk_bodySealed p" "HashAlgo_Validate (pk_hashAlgo p) = Inr ()"
    "wr_index w1 = wr_index w" "owner w1 = owner w"
    by (rule ensurePacker_emitted[OF assms(1) e1])
  note W1 = WriteBody_carries[OF e2(2) B(2)]
  note W2 = WriteBody_carries[OF e2(3) W1(1)]
  have o': "pk_offset p = of_nat (length bs)" using B(2) by (simp add: carries_def)
  show ?thesis
    using W2 W1 B owner_fields[OF B(8)]
    by (simp add: emitted_def e2 o' body_ref_snoc)
qed

definition pipe :: "(bytes \<Rightarrow> bytes) \<Rightarrow> (bytes \<Rightarrow> u64) \<Rightarrow> blockBuffer list \<Rightarrow> Sealed list \<Rightarrow> ('x, 'k) Writer \<Rightarrow> bool" where
  "pipe zenc xxh Bs ss w \<longleftrightarrow> wr_firstErr w = None \<and> 0 < wr_workers w \<and> length ss \<le> length Bs
     \<and> wr_nextEmit w = of_nat (length ss) \<and> (\<forall>i < length ss. seal_buffer zenc xxh (wr_opts w) (Bs ! i) = Inr (ss ! i))
     \<and> emitted w ss \<and> in_flight zenc xxh Bs (length ss) w"

text \<open>Between two rounds of the inner loop the next block is not there yet.\<close>

definition flow :: "(bytes \<Rightarrow> bytes) \<Rightarrow> (bytes \<Rightarrow> u64) \<Rightarrow> blockBuffer list \<Rightarrow> ('x, 'k) Writer \<Rightarrow> bool" where
  "flow zenc xxh Bs w \<longleftrightarrow> wr_firstErr w \<noteq> None \<or> (\<exists>ss. pipe zenc xxh Bs ss w \<and> (wr_emitting w \<or> waiting w))"

lemma iterate_flow:
  assumes "numbered Bs" "pipe zenc xxh Bs ss w" "wr_emitting w"
  shows "flow zenc xxh Bs (emitter_iterate S c d n w)"
proof (cases "map_of (wr_pending w) (wr_nextEmit w)")
  case None
  have "emitter_iterate S c d n w = w\<lparr>wr_emitting := False\<rparr>" unfolding emitter_iterate_def None using assms(2) by (simp add: pipe_def)
  moreover have "waiting w" using None by (simp add: waiting_def map_of_eq_None_iff)
  moreover have "pipe zenc xxh Bs ss (w\<lparr>wr_emitting := False\<rparr>)"
    using assms(2) emitted_frame[of w ss "w\<lparr>wr_emitting := False\<rparr>"] in_flight_frame[of zenc xxh Bs "length ss" w "w\<lparr>wr_emitting := False\<rparr>"]
    by (simp add: pipe_def)
  ultimately show ?thesis by (auto simp: flow_def waiting_def)
next
  case (Some s)
  note P = assms(2)[unfolded pipe_def]
  let ?w = "w\<lparr>wr_pending := filter (\<lambda>e. fst e \<noteq> wr_nextEmit w) (wr_pending w)\<rparr>"
  obtain r w' where e: "emitSealed S c s ?w = (r, w')" by fastforce
  show ?thesis
  proof (cases r)
    case (Inl err)
    then have "emitter_iterate S c d n w = (returnPending n (wr_setFirstErr err (return_buffer d w')))\<lparr>wr_emitting := False\<rparr>"
      using P Some e by (simp add: emitter_iterate_def)
    then show ?thesis using setFirstErr_set[of err "return_buffer d w'"] by (simp add: flow_def)
  next
    case (Inr entry)
    note E = emitSealed_fields[OF e] emitSealed_owner[OF e]
    have o': "wr_opts w' = wr_opts w" using owner_fields[OF E(5)] by simp
    let ?v = "w'\<lparr>wr_index := wr_index w' @ [entry], wr_nextEmit := wr_nextEmit w' + 1\<rparr>"
    let ?w' = "return_buffer d ?v"
    have it: "emitter_iterate S c d n w = ?w'" using P Some e Inr by (simp add: emitter_iterate_def)
    note N = in_flight_next[OF assms(1) _ _ _ Some, of zenc xxh "length ss"]
    have em: "emitted ?w ss" using P by (auto intro: emitted_frame)
    have em': "emitted ?w' (ss @ [s])"
      using emitSealed_emitted[OF em e[unfolded Inr]] by (rule emitted_frame) simp_all
    have fl: "in_flight zenc xxh Bs (length ss + 1) ?w'"
      using N(3) P by (rule_tac in_flight_frame[where w = ?w]) (use E o' in \<open>simp_all\<close>)
    have "pipe zenc xxh Bs (ss @ [s]) ?w'"
      unfolding pipe_def using P N(1,2) E o' em' fl by (auto simp: channels_def nth_append less_Suc_eq)
    moreover have "wr_emitting ?w'"
      using assms(3) arg_cong[OF emitSealed_frame[OF e, where p = None and k = "wr_sink w"], of wr_emitting] by simp
    ultimately show ?thesis unfolding it flow_def by blast
  qed
qed

lemma receive_flow:
  assumes "numbered Bs" "pipe zenc xxh Bs ss w" "wr_sealedOut w = result # rest"
  shows "flow zenc xxh Bs (emitter_receive d result (w\<lparr>wr_sealedOut := rest\<rparr>))"
proof (cases "sb_Sealed result")
  case (Inl err)
  then show ?thesis
    using setFirstErr_set[of err "w\<lparr>wr_sealedOut := rest\<rparr>"] by (simp add: emitter_receive_def flow_def)
next
  case (Inr sealed)
  note P = assms(2)[unfolded pipe_def]
  let ?w = "w\<lparr>wr_sealedOut := rest, wr_pending := (sb_Seq result, sealed) # wr_pending w, wr_emitting := True\<rparr>"
  have fl: "in_flight zenc xxh Bs (length ss) w" using P by simp
  have "sb_Seq result \<notin> fst ` set (wr_pending w)"
    using in_flight_distinct[OF assms(1) fl] by (auto simp: seqs_def assms(3))
  then have "filter (\<lambda>e. fst e \<noteq> sb_Seq result) (wr_pending w) = wr_pending w" by (force simp: filter_id_conv)
  then have rc: "emitter_receive d result (w\<lparr>wr_sealedOut := rest\<rparr>) = ?w" using Inr P by (simp add: emitter_receive_def)
  have "in_flight zenc xxh Bs (length ss) ?w"
    using fl Inr assms(3) unfolding in_flight_def by (force simp: seqs_def)
  moreover have "emitted ?w ss" using P by (auto intro: emitted_frame simp: owner_def)
  ultimately have "pipe zenc xxh Bs ss ?w" using P by (simp add: pipe_def)
  then show ?thesis unfolding rc flow_def by auto
qed

lemma pipe_move:
  assumes "pipe zenc xxh Bs ss w" "wr_emitting w \<or> waiting w" "in_flight zenc xxh Bs (length ss) w'"
    and "wr_firstErr w' = wr_firstErr w" "wr_workers w' = wr_workers w" "wr_nextEmit w' = wr_nextEmit w"
    and "wr_pending w' = wr_pending w" "wr_packer w' = wr_packer w" "wr_index w' = wr_index w" "wr_sink w' = wr_sink w"
    and "owner w' = owner w" "wr_emitting w' = wr_emitting w"
  shows "flow zenc xxh Bs w'"
proof -
  have "emitted w' ss" using assms by (auto intro: emitted_frame simp: pipe_def)
  then show ?thesis using assms owner_fields[OF assms(11)] by (auto simp: flow_def pipe_def waiting_def)
qed

lemma bg_flow:
  assumes "bg cx S zenc xxh w w'" "numbered Bs" "flow zenc xxh Bs w"
  shows "flow zenc xxh Bs w'"
proof (cases "wr_firstErr w = None")
  case False
  with assms(1) have "wr_firstErr w' \<noteq> None"
    by (cases rule: bg.cases)
      (auto simp: record_seal_def emitter_receive_def emitter_iterate_def wr_setFirstErr_def split: sum.split option.split)
  then show ?thesis by (simp add: flow_def)
next
  case True
  then obtain ss where P: "pipe zenc xxh Bs ss w" "wr_emitting w \<or> waiting w" using assms(3) by (auto simp: flow_def)
  have fl: "in_flight zenc xxh Bs (length ss) w" using P by (simp add: pipe_def)
  from assms(1) show ?thesis
  proof (cases rule: bg.cases)
    case (take_job b jobs)
    then show ?thesis using fl by (intro pipe_move[OF P]) (auto simp: in_flight_def seqs_def owner_def)
  next
    case (post xs b ys r)
    show ?thesis
    proof (cases r)
      case (Inl err)
      then show ?thesis using post by (simp add: flow_def record_seal_def)
    next
      case (Inr sealed)
      have b: "b \<in> set Bs" using fl post(2) by (auto simp: in_flight_def)
      have w': "w' = w\<lparr>wr_sealing := xs @ ys, wr_sealedOut := wr_sealedOut w @ [\<lparr>sb_Seq = bb_Seq b, sb_Sealed = r\<rparr>]\<rparr>"
        using post(1) Inr by (simp add: record_seal_def)
      have "in_flight zenc xxh Bs (length ss) w'"
        using fl b post(2,3) by (auto simp: w' in_flight_def seqs_def)
      then show ?thesis by (intro pipe_move[OF P]) (simp_all add: w')
    qed
  next
    case (stop xs b ys r)
    have "wr_firstErr w' \<noteq> None"
      unfolding stop(1) using stop(4) by (cases r) (auto simp: record_seal_def wr_setFirstErr_def split: option.split)
    then show ?thesis by (simp add: flow_def)
  next
    case (receive result rest d)
    then show ?thesis using receive_flow[OF assms(2) P(1)] by simp
  next
    case (iterate c d n)
    then show ?thesis using iterate_flow[OF assms(2) P(1)] by simp
  next
    case (cancel err)
    then show ?thesis by (simp add: flow_def)
  qed
qed

lemma bgs_flow: "(bg cx S zenc xxh)\<^sup>*\<^sup>* w w' \<Longrightarrow> numbered Bs \<Longrightarrow> flow zenc xxh Bs w \<Longrightarrow> flow zenc xxh Bs w' \<and> owner w' = owner w"
  by (induction rule: rtranclp_induct) (auto intro: bg_flow dest: bg_owner)

text \<open>A pipeline that came to rest without an error has written every buffer, in order.\<close>

lemma quiescent_flow:
  assumes "numbered Bs" "flow zenc xxh Bs w" "quiescent w" "wr_firstErr w = None"
  shows "\<exists>ss. mapE (seal_buffer zenc xxh (wr_opts w)) Bs = Inr ss \<and> emitted w ss"
proof -
  obtain ss where P: "pipe zenc xxh Bs ss w" "waiting w" using assms(2-4) by (auto simp: flow_def quiescent_def)
  have q: "mset (map fst (wr_pending w)) = mset (map of_nat [length ss..<length Bs])"
    using P(1) assms(3) by (auto simp: pipe_def in_flight_def quiescent_def seqs_def)
  have "length ss = length Bs"
  proof (rule ccontr)
    assume "length ss \<noteq> length Bs"
    then have "length ss < length Bs" using P(1) by (simp add: pipe_def)
    then have "of_nat (length ss) \<in># mset (map of_nat [length ss..<length Bs] :: u64 list)" by simp
    then have "wr_nextEmit w \<in> fst ` set (wr_pending w)" unfolding q[symmetric] using P(1) by (simp add: pipe_def)
    then show False using P(2) by (simp add: waiting_def)
  qed
  then have "mapE (seal_buffer zenc xxh (wr_opts w)) Bs = Inr ss"
    using P(1) by (simp add: pipe_def mapE_eq_Inr list_all2_conv_all_nth)
  then show ?thesis using P(1) by (auto simp: pipe_def)
qed

text \<open>Handing over one more buffer.\<close>

lemma flow_enqueue:
  assumes "flow zenc xxh Bs w" "wr_nextSeq w = of_nat (length Bs)" "bb_Seq b = of_nat (length Bs)"
  shows "flow zenc xxh (Bs @ [b]) (w\<lparr>wr_sealJobs := wr_sealJobs w @ [b], wr_nextSeq := n, wr_active := a\<rparr>)"
proof (cases "wr_firstErr w = None")
  case True
  then obtain ss where P: "pipe zenc xxh Bs ss w" "wr_emitting w \<or> waiting w" using assms(1) by (auto simp: flow_def)
  let ?w = "w\<lparr>wr_sealJobs := wr_sealJobs w @ [b], wr_nextSeq := n, wr_active := a\<rparr>"
  have le: "length ss \<le> length Bs" using P by (simp add: pipe_def)
  have "in_flight zenc xxh (Bs @ [b]) (length ss) ?w"
    using P(1) le assms(3) by (auto simp: pipe_def in_flight_def seqs_def)
  moreover have "emitted ?w ss" using P(1) by (auto simp: pipe_def emitted_def)
  ultimately have "pipe zenc xxh (Bs @ [b]) ss ?w" using P(1) by (auto simp: pipe_def nth_append)
  then show ?thesis using P(2) by (auto simp: flow_def waiting_def)
qed (simp add: flow_def)

end

end
