(* ===== verification/Seg_Writer_Inv.thy ===== *)
theory Seg_Writer_Inv
  imports Seg_Pipeline
begin

text \<open>
  The invariant of the segment writer over its owner's operations, whatever the schedule: the
  accepted records are split into the groups whose buffers were handed over and the group in the
  active buffer, and the pipeline holds or has written exactly those buffers.
\<close>


section \<open>Filling a buffer\<close>

definition fill :: "WriterRecord list \<Rightarrow> blockBuffer res" where
  "fill hs = foldl (\<lambda>a r. bindE a (\<lambda>b. blockBuffer_Append b r)) (Inr empty_buffer) hs"

lemma fill_simps [simp]:
  "fill [] = Inr empty_buffer"
  "fill (hs @ [r]) = bindE (fill hs) (\<lambda>b. blockBuffer_Append b r)"
  by (simp_all add: fill_def)

abbreviation wire :: "WriterRecord \<Rightarrow> bytes" where
  "wire r \<equiv> record_bytes (raw_record r)"

abbreviation time_le :: "WriterRecord \<Rightarrow> WriterRecord \<Rightarrow> bool" where
  "time_le x y \<equiv> sint (wc_TimestampMS x) \<le> sint (wc_TimestampMS y)"

lemma wire_ne: "0 < length (wire r)" by (simp add: length_record_bytes)

lemma RecordSize_Inr: "RecordSize (wc_Headers r) (wc_Value r) = Inr n \<longleftrightarrow> record_ok (raw_record r) \<and> n = length (wire r)"
  by (auto simp: RecordSize_def RawRecordSize_Inr record_ok_def length_record_bytes raw_record_def)

lemma CanAppend_iff:
  "0 < n \<Longrightarrow> CanAppend b n T \<longleftrightarrow> length (bb_Raw b) + n \<le> MaxRawBlockSize \<and> (bb_Raw b = [] \<or> int (length (bb_Raw b) + n) \<le> T)"
  by (auto simp: CanAppend_def Let_def)

lemma blockBuffer_Append_Inr:
  "blockBuffer_Append b r = Inr b' \<longleftrightarrow> record_ok (raw_record r)
     \<and> length (bb_Raw b) + length (wire r) \<le> MaxRawBlockSize
     \<and> (bb_RecordCount b = 0 \<or> sint (bb_MaxTimestampMS b) \<le> sint (wc_TimestampMS r))
     \<and> b' = b\<lparr>bb_Raw := bb_Raw b @ wire r, bb_RecordCount := bb_RecordCount b + 1, bb_MaxTimestampMS := wc_TimestampMS r,
          bb_BaseLSN := (if bb_RecordCount b = 0 then wc_LSN r else bb_BaseLSN b),
          bb_MinTimestampMS := (if bb_RecordCount b = 0 then wc_TimestampMS r else bb_MinTimestampMS b)\<rparr>"
  by (auto simp: blockBuffer_Append_def RecordSize_Inr AppendRawRecord_append CanAppend_iff[OF wire_ne] Let_def)

lemma blockBuffer_Append_seq:
  "blockBuffer_Append b r = Inr b' \<Longrightarrow> blockBuffer_Append (b\<lparr>bb_Seq := q\<rparr>) r = Inr (b'\<lparr>bb_Seq := q\<rparr>)"
  by (auto simp: blockBuffer_Append_Inr)

lemma fill_Inr:
  "fill hs = Inr b \<Longrightarrow> bb_Seq b = 0 \<and> bb_Raw b = concat (map wire hs) \<and> length (bb_Raw b) \<le> MaxRawBlockSize
     \<and> 16 * length hs \<le> length (bb_Raw b) \<and> unat (bb_RecordCount b) = length hs
     \<and> (\<forall>r \<in> set hs. record_ok (raw_record r)) \<and> sorted_wrt time_le hs
     \<and> (hs \<noteq> [] \<longrightarrow> bb_BaseLSN b = wc_LSN (hd hs) \<and> bb_MinTimestampMS b = wc_TimestampMS (hd hs)
         \<and> bb_MaxTimestampMS b = wc_TimestampMS (last hs))"
proof (induction hs arbitrary: b rule: rev_induct)
  case Nil
  then show ?case by (auto simp: empty_buffer_def)
next
  case (snoc r hs)
  obtain a where a: "fill hs = Inr a" "blockBuffer_Append a r = Inr b" using snoc.prems by auto
  note IH = snoc.IH[OF a(1)]
  note A = a(2)[unfolded blockBuffer_Append_Inr]
  have "16 * length hs \<le> length (bb_Raw a)" using IH by blast
  then have "16 * length (hs @ [r]) \<le> length (bb_Raw a) + length (wire r)" by (simp add: length_record_bytes)
  moreover from this have "length hs + 1 < 4294967296" using A by (simp add: MaxRawBlockSize_def)
  then have "unat (bb_RecordCount a + 1) = length hs + 1"
    using IH by (simp add: unat_word_ariths)
  moreover have z: "bb_RecordCount a = 0 \<longleftrightarrow> hs = []" using IH by (auto simp: unat_eq_zero)
  moreover have "sorted_wrt time_le (hs @ [r])"
  proof (cases "hs = []")
    case False
    then have l: "time_le (last hs) r" using A IH z by auto
    have "time_le x (last hs)" if "x \<in> set hs" for x
      using IH that False by (metis append_butlast_last_id in_set_conv_decomp_first sorted_wrt_append list.set_intros(1) order_refl rotate1.simps(2) set_rotate1 sorted_wrt.simps(2) set_ConsD)
    then show ?thesis using IH l by (force simp: sorted_wrt_append)
  qed simp
  ultimately show ?case using IH A by (cases "hs = []") auto
qed

lemma fill_nonempty: "fill hs = Inr b \<Longrightarrow> length (bb_Raw b) = 0 \<longleftrightarrow> hs = []"
proof -
  assume "fill hs = Inr b"
  then have "16 * length hs \<le> length (bb_Raw b)" "hs = [] \<longrightarrow> bb_Raw b = []" using fill_Inr[of hs b] by auto
  then show ?thesis by (cases hs) auto
qed


section \<open>The log so far\<close>

definition log_ok :: "WriterRecord list \<Rightarrow> bool" where
  "log_ok rs \<longleftrightarrow> length rs \<le> MaxRecordCount \<and> map (\<lambda>r. unat (wc_LSN r)) rs = [unat (wc_LSN (hd rs))..<unat (wc_LSN (hd rs)) + length rs]
     \<and> (\<forall>r \<in> set rs. wc_LSN r \<le> MaxRecordLSN \<and> record_ok (raw_record r)) \<and> sorted_wrt time_le rs"

definition tracks :: "WriterRecord list \<Rightarrow> ('x, 'k) Writer \<Rightarrow> bool" where
  "tracks rs w \<longleftrightarrow> log_ok rs \<and> (wr_hasRecords w \<longleftrightarrow> rs \<noteq> []) \<and> unat (wr_recordCount w) = length rs
     \<and> (rs \<noteq> [] \<longrightarrow> wr_baseLSN w = wc_LSN (hd rs) \<and> wr_nextLSN w = wc_LSN (last rs) + 1
         \<and> wr_minTimestampMS w = wc_TimestampMS (hd rs) \<and> wr_maxTimestampMS w = wc_TimestampMS (last rs))"

lemma sorted_snoc: "sorted_wrt time_le rs \<Longrightarrow> (rs \<noteq> [] \<Longrightarrow> time_le (last rs) r) \<Longrightarrow> sorted_wrt time_le (rs @ [r])"
proof (induction rs)
  case (Cons x rs)
  then show ?case by (cases "rs = []") (auto simp: order.trans dest: bspec[OF _ last_in_set])
qed simp

lemma log_ok_snoc:
  assumes "log_ok rs" "length rs < MaxRecordCount" "wc_LSN r \<le> MaxRecordLSN" "record_ok (raw_record r)"
    and "rs \<noteq> [] \<Longrightarrow> unat (wc_LSN r) = unat (wc_LSN (last rs)) + 1 \<and> time_le (last rs) r"
  shows "log_ok (rs @ [r])"
proof (cases "rs = []")
  case True
  then show ?thesis using assms by (simp add: log_ok_def)
next
  case False
  let ?b = "unat (wc_LSN (hd rs))"
  have m: "map (\<lambda>r. unat (wc_LSN r)) rs = [?b..<?b + length rs]" using assms(1) by (simp add: log_ok_def)
  have "unat (wc_LSN (last rs)) = last (map (\<lambda>r. unat (wc_LSN r)) rs)" using False by (simp add: last_map)
  then have "unat (wc_LSN (last rs)) = ?b + length rs - 1" using False by (simp add: m)
  then have "unat (wc_LSN r) = ?b + length rs" using assms(5)[OF False] False by simp
  then have "map (\<lambda>r. unat (wc_LSN r)) (rs @ [r]) = [?b..<?b + length (rs @ [r])]" by (simp add: m)
  then show ?thesis using assms False sorted_snoc[of rs r] unfolding log_ok_def by simp
qed

lemma tracks_accept:
  assumes "tracks rs w" "validateRecord w r = Inr ()"
  shows "tracks (rs @ [r]) (accept_record r w)"
proof (cases "rs = []")
  case True
  then have w: "\<not> wr_hasRecords w" "wr_recordCount w = 0" using assms(1) by (simp_all add: tracks_def unat_eq_zero)
  have "log_ok ([] @ [r])"
    using assms(2) by (intro log_ok_snoc) (auto simp: log_ok_def MaxRecordCount_def validateRecord_def RecordSize_Inr split: if_splits)
  then show ?thesis using True w by (simp add: tracks_def accept_record_def)
next
  case False
  note T = assms(1)[unfolded tracks_def]
  have v: "record_ok (raw_record r)" "wc_LSN r = wr_nextLSN w" "wr_nextLSN w \<le> MaxRecordLSN" "length rs \<noteq> MaxRecordCount"
      "sint (wr_maxTimestampMS w) \<le> sint (wc_TimestampMS r)"
    using assms(2) T False by (auto simp: validateRecord_def RecordSize_Inr not_less split: if_splits)
  have n: "length rs < MaxRecordCount" using T v(4) by (simp add: log_ok_def)
  have "last rs \<in> set rs" using False by simp
  then have "unat (wc_LSN (last rs) + 1) = unat (wc_LSN (last rs)) + 1" using T by (simp add: log_ok_def unat_succ_lsn)
  then have l: "log_ok (rs @ [r])" using T v n False by (intro log_ok_snoc) auto
  have c: "unat (wr_recordCount w + 1) = length rs + 1"
    using n T by (simp add: MaxRecordCount_def unat_word_ariths)
  have "hd rs \<in> set rs" using False by simp
  moreover have "sorted_wrt time_le (rs @ [r])" using l by (simp add: log_ok_def)
  ultimately have "\<not> sint (wc_TimestampMS r) < sint (wr_minTimestampMS w)" using T False by (auto simp: sorted_wrt_append not_less)
  then show ?thesis using T v l c False by (simp add: tracks_def accept_record_def)
qed

lemma tracks_owner: "tracks rs w \<Longrightarrow> owner w' = owner (w\<lparr>wr_tick := t\<rparr>) \<Longrightarrow> tracks rs w'"
  by (auto simp: tracks_def owner_def)


section \<open>The invariant\<close>

definition holds :: "WriterRecord list \<Rightarrow> blockBuffer \<Rightarrow> bool" where
  "holds h b \<longleftrightarrow> fill h = Inr (b\<lparr>bb_Seq := 0\<rparr>)"

lemma holds_seq [simp]: "holds h (b\<lparr>bb_Seq := q\<rparr>) = holds h b"
  by (simp add: holds_def)

lemma holds_raw: "holds h b \<Longrightarrow> bb_Raw b = concat (map wire h) \<and> (length (bb_Raw b) = 0 \<longleftrightarrow> h = [])"
  using fill_Inr[of h "b\<lparr>bb_Seq := 0\<rparr>"] fill_nonempty[of h "b\<lparr>bb_Seq := 0\<rparr>"] by (auto simp: holds_def)

lemma holds_Append: "holds h b \<Longrightarrow> blockBuffer_Append b r = Inr b' \<Longrightarrow> holds (h @ [r]) b'"
  by (simp add: holds_def blockBuffer_Append_seq)

lemma holds_empty [simp]: "holds [] b \<longleftrightarrow> b\<lparr>bb_Seq := 0\<rparr> = empty_buffer"
  by (auto simp: holds_def)

lemma length_le_concat: "[] \<notin> set Hs \<Longrightarrow> length Hs \<le> length (concat Hs)"
proof (induction Hs)
  case (Cons h Hs)
  then show ?case by (cases h) auto
qed simp

text \<open>The greedy split: a record opens a new group when the active one is full.\<close>

definition place :: "int \<Rightarrow> WriterRecord list list \<times> WriterRecord list \<Rightarrow> WriterRecord \<Rightarrow> WriterRecord list list \<times> WriterRecord list" where
  "place T = (\<lambda>(Hs, hs) r.
     let n = length (concat (map wire hs)) + length (wire r)
     in if hs = [] \<or> n \<le> MaxRawBlockSize \<and> int n \<le> T then (Hs, hs @ [r]) else (Hs @ [hs], [r]))"

abbreviation accepted :: "WriterRecord list list \<times> WriterRecord list \<Rightarrow> WriterRecord list" where
  "accepted G \<equiv> concat (fst G) @ snd G"

definition blocks :: "WriterRecord list list \<times> WriterRecord list \<Rightarrow> WriterRecord list list" where
  "blocks G = fst G @ (if snd G = [] then [] else [snd G])"

lemma concat_blocks [simp]: "concat (blocks G) = accepted G"
  by (simp add: blocks_def)

lemma accepted_place [simp]: "accepted (place T G r) = accepted G @ [r]"
  by (cases G) (auto simp: place_def Let_def)

lemma abortWith_fails [simp]: "abortWith S \<sigma> cleanup err drain w \<noteq> Some (Inr x, w')"
  by (auto simp: abortWith_def Let_def split: option.splits prod.splits)

definition segment_trailer :: "SegWriterOptions \<Rightarrow> WriterRecord list \<Rightarrow> u64 \<Rightarrow> u32 \<Rightarrow> SegTrailer" where
  "segment_trailer opts rs indexOffset blockCount =
     (let indexLength = of_nat IndexPreambleSize + ucast blockCount * of_nat BlockIndexEntrySize :: u64
      in \<lparr>st_Flags = 0, st_Partition = wo_Partition opts, st_Codec = wo_Codec opts, st_HashAlgo = wo_HashAlgo opts,
          st_RecordFormat = RecordFormatV1, st_BaseLSN = wc_LSN (hd rs), st_LastLSN = wc_LSN (last rs),
          st_MinTimestampMS = wc_TimestampMS (hd rs), st_MaxTimestampMS = wc_TimestampMS (last rs),
          st_RecordCount = of_nat (length rs), st_BlockCount = blockCount, st_BlockIndexOffset = indexOffset,
          st_BlockIndexLength = ucast indexLength, st_TotalSize = indexOffset + indexLength + of_nat SegTrailerSize,
          st_CreatedUnixMS = wo_CreatedUnixMS opts, st_SegmentUUID = wo_SegmentUUID opts, st_WriterTag = wo_WriterTag opts,
          st_SegmentHash = 0, st_TrailerHash = 0\<rparr>)"

text \<open>The segment of a given split into blocks, written without a pipeline.\<close>

definition segment_ref ::
  "(bytes \<Rightarrow> bytes) \<Rightarrow> (bytes \<Rightarrow> u64) \<Rightarrow> SegWriterOptions \<Rightarrow> WriterRecord list list \<Rightarrow> (bytes \<times> SegTrailer) res" where
  "segment_ref zenc xxh opts Hs =
     bindE (mapE fill Hs) (\<lambda>Bs.
     bindE (mapE (seal_buffer zenc xxh opts) Bs) (\<lambda>ss.
     bindE (body_ref opts (wc_LSN (hd (concat Hs))) ss) (\<lambda>(bs, ix).
     bindE (checkedBlockCount (length ix)) (\<lambda>n.
     let t = segment_trailer opts (concat Hs) (of_nat (length bs)) n
     in bindE (MarshalBlockIndex xxh ix t) (\<lambda>(ib, _).
        bindE (HashBytes xxh (wo_HashAlgo opts) (bs @ ib)) (\<lambda>h.
        bindE (MarshalTrailer xxh (t\<lparr>st_SegmentHash := h\<rparr>)) (\<lambda>(tb, t). Inr (bs @ ib @ tb, t))))))))"

lemma writer_trailer_ref:
  assumes "tracks rs w" "rs \<noteq> []"
  shows "writer_trailer w off n 0 = segment_trailer (wr_opts w) rs off n"
proof -
  have "wr_recordCount w = of_nat (length rs)" using assms(1) by (metis tracks_def of_nat_unat ucast_id)
  then show ?thesis using assms by (simp add: writer_trailer_def segment_trailer_def tracks_def Let_def)
qed

lemma list_all2_holds: "list_all2 holds Hs Bs \<longleftrightarrow> mapE fill Hs = Inr (map (\<lambda>b. b\<lparr>bb_Seq := 0\<rparr>) Bs)"
  by (simp add: mapE_eq_Inr list_all2_map2 holds_def[abs_def])

lemma mapE_seal: "mapE (seal_buffer zenc xxh opts) (map (\<lambda>b. b\<lparr>bb_Seq := 0\<rparr>) Bs) = mapE (seal_buffer zenc xxh opts) Bs"
  by (induction Bs) (simp_all add: seal_buffer_def blockBuffer_Meta_def)

context segment_sink
begin

definition winv ::
  "(bytes \<Rightarrow> bytes) \<Rightarrow> (bytes \<Rightarrow> u64) \<Rightarrow> WriterRecord list list \<times> WriterRecord list \<Rightarrow> ('x, 'k) Writer \<Rightarrow> bool" where
  "winv zenc xxh = (\<lambda>(Hs, hs) w. tracks (concat Hs @ hs) w \<and> \<not> wr_closed w \<and> \<not> wr_aborted w \<and> [] \<notin> set Hs
     \<and> (case wr_active w of None \<Rightarrow> hs = [] | Some b \<Rightarrow> holds hs b)
     \<and> (\<exists>Bs. numbered Bs \<and> list_all2 holds Hs Bs \<and> wr_nextSeq w = of_nat (length Bs) \<and> flow zenc xxh Bs w))"

lemma flow_update [simp]:
  "flow zenc xxh Bs (w\<lparr>wr_tick := t\<rparr>) = flow zenc xxh Bs w"
  "flow zenc xxh Bs (w\<lparr>wr_active := a\<rparr>) = flow zenc xxh Bs w"
  "flow zenc xxh Bs (w\<lparr>wr_jobsClosed := j\<rparr>) = flow zenc xxh Bs w"
  "flow zenc xxh Bs (w\<lparr>wr_active := a, wr_freeBuffers := f\<rparr>) = flow zenc xxh Bs w"
  by (simp_all add: flow_def pipe_def emitted_def in_flight_def seqs_def waiting_def)

lemma wait_owner: "follows S zenc xxh \<sigma> \<Longrightarrow> owner (wait \<sigma> w) = owner (w\<lparr>wr_tick := wr_tick w + 1\<rparr>)"
proof -
  assume "follows S zenc xxh \<sigma>"
  then have "(bg True S zenc xxh)\<^sup>*\<^sup>* w (fst (\<sigma> (wr_tick w)) w)" by (simp add: follows_def)
  then have "owner (fst (\<sigma> (wr_tick w)) w) = owner w"
    by (induction rule: rtranclp_induct) (auto dest: bg_owner)
  then show ?thesis by (simp add: wait_def owner_def)
qed

lemma wait_flow: "follows S zenc xxh \<sigma> \<Longrightarrow> numbered Bs \<Longrightarrow> flow zenc xxh Bs w \<Longrightarrow> flow zenc xxh Bs (wait \<sigma> w)"
  using bgs_flow[of True zenc xxh w] by (simp add: wait_def follows_def)

lemma winv_wait: "follows S zenc xxh \<sigma> \<Longrightarrow> winv zenc xxh G w \<Longrightarrow> winv zenc xxh G (wait \<sigma> w)"
proof -
  assume f: "follows S zenc xxh \<sigma>" and w: "winv zenc xxh G w"
  note o' = wait_owner[OF f, of w]
  show ?thesis using w owner_fields[OF o'] wait_flow[OF f] tracks_owner[OF _ o']
    by (auto simp: winv_def split: prod.splits option.splits)
qed

text \<open>The outcome of a wait: the awaited branch, or an error with the state as the wait left it.\<close>

lemma cancel_branches_set: "Some (r, w') \<in> set (cancel_branches ctx w) \<Longrightarrow> w' = w \<and> (\<exists>err. r = Inl err)"
  by (auto simp: cancel_branches_def split: option.splits if_splits)

lemma takeFreeBuffer_winv:
  assumes "follows S zenc xxh \<sigma>" "winv zenc xxh (Hs, []) w" "wr_active w = None" "takeFreeBuffer \<sigma> ctx w = Some (r, w')"
  shows "winv zenc xxh (Hs, []) w'" "r = Inr () \<Longrightarrow> wr_active w' = Some empty_buffer" "wr_opts w' = wr_opts w"
proof -
  let ?w = "wait \<sigma> w"
  have W: "winv zenc xxh (Hs, []) ?w" by (rule winv_wait[OF assms(1,2)])
  have o': "wr_opts ?w = wr_opts w" using owner_fields[OF wait_owner[OF assms(1)]] by simp
  have "(r, w') = (Inr (), ?w\<lparr>wr_active := Some empty_buffer, wr_freeBuffers := wr_freeBuffers ?w - 1\<rparr>)
      \<or> w' = ?w \<and> (\<exists>err. r = Inl err)"
    using select_cases[OF assms(4)[unfolded takeFreeBuffer_def Let_def]]
    by (auto dest: cancel_branches_set split: if_splits)
  then show "winv zenc xxh (Hs, []) w'" "r = Inr () \<Longrightarrow> wr_active w' = Some empty_buffer" "wr_opts w' = wr_opts w"
    using W o' by (auto simp: winv_def tracks_def empty_buffer_def)
qed

lemma enqueueActive_winv:
  assumes "follows S zenc xxh \<sigma>" "winv zenc xxh (Hs, hs) w" "hs \<noteq> []" "enqueueActive \<sigma> ctx w = Some (r, w')"
  shows "r = Inr () \<Longrightarrow> winv zenc xxh (Hs @ [hs], []) w' \<and> wr_active w' = None" "r = Inl err \<Longrightarrow> winv zenc xxh (Hs, hs) w'"
    "wr_opts w' = wr_opts w"
proof -
  obtain b where b: "wr_active w = Some b" "holds hs b"
    using assms(2,3) by (auto simp: winv_def split: option.splits)
  have raw: "length (bb_Raw b) \<noteq> 0" using holds_raw[OF b(2)] assms(3) by blast
  let ?b = "b\<lparr>bb_Seq := wr_nextSeq w\<rparr>" and ?v = "w\<lparr>wr_active := Some (b\<lparr>bb_Seq := wr_nextSeq w\<rparr>)\<rparr>"
  let ?w = "wait \<sigma> ?v"
  have V: "winv zenc xxh (Hs, hs) ?v" using assms(2) b by (auto simp: winv_def tracks_def)
  have W: "winv zenc xxh (Hs, hs) ?w" by (rule winv_wait[OF assms(1) V])
  have o': "wr_opts ?w = wr_opts w" "wr_nextSeq ?w = wr_nextSeq w" using owner_fields[OF wait_owner[OF assms(1), of ?v]] by simp_all
  let ?e = "?w\<lparr>wr_sealJobs := wr_sealJobs ?w @ [?b], wr_nextSeq := wr_nextSeq ?w + 1, wr_active := None\<rparr>"
  have R: "(r, w') = (Inr (), ?e) \<or> w' = ?w \<and> (\<exists>err. r = Inl err)"
    using select_cases[OF assms(4)[unfolded enqueueActive_def Let_def b(1) option.case if_not_P[OF raw]]]
    by (auto dest: cancel_branches_set split: if_splits)
  obtain Bs where Bs: "numbered Bs" "list_all2 holds Hs Bs" "wr_nextSeq ?w = of_nat (length Bs)" "flow zenc xxh Bs ?w"
    using W by (auto simp: winv_def)
  have "length Bs = length Hs" using Bs(2) by (simp add: list_all2_lengthD)
  moreover have "length Hs \<le> length (concat Hs)" "length (concat Hs @ hs) \<le> MaxRecordCount"
    using W length_le_concat by (auto simp: winv_def tracks_def log_ok_def)
  ultimately have "numbered (Bs @ [?b])"
    using Bs(1,3) o'(2) by (auto simp: numbered_def MaxRecordCount_def nth_append less_Suc_eq)
  moreover have "flow zenc xxh (Bs @ [?b]) ?e" by (rule flow_enqueue[OF Bs(4,3)]) (use Bs(3) o'(2) in simp)
  moreover have "list_all2 holds (Hs @ [hs]) (Bs @ [?b])" using Bs(2) b(2) by (simp add: list_all2_appendI)
  moreover have "tracks (concat Hs @ hs) ?e" using W by (simp add: winv_def tracks_def)
  ultimately have E: "winv zenc xxh (Hs @ [hs], []) ?e"
    using W Bs(3) assms(3) by (auto simp: winv_def intro!: exI[of _ "Bs @ [?b]"])
  show "r = Inr () \<Longrightarrow> winv zenc xxh (Hs @ [hs], []) w' \<and> wr_active w' = None" "r = Inl err \<Longrightarrow> winv zenc xxh (Hs, hs) w'"
    "wr_opts w' = wr_opts w"
    using R E W o'(1) by auto
qed

lemma finishPipeline_Some:
  "finishPipeline \<sigma> w = Some w' \<Longrightarrow> quiescent (wait \<sigma> (w\<lparr>wr_jobsClosed := True\<rparr>))
     \<and> (w' = wait \<sigma> (w\<lparr>wr_jobsClosed := True\<rparr>) \<and> wr_firstErr w' = None
       \<or> (\<exists>n. w' = returnPending n (wait \<sigma> (w\<lparr>wr_jobsClosed := True\<rparr>))) \<and> wr_firstErr w' \<noteq> None)"
  by (auto simp: finishPipeline_def Let_def split: if_splits)

lemma winv_jobsClosed [simp]: "winv zenc xxh G (w\<lparr>wr_jobsClosed := j\<rparr>) = winv zenc xxh G w"
  by (simp add: winv_def tracks_def split: prod.split option.split)

lemma abort_packer_owner: "abort_packer S ctx w = (r, w') \<Longrightarrow> owner w' = owner w"
  by (auto simp: abort_packer_def owner_def split: option.splits prod.splits)

lemma abortWith_aborted:
  assumes "follows S zenc xxh \<sigma>" "abortWith S \<sigma> cleanup err drain w = Some (r, w')"
  shows "wr_aborted w'" "\<exists>e. r = Inl (err @ e)"
proof -
  let ?w = "(wr_setFirstErr err w)\<lparr>wr_aborted := True\<rparr>"
  obtain v a where v: "(if drain then finishPipeline \<sigma> ?w else Some ?w) = Some v" "abort_packer S cleanup v = (a, w')"
      "r = Inl (join_err err a)"
    using assms(2) by (auto simp: abortWith_def Let_def split: option.splits prod.splits)
  have "wr_aborted v"
  proof (cases drain)
    case True
    let ?v = "?w\<lparr>wr_jobsClosed := True\<rparr>"
    have "v = wait \<sigma> ?v \<or> (\<exists>n. v = returnPending n (wait \<sigma> ?v))" using v(1) True finishPipeline_Some[of \<sigma> ?w v] by auto
    moreover have "wr_aborted (wait \<sigma> ?v)" using owner_fields[OF wait_owner[OF assms(1), of ?v]] by simp
    ultimately show ?thesis by (auto simp: returnPending_def)
  qed (use v(1) in auto)
  then show "wr_aborted w'" using owner_fields[OF abort_packer_owner[OF v(2)]] by simp
  show "\<exists>e. r = Inl (err @ e)" using v(3) by (cases a) (auto simp: join_err_def)
qed

lemma wait_failed_Some:
  assumes "follows S zenc xxh \<sigma>" "wait_failed S \<sigma> cleanup err w = Some (r, w')"
  shows "\<exists>e. r = Inl e" "wr_aborted w' \<or> w' = w"
  using assms(2) abortWith_aborted[OF assms(1), of cleanup err True w r w']
  by (auto simp: wait_failed_def split: if_splits)

lemma validateRecord_tracks: "tracks rs w \<Longrightarrow> tracks rs w' \<Longrightarrow> validateRecord w' r = validateRecord w r"
  unfolding validateRecord_def by (cases "rs = []") (simp_all add: tracks_def)

lemma winv_tracks: "winv zenc xxh (Hs, hs) w \<Longrightarrow> tracks (concat Hs @ hs) w"
  by (simp add: winv_def)

lemma flow_frame:
  assumes "flow zenc xxh Bs w" "wr_firstErr w' = wr_firstErr w" "channels w' = channels w" "wr_pending w' = wr_pending w"
    "wr_nextEmit w' = wr_nextEmit w" "wr_packer w' = wr_packer w" "wr_index w' = wr_index w" "wr_sink w' = wr_sink w"
    "wr_opts w' = wr_opts w" "Bs \<noteq> [] \<Longrightarrow> wr_baseLSN w' = wr_baseLSN w" "wr_emitting w' = wr_emitting w"
  shows "flow zenc xxh Bs w'"
proof (cases "wr_firstErr w")
  case None
  then obtain ss where P: "pipe zenc xxh Bs ss w" "wr_emitting w \<or> waiting w" using assms(1) by (auto simp: flow_def)
  have "in_flight zenc xxh Bs (length ss) w'" using P(1) assms by (auto simp: pipe_def intro: in_flight_frame)
  moreover have "emitted w' ss" using P(1) assms by (cases "ss = []"; cases Bs) (auto simp: pipe_def emitted_def)
  ultimately have "pipe zenc xxh Bs ss w'" using P(1) assms by (auto simp: pipe_def channels_def)
  then show ?thesis using P(2) assms by (auto simp: flow_def waiting_def)
qed (use assms in \<open>simp add: flow_def\<close>)

lemma flow_accept:
  assumes "flow zenc xxh Bs w" "Bs \<noteq> [] \<Longrightarrow> wr_hasRecords w"
  shows "flow zenc xxh Bs (accept_record r (w\<lparr>wr_active := a\<rparr>))"
  by (rule flow_frame[OF assms(1)]) (use assms(2) in \<open>simp_all add: accept_record_def channels_def Let_def\<close>)

lemma store_record_winv:
  assumes "follows S zenc xxh \<sigma>" "winv zenc xxh (Hs, hs) w" "validateRecord w r = Inr ()" "wr_active w \<noteq> None"
    and "store_record S \<sigma> cleanup r w = Some (u, w')"
  shows "u = Inr () \<Longrightarrow> winv zenc xxh (Hs, hs @ [r]) w' \<and> wr_opts w' = wr_opts w" "u = Inl err \<Longrightarrow> wr_aborted w'"
proof -
  obtain b where b: "wr_active w = Some b" "holds hs b" using assms(2,4) by (auto simp: winv_def)
  have c: "(\<exists>err. abortWith S \<sigma> cleanup err True w = Some (u, w'))
      \<or> (\<exists>b'. blockBuffer_Append b r = Inr b' \<and> u = Inr () \<and> w' = accept_record r (w\<lparr>wr_active := Some b'\<rparr>))"
    using assms(5) by (auto simp: store_record_def b(1) split: sum.splits)
  have T: "tracks (concat Hs @ hs) (w\<lparr>wr_active := a\<rparr>)" for a using winv_tracks[OF assms(2)] by (simp add: tracks_def)
  show "wr_aborted w'" if "u = Inl err" using c that abortWith_aborted[OF assms(1)] by blast
  show "winv zenc xxh (Hs, hs @ [r]) w' \<and> wr_opts w' = wr_opts w" if u: "u = Inr ()"
  proof -
    obtain b' where b': "blockBuffer_Append b r = Inr b'" "w' = accept_record r (w\<lparr>wr_active := Some b'\<rparr>)"
      using c u abortWith_aborted(2)[OF assms(1)] by blast
    have "tracks (concat Hs @ hs @ [r]) w'"
      unfolding b'(2) using tracks_accept[OF T] validateRecord_tracks[OF winv_tracks[OF assms(2)] T] assms(3) by simp
    moreover obtain Bs where Bs: "numbered Bs" "list_all2 holds Hs Bs" "wr_nextSeq w = of_nat (length Bs)" "flow zenc xxh Bs w"
      using assms(2) by (auto simp: winv_def)
    moreover have "wr_hasRecords w" if "Bs \<noteq> []"
    proof -
      have "Hs \<noteq> []" "[] \<notin> set Hs" using that Bs(2) assms(2) by (auto simp: winv_def)
      then have "concat Hs @ hs \<noteq> []" by (cases Hs) auto
      then show ?thesis using winv_tracks[OF assms(2)] by (simp add: tracks_def)
    qed
    then have "flow zenc xxh Bs w'" unfolding b'(2) using flow_accept[OF Bs(4)] by blast
    moreover have "wr_active w' = Some b'" "wr_nextSeq w' = wr_nextSeq w" "wr_closed w' = wr_closed w"
        "wr_aborted w' = wr_aborted w" "wr_opts w' = wr_opts w"
      by (simp_all add: b'(2) accept_record_def)
    ultimately show ?thesis using assms(2) holds_Append[OF b(2) b'(1)] by (auto simp: winv_def)
  qed
qed

lemma make_room_winv:
  assumes "follows S zenc xxh \<sigma>" "winv zenc xxh (Hs, hs) w" "validateRecord w r = Inr ()" "wr_active w \<noteq> None"
    and "make_room S \<sigma> ctx cleanup (length (wire r)) r w = Some (u, w')"
  shows "u = Inr () \<Longrightarrow> winv zenc xxh (place (wo_TargetBlockSize (wr_opts w)) (Hs, hs) r) w' \<and> wr_opts w' = wr_opts w"
    and "u = Inl err \<Longrightarrow> wr_aborted w' \<or> (\<exists>G. winv zenc xxh G w' \<and> accepted G = concat Hs @ hs \<and> wr_opts w' = wr_opts w)"
proof -
  let ?T = "wo_TargetBlockSize (wr_opts w)"
  obtain b where b: "wr_active w = Some b" "holds hs b" using assms(2,4) by (auto simp: winv_def)
  note raw = holds_raw[OF b(2)]
  note store = store_record_winv[OF assms(1)]
  have goal: "(u = Inr () \<longrightarrow> winv zenc xxh (place ?T (Hs, hs) r) w' \<and> wr_opts w' = wr_opts w)
    \<and> (u = Inl err \<longrightarrow> wr_aborted w' \<or> (\<exists>G. winv zenc xxh G w' \<and> accepted G = concat Hs @ hs \<and> wr_opts w' = wr_opts w))"
  proof (cases "length (bb_Raw b) > 0 \<and> \<not> CanAppend b (length (wire r)) ?T")
    case False
    then have s: "store_record S \<sigma> cleanup r w = Some (u, w')" using assms(5) by (auto simp: make_room_def b(1))
    have "place ?T (Hs, hs) r = (Hs, hs @ [r])"
      using False raw by (auto simp: place_def CanAppend_iff[OF wire_ne] Let_def)
    then show ?thesis using store[OF assms(2-4) s] by auto
  next
    case True
    have hs: "hs \<noteq> []" using True raw by blast
    have pl: "place ?T (Hs, hs) r = (Hs @ [hs], [r])"
      using True raw hs by (auto simp: place_def CanAppend_iff[OF wire_ne] Let_def)
    obtain u1 w1 where e: "enqueueActive \<sigma> ctx w = Some (u1, w1)" using assms(5) True by (auto simp: make_room_def b(1) split: option.splits)
    note E = enqueueActive_winv[OF assms(1,2) hs e]
    show ?thesis
    proof (cases u1)
      case (Inl e1)
      then have "wait_failed S \<sigma> cleanup e1 w1 = Some (u, w')" using assms(5) True e by (simp add: make_room_def b(1))
      from wait_failed_Some[OF assms(1) this] show ?thesis using E(2)[OF Inl] E(3) by force
    next
      case (Inr x)
      then have E1: "winv zenc xxh (Hs @ [hs], []) w1" "wr_active w1 = None" using E(1) by simp_all
      obtain u2 w2 where t: "takeFreeBuffer \<sigma> ctx w1 = Some (u2, w2)"
        using assms(5) True e Inr by (auto simp: make_room_def b(1) split: option.splits)
      note F = takeFreeBuffer_winv[OF assms(1) E1 t]
      show ?thesis
      proof (cases u2)
        case (Inl e2)
        then have "wait_failed S \<sigma> cleanup e2 w2 = Some (u, w')" using assms(5) True e Inr t by (simp add: make_room_def b(1))
        from wait_failed_Some[OF assms(1) this] show ?thesis using F(1,3) E(3) by force
      next
        case (Inr y)
        then have s: "store_record S \<sigma> cleanup r w2 = Some (u, w')"
          using assms(5) True e \<open>u1 = Inr x\<close> t by (simp add: make_room_def b(1))
        have "tracks (concat Hs @ hs) w2" using winv_tracks[OF F(1)] by simp
        then have "validateRecord w2 r = validateRecord w r" by (rule validateRecord_tracks[OF winv_tracks[OF assms(2)]])
        then have "validateRecord w2 r = Inr ()" using assms(3) by simp
        then show ?thesis using store[OF F(1) _ _ s] F(2,3) Inr E(3) pl by auto
      qed
    qed
  qed
  show "u = Inr () \<Longrightarrow> winv zenc xxh (place ?T (Hs, hs) r) w' \<and> wr_opts w' = wr_opts w"
    "u = Inl err \<Longrightarrow> wr_aborted w' \<or> (\<exists>G. winv zenc xxh G w' \<and> accepted G = concat Hs @ hs \<and> wr_opts w' = wr_opts w)"
    using goal by blast+
qed

lemma Append_winv:
  assumes "follows S zenc xxh \<sigma>" "winv zenc xxh G w" "SegWriter_Append S \<sigma> ctx cleanup r w = Some (u, w')"
  shows "u = Inr () \<Longrightarrow> winv zenc xxh (place (wo_TargetBlockSize (wr_opts w)) G r) w' \<and> wr_opts w' = wr_opts w"
    and "u = Inl err \<Longrightarrow> wr_aborted w' \<or> (\<exists>G'. winv zenc xxh G' w' \<and> accepted G' = accepted G \<and> wr_opts w' = wr_opts w)"
proof -
  obtain Hs hs where G: "G = (Hs, hs)" by fastforce
  note W = assms(2)[unfolded G]
  have open_w: "\<not> wr_closed w" "\<not> wr_aborted w" using W by (simp_all add: winv_def)
  have goal: "(u = Inr () \<longrightarrow> winv zenc xxh (place (wo_TargetBlockSize (wr_opts w)) G r) w' \<and> wr_opts w' = wr_opts w)
    \<and> (u = Inl err \<longrightarrow> wr_aborted w' \<or> (\<exists>G'. winv zenc xxh G' w' \<and> accepted G' = accepted G \<and> wr_opts w' = wr_opts w))"
  proof (cases "wr_firstErr w = None \<and> validateRecord w r = Inr ()")
    case False
    then obtain e where "abortWith S \<sigma> cleanup e True w = Some (u, w')"
      using assms(3) open_w by (auto simp: SegWriter_Append_def split: option.splits sum.splits)
    from abortWith_aborted[OF assms(1) this] show ?thesis by auto
  next
    case True
    then have size: "RecordSize (wc_Headers r) (wc_Value r) = Inr (length (wire r))"
      by (auto simp: validateRecord_def RecordSize_Inr)
    show ?thesis
    proof (cases "wr_active w = None")
      case False
      then have "make_room S \<sigma> ctx cleanup (length (wire r)) r w = Some (u, w')"
        using assms(3) open_w True size by (auto simp: SegWriter_Append_def)
      from make_room_winv[OF assms(1) W _ False this] show ?thesis using True by (auto simp: G)
    next
      case active: True
      then have hs: "hs = []" using W by (simp add: winv_def)
      obtain u1 w1 where t: "takeFreeBuffer \<sigma> ctx w = Some (u1, w1)"
        using assms(3) open_w True size active by (auto simp: SegWriter_Append_def split: option.splits)
      note F = takeFreeBuffer_winv[OF assms(1) W[unfolded hs] active t]
      show ?thesis
      proof (cases u1)
        case (Inl e)
        then have "wait_failed S \<sigma> cleanup e w1 = Some (u, w')"
          using assms(3) open_w True size active t by (simp add: SegWriter_Append_def)
        from wait_failed_Some[OF assms(1) this] show ?thesis using F(1,3) by (force simp: G hs)
      next
        case (Inr x)
        then have m: "make_room S \<sigma> ctx cleanup (length (wire r)) r w1 = Some (u, w')"
          using assms(3) open_w True size active t by (simp add: SegWriter_Append_def)
        have "validateRecord w1 r = Inr ()"
          using validateRecord_tracks[OF winv_tracks[OF W] , of w1] winv_tracks[OF F(1)] True by (simp add: hs)
        then show ?thesis using make_room_winv[OF assms(1) F(1) _ _ m] F(2,3) Inr by (auto simp: G hs)
      qed
    qed
  qed
  show "u = Inr () \<Longrightarrow> winv zenc xxh (place (wo_TargetBlockSize (wr_opts w)) G r) w' \<and> wr_opts w' = wr_opts w"
    "u = Inl err \<Longrightarrow> wr_aborted w' \<or> (\<exists>G'. winv zenc xxh G' w' \<and> accepted G' = accepted G \<and> wr_opts w' = wr_opts w)"
    using goal by blast+
qed

lemma append_all_winv:
  assumes "follows S zenc xxh \<sigma>" "winv zenc xxh G w" "append_all S \<sigma> ctx cleanup rs w = Some (Inr (), w')"
  shows "winv zenc xxh (foldl (place (wo_TargetBlockSize (wr_opts w))) G rs) w' \<and> wr_opts w' = wr_opts w"
  using assms(2,3)
proof (induction rs arbitrary: G w)
  case (Cons r rs)
  obtain w1 where a: "SegWriter_Append S \<sigma> ctx cleanup r w = Some (Inr (), w1)" "append_all S \<sigma> ctx cleanup rs w1 = Some (Inr (), w')"
    using Cons.prems(2) by (auto split: option.splits sum.splits prod.splits)
  have A: "winv zenc xxh (place (wo_TargetBlockSize (wr_opts w)) G r) w1" "wr_opts w1 = wr_opts w"
    using Append_winv(1)[OF assms(1) Cons.prems(1) a(1)] by simp_all
  show ?case using Cons.IH[OF A(1) a(2)] A(2) by simp
qed simp

lemma write_tail_publishes:
  assumes "list_all2 holds Hs Bs" "mapE (seal_buffer zenc xxh (wr_opts w)) Bs = Inr ss" "emitted w ss"
    and "tracks (concat Hs) w" "concat Hs \<noteq> []" "write_tail S xxh \<sigma> c w = Some (Inr res, w')" "follows S zenc xxh \<sigma>"
  shows "\<exists>body. segment_ref zenc xxh (wr_opts w) Hs = Inr (body, wq_Trailer res)
    \<and> published (wr_sink w') (co_URI (wq_Object res)) = Some body \<and> co_SizeBytes (wq_Object res) = of_nat (length body)
    \<and> wq_Metadata res = metadataFromTrailer (wq_Trailer res) \<and> wr_closed w'"
proof -
  have ne: "ss \<noteq> []" using assms(1,2,5) by (auto simp: mapE_eq_Inr)
  obtain p bs where p: "wr_packer w = Some p" "body_ref (wr_opts w) (wr_baseLSN w) ss = Inr (bs, wr_index w)"
      "carries p (wr_sink w) bs" "pk_hashed p = bs" "pk_hashAlgo p = wo_HashAlgo (wr_opts w)" "HashAlgo_Validate (pk_hashAlgo p) = Inr ()"
    using assms(3) ne by (auto simp: emitted_def)
  have off: "pk_offset p = of_nat (length bs)" using p(3) by (simp add: carries_def)
  let ?t = "\<lambda>n. segment_trailer (wr_opts w) (concat Hs) (of_nat (length bs)) n"
  obtain n ib ip p1 k1 where t1: "checkedBlockCount (length (wr_index w)) = Inr n"
      "MarshalBlockIndex xxh (wr_index w) (?t n) = Inr (ib, ip)" "WriteBody S (c 1) ib p (wr_sink w) = (Inr (), p1, k1)"
    using assms(6)
    by (auto simp: write_tail_def p(1) off Let_def writer_trailer_ref[OF assms(4,5)] simp del: One_nat_def split: sum.splits prod.splits)
  obtain h q where bh: "BodyHash xxh p1 = (h, q)" by fastforce
  obtain tb t p2 k2 where t2: "MarshalTrailer xxh ((?t n)\<lparr>st_SegmentHash := h\<rparr>) = Inr (tb, t)"
      "WriteFinal S (c 2) tb q k1 = (Inr (), p2, k2)"
    using assms(6)
    by (auto simp: write_tail_def p(1) off Let_def writer_trailer_ref[OF assms(4,5)] t1 bh simp del: One_nat_def split: sum.splits prod.splits)
  obtain obj p3 where t3: "Complete S (c 3) (c 0) p2 k2 = (Inr obj, p3, wr_sink w')" "wr_closed w'"
      "res = \<lparr>wq_Metadata = metadataFromTrailer t, wq_Object = obj, wq_Trailer = t\<rparr>"
    using assms(6)
    by (auto simp: write_tail_def p(1) off Let_def writer_trailer_ref[OF assms(4,5)] t1 t2 bh simp del: One_nat_def split: sum.splits prod.splits)
  note W = WriteBody_carries[OF t1(3) p(3)]
  have "carries q k1 (bs @ ib)" using W(1) bh by (auto simp: BodyHash_def carries_def)
  note F = WriteFinal_carries[OF t2(2) this]
  have "HashBytes xxh (wo_HashAlgo (wr_opts w)) (bs @ ib) = Inr h"
    using W(2,4) p(4-6) bh by (auto simp: BodyHash_def HashBytes_def)
  moreover have "wr_baseLSN w = wc_LSN (hd (concat Hs))" using assms(4,5) by (simp add: tracks_def)
  ultimately have "segment_ref zenc xxh (wr_opts w) Hs = Inr (bs @ ib @ tb, t)"
    using assms(1,2) p(2) t1(1,2) t2(1) by (simp add: segment_ref_def list_all2_holds mapE_seal)
  then show ?thesis using Complete_publishes[OF t3(1) F] t3(2,3) by simp
qed

lemma Close_publishes:
  assumes "follows S zenc xxh \<sigma>" "winv zenc xxh G w" "SegWriter_Close S xxh \<sigma> c w = Some (Inr res, w')"
  shows "\<exists>body. segment_ref zenc xxh (wr_opts w) (blocks G) = Inr (body, wq_Trailer res)
    \<and> published (wr_sink w') (co_URI (wq_Object res)) = Some body \<and> co_SizeBytes (wq_Object res) = of_nat (length body)
    \<and> wq_Metadata res = metadataFromTrailer (wq_Trailer res) \<and> wr_closed w'" "accepted G \<noteq> []"
proof -
  obtain Hs hs where G: "G = (Hs, hs)" by fastforce
  note W = assms(2)[unfolded G]
  have open_w: "\<not> wr_closed w" "\<not> wr_aborted w" using W by (simp_all add: winv_def)
  let ?enq = "case wr_active w of None \<Rightarrow> Some (Inr (), w) | Some b \<Rightarrow>
                 if length (bb_Raw b) > 0 then enqueueActive \<sigma> (c 4) w else Some (Inr (), w)"
  have has: "wr_hasRecords w" using assms(3) open_w by (auto simp: SegWriter_Close_def split: option.splits if_splits)
  then show ne: "accepted G \<noteq> []" using winv_tracks[OF W] by (simp add: G tracks_def)
  obtain w1 where e: "?enq = Some (Inr (), w1)"
    using assms(3) open_w has by (auto simp: SegWriter_Close_def split: option.splits if_splits sum.splits prod.splits)
  obtain w2 where f: "finishPipeline \<sigma> w1 = Some w2" "wr_firstErr w2 = None" "write_tail S xxh \<sigma> c w2 = Some (Inr res, w')"
    using assms(3) open_w has e by (auto simp: SegWriter_Close_def split: option.splits if_splits sum.splits prod.splits)
  have W1: "winv zenc xxh (blocks G, []) w1 \<and> wr_opts w1 = wr_opts w"
  proof (cases "hs = []")
    case True
    have "length (bb_Raw b) = 0" if "wr_active w = Some b" for b
      using W True that holds_raw[of hs b] by (simp add: winv_def del: holds_empty)
    then have "w1 = w" using e by (auto split: option.splits)
    then show ?thesis using W True by (simp add: G blocks_def)
  next
    case False
    then obtain b where b: "wr_active w = Some b" "holds hs b" using W by (auto simp: winv_def split: option.splits)
    then have "length (bb_Raw b) > 0" using holds_raw[OF b(2)] False by (metis gr0I)
    then have "enqueueActive \<sigma> (c 4) w = Some (Inr (), w1)" using e b(1) by simp
    from enqueueActive_winv[OF assms(1) W False this] show ?thesis using False by (simp add: G blocks_def)
  qed
  have w2: "w2 = wait \<sigma> (w1\<lparr>wr_jobsClosed := True\<rparr>)" "quiescent w2" using finishPipeline_Some[OF f(1)] f(2) by auto
  have W2: "winv zenc xxh (blocks G, []) w2" unfolding w2(1) using W1 by (intro winv_wait[OF assms(1)]) simp
  have o': "wr_opts w2 = wr_opts w" unfolding w2(1) using W1 owner_fields[OF wait_owner[OF assms(1)]] by simp
  obtain Bs where Bs: "numbered Bs" "list_all2 holds (blocks G) Bs" "flow zenc xxh Bs w2" using W2 by (auto simp: winv_def)
  obtain ss where ss: "mapE (seal_buffer zenc xxh (wr_opts w2)) Bs = Inr ss" "emitted w2 ss"
    using quiescent_flow[OF Bs(1,3) w2(2) f(2)] by blast
  have "tracks (concat (blocks G)) w2" using winv_tracks[OF W2] by simp
  from write_tail_publishes[OF Bs(2) ss this _ f(3) assms(1)] ne
  show "\<exists>body. segment_ref zenc xxh (wr_opts w) (blocks G) = Inr (body, wq_Trailer res)
    \<and> published (wr_sink w') (co_URI (wq_Object res)) = Some body \<and> co_SizeBytes (wq_Object res) = of_nat (length body)
    \<and> wq_Metadata res = metadataFromTrailer (wq_Trailer res) \<and> wr_closed w'" by (simp add: o')
qed

lemma New_winv:
  assumes "SegWriter_New numCPU rand now opts (Some k) = Inr (w :: ('x, 'k) Writer)"
  shows "winv zenc xxh ([], []) w" "SegWriter_normalizeOptions numCPU rand now opts = Inr (wr_opts w)"
proof -
  obtain o' where o': "SegWriter_normalizeOptions numCPU rand now opts = Inr o'" using assms by (auto simp: SegWriter_New_def)
  have w: "wr_opts w = o'" using assms o' by (auto simp: SegWriter_New_def split: if_splits)
  then show "SegWriter_normalizeOptions numCPU rand now opts = Inr (wr_opts w)" using o' by simp
  have "0 < wo_SealParallelism o'" using normalizeOptions_ok[OF o'] by (simp add: options_ok_def)
  then have "pipe zenc xxh [] [] w" "waiting w"
    using assms o' by (auto simp: SegWriter_New_def pipe_def emitted_def in_flight_def seqs_def waiting_def split: if_splits)
  then have "flow zenc xxh [] w" by (auto simp: flow_def)
  then show "winv zenc xxh ([], []) w"
    using assms o' by (auto simp: SegWriter_New_def winv_def tracks_def log_ok_def numbered_def empty_buffer_def split: if_splits)
qed

end

end
