(* ===== verification/Seg_Roundtrip.thy ===== *)
theory Seg_Roundtrip
  imports Seg_Whole Seg_Writer_Inv
begin

text \<open>
  What is written can be read: the segment that the writer publishes opens, and reading it gives
  back the accepted records.
\<close>


section \<open>One block\<close>

definition written :: "WriterRecord \<Rightarrow> Record" where
  "written r = \<lparr>rc_LSN = wc_LSN r, rc_TimestampMS = wc_TimestampMS r, rc_Headers = wc_Headers r, rc_Value = wc_Value r\<rparr>"

abbreviation wlsn :: "WriterRecord \<Rightarrow> nat" where
  "wlsn r \<equiv> unat (wc_LSN r)"

lemma contiguous_part:
  assumes "map f (xs @ h @ ys) = [a..<a + length (xs @ h @ ys)]"
  shows "map f h = [a + length xs..<a + length xs + length h]"
proof -
  have "map f h = take (length h) (drop (length xs) (map f (xs @ h @ ys)))" by simp
  also have "\<dots> = [a + length xs..<a + length xs + length h]" unfolding assms by simp
  finally show ?thesis .
qed

lemma contiguous_hd:
  assumes "map f h = [a..<a + length h]" "h \<noteq> []"
  shows "a = f (hd h)"
proof -
  have "f (hd h) = hd (map f h)" using assms(2) by (simp add: hd_map)
  then show ?thesis unfolding assms(1) using assms(2) by (simp add: upt_rec)
qed

lemma block_decodes:
  assumes "zstd_codec zenc zdec" "fill h = Inr b" "seal_buffer zenc xxh opts b = Inr s" "h \<noteq> []"
    and "map wlsn h = [wlsn (hd h)..<wlsn (hd h) + length h]"
  shows "Open zdec xxh (wo_Codec opts) (wo_HashAlgo opts) (sl_Preamble s) (sl_Stored s) = Inr (bb_Raw b)"
    and "\<exists>sc. NewRawBlockScanner (bb_Raw b) (sl_Preamble s) = Inr sc \<and> drain sc = (map written h, None)"
    and "unat (bp_StoredSize (sl_Preamble s)) = length (sl_Stored s)"
    and "bp_MaxTimestampMS (sl_Preamble s) = wc_TimestampMS (last h)"
proof -
  let ?p = "sl_Preamble s" and ?raw = "bb_Raw b"
  have seal: "Seal zenc xxh (wo_Codec opts) (wo_HashAlgo opts) ?raw (blockBuffer_Meta b) = Inr s"
    using assms(3) by (simp add: seal_buffer_def SealOwned_eq)
  note S = Seal_Inr[OF seal] and F = fill_Inr[OF assms(2)]
  show "Open zdec xxh (wo_Codec opts) (wo_HashAlgo opts) ?p (sl_Stored s) = Inr ?raw" by (rule Open_Seal[OF assms(1) seal])
  show "unat (bp_StoredSize ?p) = length (sl_Stored s)" by (rule S(7))
  have p: "bp_BaseLSN ?p = wc_LSN (hd h)" "unat (bp_RecordCount ?p) = length h"
      "bp_MinTimestampMS ?p = wc_TimestampMS (hd h)" "bp_MaxTimestampMS ?p = wc_TimestampMS (last h)"
    using S(10-13) F assms(4) by (simp_all add: blockBuffer_Meta_def)
  show "bp_MaxTimestampMS ?p = wc_TimestampMS (last h)" by (rule p(4))
  have raw: "?raw = concat (map record_bytes (map raw_record h))" using F by (simp add: o_def)
  have "unat (bp_RecordCount ?p) \<le> length ?raw div 16" using S(3,10) by (simp add: validateMeta_lastLSN)
  moreover have "length ?raw div 16 < 4294967296" using S(9) by (simp add: MaxRawBlockSize_def)
  ultimately have "\<not> of_nat (length ?raw div 16) < bp_RecordCount ?p"
    by (simp add: word_less_nat_alt unat_of_nat_u32)
  then have env: "validateRawBlockEnvelope ?raw ?p = Inr ()"
    using S(6,8) by (auto simp: validateRawBlockEnvelope_def BlockPreamble_Validate_def split: if_splits)
  have sorted: "sorted_wrt time_le h" using F by simp
  have "time_le (hd h) x \<and> time_le x (last h)" if "x \<in> set h" for x
    using sorted that
  proof (induction h)
    case (Cons y ys)
    then show ?case by (cases "ys = []") auto
  qed simp
  moreover have "sorted (map ts_of (map raw_record h))" using sorted by (simp add: sorted_wrt_map raw_record_def)
  ultimately have ok: "block_records_ok ?p (map raw_record h)"
    using F p by (auto simp: block_records_ok_def list_all_iff raw_record_def)
  have "map unstamp (map written h) = map raw_record h" by (simp add: unstamp_def written_def raw_record_def)
  moreover have "length h < 4294967296" using p(2) unat_u32_less[of "bp_RecordCount ?p"] by simp
  ultimately have "map written h = stamps (bp_BaseLSN ?p) 0 (map raw_record h)"
    using stamps_lsn_iff[of "map written h" "map raw_record h" "bp_BaseLSN ?p"] validateRawBlockEnvelopeD(3)[OF env] assms(5) p(1,2)
    by (simp add: written_def o_def)
  then have "DecodeRawBlock ?raw ?p = Inr (map written h)" unfolding DecodeRawBlock_iff
    using env ok p(2) raw by auto
  moreover have "\<exists>sc. NewRawBlockScanner ?raw ?p = Inr sc" using env by (simp add: NewRawBlockScanner_def)
  ultimately show "\<exists>sc. NewRawBlockScanner ?raw ?p = Inr sc \<and> drain sc = (map written h, None)" using drain_decode by blast
qed


section \<open>The layout of a segment\<close>

lemma length_FilePreamble: "FilePreamble_MarshalBinary p = Inr buf \<Longrightarrow> length buf = 64"
  by (auto simp: FilePreamble_MarshalBinary_def)

lemma length_BlockPreamble: "BlockPreamble_MarshalBinary p = Inr buf \<Longrightarrow> length buf = 64"
  by (auto simp: BlockPreamble_MarshalBinary_def)

lemma emit_ref_layout:
  assumes "emit_ref (bs0, ix0) ss = Inr (bs, ix)"
  shows "\<exists>sfx. bs = bs0 @ sfx" "\<exists>es. ix = ix0 @ es \<and> length es = length ss"
    "length bs = length bs0 + sum_list (map (\<lambda>s. 64 + length (sl_Stored s)) ss)"
    "k < length ss \<Longrightarrow> \<exists>pre pfx sfx. BlockPreamble_MarshalBinary (sl_Preamble (ss ! k)) = Inr pre
       \<and> bs = pfx @ pre @ sl_Stored (ss ! k) @ sfx \<and> ix ! (length ix0 + k) = index_entry (of_nat (length pfx)) (sl_Preamble (ss ! k))"
  using assms
proof (induction ss arbitrary: bs0 ix0 k)
  case Nil
  { case 1 then show ?case by simp }
  { case 2 then show ?case by simp }
  { case 3 then show ?case by simp }
  { case 4 then show ?case by simp }
next
  case (Cons s ss)
  have step: "\<exists>pre. BlockPreamble_MarshalBinary (sl_Preamble s) = Inr pre \<and> length pre = 64
      \<and> emit_ref (bs0 @ pre @ sl_Stored s, ix0 @ [index_entry (of_nat (length bs0)) (sl_Preamble s)]) ss = Inr (bs, ix)"
    if "emit_ref (bs0, ix0) (s # ss) = Inr (bs, ix)" for bs0 ix0
    using that length_BlockPreamble by auto
  { case 1 then show ?case using step Cons.IH(1) by fastforce }
  { case 2 then show ?case using step Cons.IH(2) by fastforce }
  { case 3 then show ?case using step Cons.IH(3) by fastforce }
  { case 4
    then obtain pre where pre: "BlockPreamble_MarshalBinary (sl_Preamble s) = Inr pre"
        "emit_ref (bs0 @ pre @ sl_Stored s, ix0 @ [index_entry (of_nat (length bs0)) (sl_Preamble s)]) ss = Inr (bs, ix)"
      using step by blast
    show ?case
    proof (cases k)
      case 0
      obtain sfx where sfx: "bs = (bs0 @ pre @ sl_Stored s) @ sfx" using Cons.IH(1)[OF pre(2)] by blast
      obtain es where "ix = (ix0 @ [index_entry (of_nat (length bs0)) (sl_Preamble s)]) @ es" using Cons.IH(2)[OF pre(2)] by blast
      then have "ix ! (length ix0 + k) = index_entry (of_nat (length bs0)) (sl_Preamble s)" using 0 by (simp add: nth_append)
      then show ?thesis using pre(1) sfx 0 by (intro exI[of _ pre] exI[of _ bs0] exI[of _ sfx]) simp
    next
      case (Suc j)
      then show ?thesis using Cons.IH(4)[OF _ pre(2), of j] 4(1) by simp
    qed }
qed

text \<open>The parts of a published segment and where they lie.\<close>

lemma length_windows:
  "list_all2 (\<lambda>e w. length w = n) xs ws \<Longrightarrow> length (concat ws) = n * length xs"
  by (induction rule: list_all2_induct) simp_all

lemma MarshalBlockIndex_facts:
  assumes "MarshalBlockIndex xxh ix t = Inr (ib, ip)"
  shows "ValidateIndex ix t = Inr ()" "length ib = 64 + 64 * length ix" "length ix \<le> MaxBlockCount"
proof -
  obtain ws where w: "mapE (\<lambda>e. bindE (BlockIndexEntry_Validate e) (\<lambda>_.
        Inr (writeBlockIndexEntry (zeros BlockIndexEntrySize) e))) ix = Inr ws" "length ib = 64 + length (concat ws)"
      "ValidateIndex ix t = Inr ()" "length ix \<le> MaxBlockCount"
    using assms by (auto simp: MarshalBlockIndex_def Let_def split: if_splits)
  have "list_all2 (\<lambda>e w. length w = 64) ix ws"
    using w(1)[unfolded mapE_eq_Inr] by (rule list_all2_mono) auto
  then show "ValidateIndex ix t = Inr ()" "length ib = 64 + 64 * length ix" "length ix \<le> MaxBlockCount"
    using w(2-4) length_windows by auto
qed

lemma MarshalTrailer_facts:
  assumes "MarshalTrailer xxh t = Inr (tb, t')"
  shows "length tb = 192" "ParseTrailer xxh tb (st_TotalSize t) = Inr t'" "t' = t\<lparr>st_TrailerHash := st_TrailerHash t'\<rparr>"
    "SegTrailer_Validate t (st_TotalSize t) = Inr ()"
proof -
  obtain h where h: "HashBytes xxh (st_HashAlgo t) (trailer_body t) = Inr h" "SegTrailer_MarshalBinary xxh t = Inr tb"
      "ParseTrailer xxh tb (st_TotalSize t) = Inr t'" "SegTrailer_Validate t (st_TotalSize t) = Inr ()"
    using assms by (auto simp: MarshalTrailer_def SegTrailer_MarshalBinary_def)
  then show "ParseTrailer xxh tb (st_TotalSize t) = Inr t'" "SegTrailer_Validate t (st_TotalSize t) = Inr ()" by simp_all
  have "t' = t\<lparr>st_TrailerHash := h\<rparr>" using ParseTrailer_Marshal[OF h(2)] h(1,3) by simp
  then show "t' = t\<lparr>st_TrailerHash := st_TrailerHash t'\<rparr>" by simp
  show "length tb = 192" using h(1,2) by (auto simp: SegTrailer_MarshalBinary_def)
qed

lemma ValidateIndex_hashes [simp]:
  "ValidateIndex ix (t\<lparr>st_TrailerHash := h\<rparr>) = ValidateIndex ix t"
  "ValidateIndex ix (t\<lparr>st_SegmentHash := g\<rparr>) = ValidateIndex ix t"
proof -
  have "ValidateIndex_loop (t\<lparr>st_TrailerHash := h\<rparr>) p n ix = ValidateIndex_loop t p n ix"
      "ValidateIndex_loop (t\<lparr>st_SegmentHash := g\<rparr>) p n ix = ValidateIndex_loop t p n ix" for p n
    by (induction t p n ix rule: ValidateIndex_loop.induct) (auto simp: Let_def intro!: bindE_cong split: option.split)
  then show "ValidateIndex ix (t\<lparr>st_TrailerHash := h\<rparr>) = ValidateIndex ix t"
      "ValidateIndex ix (t\<lparr>st_SegmentHash := g\<rparr>) = ValidateIndex ix t"
    by (simp_all add: ValidateIndex_def Let_def cong: if_cong)
qed

text \<open>
  \<open>segment_parts\<close>: the buffers, the sealed blocks, the bytes up to the index, the index and its
  bytes, and the trailer's bytes of the segment \<open>body\<close> with trailer \<open>t\<close>.
\<close>

definition segment_parts where
  "segment_parts zenc xxh opts Hs body t Bs ss bs ix ib tb \<longleftrightarrow>
     list_all2 (\<lambda>h b. fill h = Inr b) Hs Bs \<and> list_all2 (\<lambda>b s. seal_buffer zenc xxh opts b = Inr s) Bs ss
   \<and> body_ref opts (wc_LSN (hd (concat Hs))) ss = Inr (bs, ix) \<and> body = bs @ ib @ tb
   \<and> ValidateIndex ix t = Inr () \<and> (\<exists>ip. ParseBlockIndex xxh ib (wo_HashAlgo opts) = Inr (ip, ix))
   \<and> HashBytes xxh (wo_HashAlgo opts) (bs @ ib) = Inr (st_SegmentHash t)
   \<and> ParseTrailer xxh tb (st_TotalSize t) = Inr t \<and> SegTrailer_Validate t (st_TotalSize t) = Inr ()
   \<and> length tb = 192 \<and> length ib = 64 + 64 * length ix \<and> length ix \<le> MaxBlockCount
   \<and> (\<exists>n g h. t = (segment_trailer opts (concat Hs) (of_nat (length bs)) n)\<lparr>st_SegmentHash := g, st_TrailerHash := h\<rparr>)"

lemma segment_trailer_fields [simp]:
  "st_HashAlgo (segment_trailer opts rs off n) = wo_HashAlgo opts" "st_Codec (segment_trailer opts rs off n) = wo_Codec opts"
  "st_BlockIndexOffset (segment_trailer opts rs off n) = off" "st_BlockCount (segment_trailer opts rs off n) = n"
  "st_BaseLSN (segment_trailer opts rs off n) = wc_LSN (hd rs)" "st_LastLSN (segment_trailer opts rs off n) = wc_LSN (last rs)"
  "st_Partition (segment_trailer opts rs off n) = wo_Partition opts" "st_RecordFormat (segment_trailer opts rs off n) = RecordFormatV1"
  "st_SegmentUUID (segment_trailer opts rs off n) = wo_SegmentUUID opts" "st_WriterTag (segment_trailer opts rs off n) = wo_WriterTag opts"
  by (simp_all add: segment_trailer_def Let_def)

lemma segment_ref_parts:
  assumes "segment_ref zenc xxh opts Hs = Inr (body, t)"
  obtains Bs ss bs ix ib tb where "segment_parts zenc xxh opts Hs body t Bs ss bs ix ib tb"
proof -
  obtain Bs ss bs ix n ib ip h tb
    where r: "mapE fill Hs = Inr Bs" "mapE (seal_buffer zenc xxh opts) Bs = Inr ss"
      "body_ref opts (wc_LSN (hd (concat Hs))) ss = Inr (bs, ix)" "body = bs @ ib @ tb"
      "MarshalBlockIndex xxh ix (segment_trailer opts (concat Hs) (of_nat (length bs)) n) = Inr (ib, ip)"
      "HashBytes xxh (wo_HashAlgo opts) (bs @ ib) = Inr h"
      "MarshalTrailer xxh ((segment_trailer opts (concat Hs) (of_nat (length bs)) n)\<lparr>st_SegmentHash := h\<rparr>) = Inr (tb, t)"
    using assms by (auto simp: segment_ref_def Let_def split: prod.splits)
  let ?t = "segment_trailer opts (concat Hs) (of_nat (length bs)) n"
  note M = MarshalTrailer_facts[OF r(7)]
  have t: "t = ?t\<lparr>st_SegmentHash := h, st_TrailerHash := st_TrailerHash t\<rparr>" using M(3) by simp
  have size: "st_TotalSize t = st_TotalSize (?t\<lparr>st_SegmentHash := h\<rparr>)" by (subst t) simp
  have hash: "st_SegmentHash t = h" by (subst t) simp
  have "ValidateIndex ix (?t\<lparr>st_SegmentHash := h, st_TrailerHash := st_TrailerHash t\<rparr>) = Inr ()"
    using MarshalBlockIndex_facts(1)[OF r(5)] by simp
  then have v: "ValidateIndex ix t = Inr ()" using t by simp
  have "SegTrailer_Validate (?t\<lparr>st_SegmentHash := h, st_TrailerHash := st_TrailerHash t\<rparr>) (st_TotalSize t) = Inr ()"
    using M(4) unfolding size by simp
  then have sv: "SegTrailer_Validate t (st_TotalSize t) = Inr ()" using t by simp
  have "segment_parts zenc xxh opts Hs body t Bs ss bs ix ib tb"
    unfolding segment_parts_def using r M(1,2) v sv size hash t MarshalBlockIndex_facts(2,3)[OF r(5)] ParseBlockIndex_Marshal[OF r(5)]
    by (auto simp: mapE_eq_Inr)
  then show thesis by (rule that)
qed

lemma index_length_u32:
  assumes "n \<le> MaxBlockCount"
  shows "unat (ucast (64 + ucast (of_nat n :: u32) * 64 :: u64) :: u32) = 64 + 64 * n"
proof -
  have n: "n \<le> 67108862" using assms by (simp add: MaxBlockCount_def)
  have "unat (ucast (of_nat n :: u32) :: u64) = n" using n by (simp add: unat_of_nat_u32)
  then have "unat (64 + ucast (of_nat n :: u32) * 64 :: u64) = 64 + 64 * n" using n by (simp add: unat_word_ariths)
  then show ?thesis using n by (simp add: unsigned_ucast_eq take_bit_eq_mod)
qed

lemma body_ref_layout:
  assumes "body_ref opts base ss = Inr (bs, ix)"
  shows "\<exists>pre sfx. FilePreamble_MarshalBinary (file_preamble opts base) = Inr pre \<and> length pre = 64 \<and> bs = pre @ sfx"
    "length ix = length ss" "length bs = 64 + sum_list (map (\<lambda>s. 64 + length (sl_Stored s)) ss)"
    "k < length ss \<Longrightarrow> \<exists>pre pfx sfx. BlockPreamble_MarshalBinary (sl_Preamble (ss ! k)) = Inr pre \<and> length pre = 64
       \<and> bs = pfx @ pre @ sl_Stored (ss ! k) @ sfx \<and> ix ! k = index_entry (of_nat (length pfx)) (sl_Preamble (ss ! k))"
proof -
  obtain pre where pre: "FilePreamble_MarshalBinary (file_preamble opts base) = Inr pre" "emit_ref (pre, []) ss = Inr (bs, ix)"
    using assms by (auto simp: body_ref_def)
  note L = emit_ref_layout[OF pre(2)]
  have len: "length pre = 64" by (rule length_FilePreamble[OF pre(1)])
  show "\<exists>pre sfx. FilePreamble_MarshalBinary (file_preamble opts base) = Inr pre \<and> length pre = 64 \<and> bs = pre @ sfx"
    using pre(1) len L(1) by blast
  show "length ix = length ss" "length bs = 64 + sum_list (map (\<lambda>s. 64 + length (sl_Stored s)) ss)"
    using L(2,3) len by auto
  show "\<exists>pre pfx sfx. BlockPreamble_MarshalBinary (sl_Preamble (ss ! k)) = Inr pre \<and> length pre = 64
       \<and> bs = pfx @ pre @ sl_Stored (ss ! k) @ sfx \<and> ix ! k = index_entry (of_nat (length pfx)) (sl_Preamble (ss ! k))"
    if "k < length ss" using emit_ref_layout(4)[OF pre(2) that] length_BlockPreamble by fastforce
qed

lemma seal_buffer_stored: "seal_buffer zenc xxh opts b = Inr s \<Longrightarrow> unat (bp_StoredSize (sl_Preamble s)) = length (sl_Stored s)"
  using Seal_Inr(7) by (simp add: seal_buffer_def SealOwned_eq)

lemma segment_extent:
  assumes "segment_parts zenc xxh opts Hs body t Bs ss bs ix ib tb"
  shows "length bs = unat (st_BlockIndexOffset t)" "length ib = unat (st_BlockIndexLength t)"
    "length body = unat (st_TotalSize t)" "256 \<le> st_TotalSize t" "st_HashAlgo t = wo_HashAlgo opts" "st_Codec t = wo_Codec opts"
proof -
  note P = assms[unfolded segment_parts_def]
  have body: "body_ref opts (wc_LSN (hd (concat Hs))) ss = Inr (bs, ix)" using P by blast
  note L = body_ref_layout[OF body]
  have v: "ValidateIndex ix t = Inr ()" using P by blast
  have "map (\<lambda>e. block_end e - block_start e) ix = map (\<lambda>s. 64 + length (sl_Stored s)) ss"
  proof (rule nth_equalityI)
    fix k assume "k < length (map (\<lambda>e. block_end e - block_start e) ix)"
    then have k: "k < length ss" "k < length ix" using L(2) by simp_all
    then have "seal_buffer zenc xxh opts (Bs ! k) = Inr (ss ! k)" using P by (auto simp: list_all2_conv_all_nth)
    then show "map (\<lambda>e. block_end e - block_start e) ix ! k = map (\<lambda>s. 64 + length (sl_Stored s)) ss ! k"
      using L(4)[OF k(1)] k by (auto simp: block_end_def block_start_def index_entry_def seal_buffer_stored)
  qed (simp add: L(2))
  then have "length bs - 64 = unat (st_BlockIndexOffset t) - 64"
    using span.tiles_spans[OF ValidateIndex_sound(3,1)[OF v]] L(3) by simp
  moreover have tv: "SegTrailer_Validate t (st_TotalSize t) = Inr ()" using P by blast
  then have "128 \<le> unat (st_BlockIndexOffset t)"
    by (auto simp: SegTrailer_Validate_def Let_def word_less_nat_alt split: if_splits)
  ultimately show off: "length bs = unat (st_BlockIndexOffset t)" using L(3) by simp
  have bc: "st_BlockCount t = of_nat (length ix)" using v by (auto simp: ValidateIndex_def split: if_splits)
  have "st_BlockIndexLength t = ucast (64 + ucast (st_BlockCount t) * 64 :: u64)"
    using tv by (auto simp: SegTrailer_Validate_def Let_def split: if_splits)
  then show len: "length ib = unat (st_BlockIndexLength t)" using P index_length_u32[of "length ix"] by (simp add: bc)
  have z: "st_TotalSize t \<noteq> 0"
  proof
    let ?e = "st_BlockIndexOffset t + ucast (st_BlockIndexLength t)"
    assume "st_TotalSize t = 0"
    then have e: "?e \<le> NOT 0 - 192" "?e + 192 = 0"
      using tv by (auto simp: SegTrailer_Validate_def Let_def split: if_splits)
    from e(1) have "unat (?e + 192) = unat ?e + 192" by (simp add: unat_add_u64 word_le_nat_alt)
    then show False using e(2) by simp
  qed
  show total: "length body = unat (st_TotalSize t)" using trailer_extent(1)[OF tv z] off len P by simp
  then show "256 \<le> st_TotalSize t" using off \<open>128 \<le> _\<close> len P by (simp add: word_le_nat_alt)
  show "st_HashAlgo t = wo_HashAlgo opts" "st_Codec t = wo_Codec opts" using P by auto
qed


section \<open>Opening and reading a published segment\<close>

lemma subslice_mid: "subslice (length xs) (length xs + length ys) (xs @ ys @ zs) = ys"
  by (simp add: subslice_def)

lemma open_body_parts:
  assumes "segment_parts zenc xxh opts Hs body t Bs ss bs ix ib tb" "validateRefTrailer ref t = Inr ()"
  shows "open_body xxh body ref ropts = Inr (file_preamble opts (wc_LSN (hd (concat Hs))), t, ix)"
proof -
  note P = assms(1)[unfolded segment_parts_def] and E = segment_extent[OF assms(1)]
  have body: "body_ref opts (wc_LSN (hd (concat Hs))) ss = Inr (bs, ix)" and b: "body = bs @ ib @ tb" using P by blast+
  obtain pre sfx where pre: "FilePreamble_MarshalBinary (file_preamble opts (wc_LSN (hd (concat Hs)))) = Inr pre"
      "length pre = 64" "bs = pre @ sfx"
    using body_ref_layout(1)[OF body] by blast
  have size: "sr_SizeBytes ref = st_TotalSize t" using assms(2) by (auto simp: validateRefTrailer_def split: if_splits)
  have tb: "subslice (length body - 192) (length body) body = tb" using P by (simp add: subslice_def)
  have "subslice (length bs) (length bs + length ib) body = ib" unfolding b by (rule subslice_mid)
  then have ib: "subslice (unat (st_BlockIndexOffset t)) (unat (st_BlockIndexOffset t) + unat (st_BlockIndexLength t)) body = ib"
    by (simp add: E(1,2))
  have hb: "subslice 0 (unat (st_BlockIndexOffset t) + unat (st_BlockIndexLength t)) body = bs @ ib"
    using E(1,2) by (simp add: b subslice_def)
  have p: "subslice 0 64 body = pre" using pre(2,3) by (simp add: b subslice_def)
  have fp: "ParseFilePreamble pre = Inr (file_preamble opts (wc_LSN (hd (concat Hs))))" by (rule ParseFilePreamble_Marshal[OF pre(1)])
  have "FilePreamble_Validate (file_preamble opts (wc_LSN (hd (concat Hs)))) = Inr ()"
    using pre(1) by (auto simp: FilePreamble_MarshalBinary_def)
  then have vp: "ValidatePreambleTrailer (file_preamble opts (wc_LSN (hd (concat Hs)))) t = Inr ()"
    using P by (auto simp: ValidatePreambleTrailer_def file_preamble_def)
  obtain ip where "ParseBlockIndex xxh ib (st_HashAlgo t) = Inr (ip, ix)" using P E(5) by metis
  moreover have "ParseTrailer xxh tb (st_TotalSize t) = Inr t" "ValidateIndex ix t = Inr ()"
      "HashBytes xxh (st_HashAlgo t) (bs @ ib) = Inr (st_SegmentHash t)"
    using P E(5) by simp_all
  ultimately show ?thesis unfolding open_body_def Let_def tb size using assms(2) fp vp by (simp add: p ib hb)
qed

lemma block_scanner_parts:
  assumes "segment_parts zenc xxh opts Hs body t Bs ss bs ix ib tb" "zstd_codec zenc zdec" "k < length ix"
    and "Hs ! k \<noteq> []" "map wlsn (Hs ! k) = [wlsn (hd (Hs ! k))..<wlsn (hd (Hs ! k)) + length (Hs ! k)]"
    and "64 + ucast (bi_StoredSize (ix ! k)) \<le> ro_MaxBlockBytes ropts"
  shows "\<exists>sc. block_scanner zdec xxh body ropts t (ix ! k) = Inr sc \<and> drain sc = (map written (Hs ! k), None)"
    and "bi_MaxTimestampMS (ix ! k) = wc_TimestampMS (last (Hs ! k))"
proof -
  note P = assms(1)[unfolded segment_parts_def] and E = segment_extent[OF assms(1)]
  have body: "body_ref opts (wc_LSN (hd (concat Hs))) ss = Inr (bs, ix)" using P by blast
  note L = body_ref_layout[OF body]
  have k: "k < length ss" using assms(3) L(2) by simp
  then have fs: "fill (Hs ! k) = Inr (Bs ! k)" "seal_buffer zenc xxh opts (Bs ! k) = Inr (ss ! k)"
    using P by (auto simp: list_all2_conv_all_nth)
  note D = block_decodes[OF assms(2) fs assms(4,5)]
  obtain pre pfx sfx where e: "BlockPreamble_MarshalBinary (sl_Preamble (ss ! k)) = Inr pre" "length pre = 64"
      "bs = pfx @ pre @ sl_Stored (ss ! k) @ sfx" "ix ! k = index_entry (of_nat (length pfx)) (sl_Preamble (ss ! k))"
    using L(4)[OF k] by blast
  have "length pfx \<le> unat (st_BlockIndexOffset t)" using E(1) e(3) by simp
  then have "unat (of_nat (length pfx) :: u64) = length pfx"
    using unat_u64_less[of "st_BlockIndexOffset t"] by (simp add: unat_of_nat_u64)
  then have rng: "block_start (ix ! k) = length pfx" "block_end (ix ! k) = length pfx + length (pre @ sl_Stored (ss ! k))"
    using D(3) e(2) by (simp_all add: block_start_def block_end_def e(4) index_entry_def)
  have "body = pfx @ (pre @ sl_Stored (ss ! k)) @ (sfx @ ib @ tb)" using P e(3) by simp
  then have blk: "subslice (block_start (ix ! k)) (block_end (ix ! k)) body = pre @ sl_Stored (ss ! k)"
    unfolding rng by (simp only: subslice_mid)
  have m: "MatchBlockIndexEntry (sl_Preamble (ss ! k)) (ix ! k) = Inr ()" by (simp add: MatchBlockIndexEntry_def e(4) index_entry_def)
  show "\<exists>sc. block_scanner zdec xxh body ropts t (ix ! k) = Inr sc \<and> drain sc = (map written (Hs ! k), None)"
    using D(1,2) assms(6) m ParseBlockPreamble_Marshal[OF e(1)] e(2)
    by (auto simp: block_scanner_def Let_def blk E(5,6))
  show "bi_MaxTimestampMS (ix ! k) = wc_TimestampMS (last (Hs ! k))" using D(4) by (simp add: e(4) index_entry_def)
qed

lemma segment_parts_length: "segment_parts zenc xxh opts Hs body t Bs ss bs ix ib tb \<Longrightarrow> length Hs = length ix"
  using body_ref_layout(2) by (auto simp: segment_parts_def dest!: list_all2_lengthD)

lemma opened_block_parts:
  assumes "segment_parts zenc xxh opts Hs body t Bs ss bs ix ib tb" "zstd_codec zenc zdec" "log_ok (concat Hs)" "[] \<notin> set Hs"
    and "reader_serves r body" "sd_trailer r = t" "sd_index r = ix" "DefaultMaxBlockBytes \<le> ro_MaxBlockBytes (sd_opts r)"
    and "k < length ix"
  shows "\<exists>sc. openBlockScanner zdec xxh None r k = Inr sc \<and> drain sc = (map written (Hs ! k), None)"
    and "Hs ! k \<noteq> []" "bi_MaxTimestampMS (ix ! k) = wc_TimestampMS (last (Hs ! k))"
proof -
  have k: "k < length ix" "k < length Hs" using assms(9) segment_parts_length[OF assms(1)] by simp_all
  show ne: "Hs ! k \<noteq> []" using assms(4) k(2) nth_mem by metis
  have split: "concat Hs = concat (take k Hs) @ Hs ! k @ concat (drop (k + 1) Hs)"
    using k(2) by (metis append_take_drop_id concat.simps(2) concat_append Cons_nth_drop_Suc Suc_eq_plus1)
  have "map wlsn (concat Hs) = [wlsn (hd (concat Hs))..<wlsn (hd (concat Hs)) + length (concat Hs)]"
    using assms(3) by (simp add: log_ok_def)
  note c = contiguous_part[OF this[unfolded split]]
  have lsn: "map wlsn (Hs ! k) = [wlsn (hd (Hs ! k))..<wlsn (hd (Hs ! k)) + length (Hs ! k)]"
    using c contiguous_hd[OF c ne] by simp
  have "entry_ok (ix ! k)" using reader_okD(1)[of r] assms(5,7) k(1) by (auto simp: reader_serves_def list_all_length)
  then have "unat (bi_StoredSize (ix ! k)) \<le> MaxStoredBlockSize" by (auto simp: BlockIndexEntry_Validate_def split: if_splits)
  then have "64 + ucast (bi_StoredSize (ix ! k)) \<le> DefaultMaxBlockBytes"
    by (simp add: DefaultMaxBlockBytes_def MaxStoredBlockSize_def word_le_nat_alt unat_add_u64)
  then have size: "64 + ucast (bi_StoredSize (ix ! k)) \<le> ro_MaxBlockBytes (sd_opts r)" using assms(8) by (rule order.trans)
  note B = block_scanner_parts[OF assms(1,2) k(1) ne lsn size]
  show "\<exists>sc. openBlockScanner zdec xxh None r k = Inr sc \<and> drain sc = (map written (Hs ! k), None)"
    using openBlockScanner_serves[OF assms(5), of k] B(1) k(1) by (simp add: assms(6,7))
  show "bi_MaxTimestampMS (ix ! k) = wc_TimestampMS (last (Hs ! k))" by (rule B(2))
qed

lemma seg_stream_parts:
  assumes "segment_parts zenc xxh opts Hs body t Bs ss bs ix ib tb" "zstd_codec zenc zdec" "log_ok (concat Hs)" "[] \<notin> set Hs"
    and "reader_serves r body" "sd_trailer r = t" "sd_index r = ix" "DefaultMaxBlockBytes \<le> ro_MaxBlockBytes (sd_opts r)"
  shows "seg_stream zdec xxh r 0 k = (map written (concat (drop k Hs)), None)"
proof (induction "length ix - k" arbitrary: k)
  case 0
  then show ?case using segment_parts_length[OF assms(1)] by (simp add: seg_stream.simps[of _ _ _ _ k] assms(7))
next
  case (Suc n)
  have k: "k < length ix" "k < length Hs" using Suc.hyps(2) segment_parts_length[OF assms(1)] by simp_all
  obtain sc where sc: "openBlockScanner zdec xxh None r k = Inr sc" "drain sc = (map written (Hs ! k), None)"
    using opened_block_parts(1)[OF assms k(1)] by blast
  then have "seg_stream zdec xxh r 0 k = (map written (Hs ! k) @ map written (concat (drop (k + 1) Hs)), None)"
    using Suc.hyps(1)[of "k + 1"] Suc.hyps(2) k(1) sc(2)
    by (simp add: seg_stream.simps[of _ _ _ _ k] then_stream_def assms(7))
  then show ?case using k(2) by (simp add: Cons_nth_drop_Suc[symmetric])
qed

lemma seg_stream_from:
  assumes "seg_stream zdec xxh r 0 k = (xs, None)" "k < length (sd_index r)"
  shows "\<exists>ys. seg_stream zdec xxh r f k = (ys, None) \<and> set ys \<subseteq> set xs"
proof -
  obtain bs where bs: "openBlockScanner zdec xxh None r k = Inr bs"
    using assms by (cases "openBlockScanner zdec xxh None r k") (simp_all add: seg_stream.simps[of _ _ _ _ k])
  then have t: "then_stream 0 (drain bs) (seg_stream zdec xxh r 0 (k + 1)) = (xs, None)"
    using assms by (simp add: seg_stream.simps[of _ _ _ _ k])
  then show ?thesis
    using bs assms(2)
    by (cases "snd (drain bs)") (auto simp: seg_stream.simps[of _ _ _ f k] then_stream_def Let_def)
qed

text \<open>The records a reader is expected to return from \<open>fromLSN\<close> on.\<close>

definition expected :: "u64 \<Rightarrow> int \<Rightarrow> WriterRecord list \<Rightarrow> WriterRecord list" where
  "expected fromLSN limit rs =
     (let xs = filter (\<lambda>r. fromLSN \<le> wc_LSN r) rs in if limit \<le> 0 then xs else take (nat limit) xs)"

definition read_back :: "u32 \<Rightarrow> WriterRecord \<Rightarrow> ReaderRecord" where
  "read_back part r = \<lparr>re_Partition = part, re_LSN = wc_LSN r, re_TimestampMS = wc_TimestampMS r,
     re_Headers = wc_Headers r, re_Value = wc_Value r\<rparr>"

lemma take_stream_None: "take_stream limit 0 (xs, None) = Inr (if limit \<le> 0 then xs else take (nat limit) xs)"
  by (auto simp: take_stream_def)

lemma read_stream_parts:
  assumes "segment_parts zenc xxh opts Hs body t Bs ss bs ix ib tb" "zstd_codec zenc zdec" "log_ok (concat Hs)" "[] \<notin> set Hs"
    "concat Hs \<noteq> []"
    and "reader_serves r body" "sd_trailer r = t" "sd_index r = ix" "DefaultMaxBlockBytes \<le> ro_MaxBlockBytes (sd_opts r)"
  shows "read_stream zdec xxh r f = (map written (filter (\<lambda>x. f \<le> wc_LSN x) (concat Hs)), None)"
proof -
  let ?rs = "concat Hs"
  have ok: "reader_ok r" using assms(6) by (simp add: reader_serves_def)
  have t: "st_BaseLSN t = wc_LSN (hd ?rs)" "st_LastLSN t = wc_LSN (last ?rs)" using assms(1) by (auto simp: segment_parts_def)
  let ?b = "wlsn (hd ?rs)"
  have up: "map wlsn ?rs = [?b..<?b + length ?rs]" using assms(3) by (simp add: log_ok_def)
  have "wlsn (last ?rs) = last (map wlsn ?rs)" using assms(5) by (simp add: last_map)
  then have top: "wlsn (last ?rs) + 1 = ?b + length ?rs" using assms(5) by (simp add: up)
  have "?b \<le> wlsn x \<and> wlsn x \<le> wlsn (last ?rs)" if "x \<in> set ?rs" for x
  proof -
    have "wlsn x \<in> set (map wlsn ?rs)" using that by force
    then show ?thesis unfolding up using top by simp
  qed
  then have bnd: "x \<in> set ?rs \<Longrightarrow> wc_LSN x \<le> wc_LSN (last ?rs)" for x by (simp add: word_le_nat_alt)
  show ?thesis
  proof (cases "f > st_LastLSN t")
    case True
    then have "filter (\<lambda>x. f \<le> wc_LSN x) ?rs = []" using bnd t(2) by (force simp: filter_empty_conv not_le)
    then show ?thesis using True by (simp add: read_stream_def assms(7))
  next
    case False
    let ?f = "max f (st_BaseLSN t)"
    define k where "k = search_list (\<lambda>e. ?f \<le> blockLastLSN e) ix"
    have rs: "read_stream zdec xxh r f = seg_stream zdec xxh r ?f k"
      using False by (simp add: read_stream_def k_def assms(7,8) Let_def)
    have "st_BaseLSN t \<le> st_LastLSN t" unfolding t by (rule bnd[OF hd_in_set[OF assms(5)]])
    then have "?f \<le> st_LastLSN t" "st_BaseLSN t \<le> ?f" using False by auto
    then have "k < length ix"
      unfolding k_def using scan_block(1)[OF ok, of ?f] by (simp add: assms(7,8) word_le_nat_alt)
    then obtain ys where ys: "seg_stream zdec xxh r ?f k = (ys, None)" "set ys \<subseteq> set (map written (concat (drop k Hs)))"
      using seg_stream_from[OF seg_stream_parts[OF assms(1-4,6-9)], of k ?f] assms(8) by auto
    have "set (concat (drop k Hs)) \<subseteq> set ?rs" using set_drop_subset[of k Hs] by auto
    then have sub: "set ys \<subseteq> set (map written ?rs)" using ys(2) unfolding set_map by (meson image_mono order_trans)
    have "map lsn_of ys = [max (unat f) ?b..<wlsn (last ?rs) + 1]"
      using read_stream_lsns[OF ok, of zdec xxh f] ys(1) by (auto simp: rs assms(7) t)
    moreover have "map lsn_of (map written (filter (\<lambda>x. f \<le> wc_LSN x) ?rs)) = [max ?b (unat f)..<?b + length ?rs]"
      using filter_upt[OF up, of "unat f"] by (simp add: written_def o_def word_le_nat_alt)
    ultimately have "map lsn_of ys = map lsn_of (map written (filter (\<lambda>x. f \<le> wc_LSN x) ?rs))"
      by (simp only: top max.commute)
    moreover have "distinct (map lsn_of (map written ?rs))" using up by (simp add: written_def o_def)
    then have "inj_on lsn_of (set (map written ?rs))" unfolding distinct_map by blast
    then have "inj_on lsn_of (set ys \<union> set (map written (filter (\<lambda>x. f \<le> wc_LSN x) ?rs)))"
      by (rule inj_on_subset) (use sub in auto)
    ultimately have "ys = map written (filter (\<lambda>x. f \<le> wc_LSN x) ?rs)" by (rule map_inj_on)
    then show ?thesis using rs ys(1) by simp
  qed
qed

lemma segment_reads_back:
  assumes "segment_ref zenc xxh opts Hs = Inr (body, t)" "zstd_codec zenc zdec" "log_ok (concat Hs)" "[] \<notin> set Hs"
    "concat Hs \<noteq> []"
    and "serves store (sr_URI ref) body" "validateRefTrailer ref t = Inr ()" "validateOpen (Some store) ref ropts = Inr ropts'"
    and "DefaultMaxBlockBytes \<le> ro_MaxBlockBytes ropts'"
  shows "\<exists>r. SegReader_Open xxh None (Some store) ref ropts = Inr r
    \<and> (\<forall>f limit. SegReader_Read zdec xxh None r f limit = Inr (map (read_back (wo_Partition opts)) (expected f limit (concat Hs))))
    \<and> (\<forall>ts. FindLSNByTimestamp zdec xxh None r ts =
         Inr (map_option wc_LSN (List.find (\<lambda>x. sint ts \<le> sint (wc_TimestampMS x)) (concat Hs))))"
proof -
  obtain Bs ss bs ix ib tb where P: "segment_parts zenc xxh opts Hs body t Bs ss bs ix ib tb" by (rule segment_ref_parts[OF assms(1)])
  note E = segment_extent[OF P]
  have size: "sr_SizeBytes ref = st_TotalSize t" using assms(7) by (auto simp: validateRefTrailer_def split: if_splits)
  let ?r = "\<lparr>sd_store = store, sd_ref = ref, sd_opts = ropts', sd_borrowBlocks = False,
         sd_preamble = file_preamble opts (wc_LSN (hd (concat Hs))), sd_trailer = t, sd_index = ix\<rparr>"
  have len: "length body = unat (sr_SizeBytes ref)" "256 \<le> sr_SizeBytes ref" using E(3,4) size by simp_all
  have op: "open_segment xxh None store ref ropts' False = Inr ?r"
    unfolding open_segment_serves[OF assms(6) len] open_body_parts[OF P assms(7)] by simp
  have sv: "reader_serves ?r body" by (rule open_serves[OF assms(6) len op])
  have ok: "reader_ok ?r" using sv by (simp add: reader_serves_def)
  have st: "seg_stream zdec xxh ?r 0 0 = (map written (concat Hs), None)"
    using seg_stream_parts[OF P assms(2-4) sv] assms(9) by simp
  have part: "st_Partition t = wo_Partition opts" using P by (auto simp: segment_parts_def)
  have "SegReader_Read zdec xxh None ?r f limit = Inr (map (read_back (wo_Partition opts)) (expected f limit (concat Hs)))" for f limit
    using read_stream_parts[OF P assms(2-5) sv, of f] assms(9)
    by (simp add: Read_stream[OF ok] take_stream_None expected_def take_map to_record_def[abs_def] written_def read_back_def part Let_def)
  moreover have "FindLSNByTimestamp zdec xxh None ?r ts = Inr (map_option wc_LSN (List.find (\<lambda>x. sint ts \<le> sint (wc_TimestampMS x)) (concat Hs)))"
    for ts
  proof -
    have "times_met zdec xxh ?r" unfolding times_met_def
      using opened_block_parts[OF P assms(2-4) sv] assms(9) by (fastforce simp: written_def)
    moreover have "List.find P (map g xs) = map_option g (List.find (P \<circ> g) xs)" for P and g :: "WriterRecord \<Rightarrow> Record" and xs
      by (induction xs) auto
    ultimately show ?thesis using FindLSNByTimestamp_returns[OF ok st]
      by (simp add: option.map_comp o_def written_def)
  qed
  moreover have "SegReader_Open xxh None (Some store) ref ropts = Inr ?r" using assms(8) op by (simp add: SegReader_Open_def)
  ultimately show ?thesis by blast
qed

end
