(* ===== verification/Seg_Writer_Run.thy ===== *)
theory Seg_Writer_Run
  imports Seg_Pipeline
begin

text \<open>
  The pipeline of the segment writer comes to rest: every step but a cancellation uses up work, a
  pipeline that is not at rest has a step, and so running it down terminates. What an owner may
  count on of a schedule is that it cancels nothing (\<open>steady\<close>) and that it lets the owner
  wait until a branch is ready or the pipeline is at rest (\<open>fair\<close>); the schedule that runs
  the pipeline down at every wait is one of them.
\<close>

definition load :: "('x, 'k) Writer \<Rightarrow> nat" where
  "load w = 5 * length (wr_sealJobs w) + 4 * length (wr_sealing w) + 3 * length (wr_sealedOut w)
     + length (wr_pending w) + (if wr_emitting w then 1 else 0)"

lemma load_setFirstErr [simp]: "load (wr_setFirstErr err w) = load w"
  by (simp add: load_def wr_setFirstErr_def split: option.split)

lemma load_returns [simp]: "load (return_buffer d w) = load w"
  by (simp add: load_def)

lemma load_record_seal [simp]: "load (record_seal r w) = load w"
  by (simp add: record_seal_def split: sum.split)

lemma load_receive: "\<not> wr_emitting w \<Longrightarrow> load (emitter_receive d result w) \<le> load w + 2"
proof (cases "sb_Sealed result")
  case (Inr sealed)
  then show "\<not> wr_emitting w \<Longrightarrow> load (emitter_receive d result w) \<le> load w + 2"
    by (simp add: emitter_receive_def load_def le_SucI)
qed (simp add: emitter_receive_def)

lemma load_iterate:
  assumes "wr_emitting w"
  shows "load (emitter_iterate S c d n w) < load w"
proof (cases "wr_firstErr w = None \<and> map_of (wr_pending w) (wr_nextEmit w) \<noteq> None")
  case False
  then show ?thesis using assms by (auto simp: emitter_iterate_def load_def split: option.split)
next
  case True
  then obtain s where s: "map_of (wr_pending w) (wr_nextEmit w) = Some s" by blast
  let ?w = "w\<lparr>wr_pending := filter (\<lambda>e. fst e \<noteq> wr_nextEmit w) (wr_pending w)\<rparr>"
  obtain r w' where e: "emitSealed S c s ?w = (r, w')" by fastforce
  note F = emitSealed_fields[OF e] emitSealed_owner[OF e]
  have em: "wr_emitting w' = wr_emitting w"
    using arg_cong[OF emitSealed_frame[OF e, where p = None and k = "wr_sink w"], of wr_emitting] by simp
  have less: "length (wr_pending w') < length (wr_pending w)" using remove_key_decreases[OF s] F(1) by simp
  show ?thesis
  proof (cases r)
    case (Inl err)
    have "load (emitter_iterate S c d n w) \<le> load (return_buffer d w')"
      using True s e Inl by (simp add: emitter_iterate_def) (simp add: load_def wr_setFirstErr_def split: option.split)
    then show ?thesis using less F(6) em assms by (simp add: load_def channels_def)
  next
    case (Inr entry)
    then show ?thesis using True s e less F(6) em assms by (simp add: emitter_iterate_def) (simp add: load_def channels_def)
  qed
qed

lemma bg_load: "bg cx S zenc xxh w w' \<Longrightarrow> load w' < load w \<or> (\<exists>err. w' = wr_setFirstErr err w)"
proof (induction rule: bg.induct)
  case (receive w result rest d)
  have "load (emitter_receive d result (w\<lparr>wr_sealedOut := rest\<rparr>)) \<le> load (w\<lparr>wr_sealedOut := rest\<rparr>) + 2"
    using receive(1) by (intro load_receive) simp
  then show ?case using receive by (simp add: load_def)
qed (auto simp: load_iterate, auto simp: load_def)

text \<open>One step of a fixed order of work: write out results, then seal, then take jobs.\<close>

definition rest_step ::
  "('x, 'k) Sink \<Rightarrow> (bytes \<Rightarrow> bytes) \<Rightarrow> (bytes \<Rightarrow> u64) \<Rightarrow> ('x, 'k) Writer \<Rightarrow> ('x, 'k) Writer option" where
  "rest_step S zenc xxh w =
     (if wr_emitting w then Some (emitter_iterate S (\<lambda>_. None) True 0 w) else
      case wr_sealedOut w of result # rest \<Rightarrow> Some (emitter_receive True result (w\<lparr>wr_sealedOut := rest\<rparr>))
      | [] \<Rightarrow>
     (case wr_sealing w of b # ys \<Rightarrow>
        let r = seal_buffer zenc xxh (wr_opts w) b
        in Some (record_seal r (w\<lparr>wr_sealing := ys, wr_sealedOut := wr_sealedOut w @ [\<lparr>sb_Seq = bb_Seq b, sb_Sealed = r\<rparr>],
             wr_workers := (case r of Inl _ \<Rightarrow> wr_workers w - 1 | Inr _ \<Rightarrow> wr_workers w)\<rparr>))
      | [] \<Rightarrow>
     (case wr_sealJobs w of b # jobs \<Rightarrow>
        if 0 < wr_workers w then Some (w\<lparr>wr_sealJobs := jobs, wr_sealing := [b]\<rparr>) else None
      | [] \<Rightarrow> None)))"

lemma rest_step_bg:
  assumes "rest_step S zenc xxh w = Some w'"
  shows "bg cx S zenc xxh w w'" "load w' < load w"
proof -
  have "bg False S zenc xxh w w' \<and> load w' < load w"
  proof (cases "wr_emitting w")
    case True
    then show ?thesis using assms bg.iterate[of w False "\<lambda>_. None"] load_iterate[of w] by (auto simp: rest_step_def)
  next
    case idle: False
    show ?thesis
    proof (cases "wr_sealedOut w")
      case (Cons result rest)
      let ?w = "w\<lparr>wr_sealedOut := rest\<rparr>"
      have w': "w' = emitter_receive True result ?w" using assms idle Cons by (simp add: rest_step_def)
      have "load w' \<le> load ?w + 2" unfolding w' using idle by (intro load_receive) simp
      then show ?thesis using bg.receive[OF idle Cons] by (simp add: w' load_def Cons)
    next
      case out: Nil
      show ?thesis
      proof (cases "wr_sealing w")
        case (Cons b ys)
        then show ?thesis
          using assms idle out bg.post[of w "[]" b ys "seal_buffer zenc xxh (wr_opts w) b" zenc xxh False S]
          by (auto simp: rest_step_def Let_def) (simp add: load_def)
      next
        case Nil
        then show ?thesis
          using assms idle out bg.take_job[of w _ _ False S zenc xxh]
          by (auto simp: rest_step_def load_def split: list.splits if_splits)
      qed
    qed
  qed
  then show "bg cx S zenc xxh w w'" "load w' < load w" using bg_mono by blast+
qed

lemma rest_step_None: "rest_step S zenc xxh w = None \<longleftrightarrow> quiescent w"
  by (auto simp: rest_step_def quiescent_def Let_def split: list.split)

function run_down ::
  "('x, 'k) Sink \<Rightarrow> (bytes \<Rightarrow> bytes) \<Rightarrow> (bytes \<Rightarrow> u64) \<Rightarrow> ('x, 'k) Writer \<Rightarrow> ('x, 'k) Writer" where
  "run_down S zenc xxh w = (case rest_step S zenc xxh w of None \<Rightarrow> w | Some w' \<Rightarrow> run_down S zenc xxh w')"
  by pat_completeness auto
termination
  by (relation "measure (\<lambda>(_, _, _, w). load w)") (auto dest: rest_step_bg(2))

declare run_down.simps [simp del]

lemma run_down_bg: "(bg cx S zenc xxh)\<^sup>*\<^sup>* w (run_down S zenc xxh w) \<and> quiescent (run_down S zenc xxh w)"
proof (induction S zenc xxh w rule: run_down.induct)
  case (1 S zenc xxh w)
  show ?case
  proof (cases "rest_step S zenc xxh w")
    case None
    then have "quiescent w" by (simp add: rest_step_None)
    then show ?thesis using None by (simp add: run_down.simps[of _ _ _ w])
  next
    case (Some w')
    have "(bg cx S zenc xxh)\<^sup>*\<^sup>* w' (run_down S zenc xxh w')" "quiescent (run_down S zenc xxh w')" using 1[OF Some] by simp_all
    then show ?thesis using rest_step_bg(1)[OF Some, of cx] Some
      by (simp add: run_down.simps[of _ _ _ w] converse_rtranclp_into_rtranclp)
  qed
qed


section \<open>Schedules\<close>

text \<open>A schedule under which no context is cancelled.\<close>

definition steady :: "('x, 'k) Sink \<Rightarrow> (bytes \<Rightarrow> bytes) \<Rightarrow> (bytes \<Rightarrow> u64) \<Rightarrow> ('x, 'k) schedule \<Rightarrow> bool" where
  "steady S zenc xxh \<sigma> \<longleftrightarrow> (\<forall>n w. (bg False S zenc xxh)\<^sup>*\<^sup>* w (fst (\<sigma> n) w))"

text \<open>
  A schedule under which the pipeline runs as long as it can while the owner has to wait: for all
  of it once the jobs are closed, and for a free buffer while the owner has none. While the owner
  holds a buffer nothing is asked.
\<close>

definition fair :: "('x, 'k) schedule \<Rightarrow> bool" where
  "fair \<sigma> \<longleftrightarrow> (\<forall>n w. quiescent (fst (\<sigma> n) w)
     \<or> \<not> wr_jobsClosed w \<and> (wr_active w \<noteq> None \<or> 0 < wr_freeBuffers (fst (\<sigma> n) w)))"

lemma steady_follows: "steady S zenc xxh \<sigma> \<Longrightarrow> follows S zenc xxh \<sigma>"
  unfolding steady_def follows_def by (metis bg_mono mono_rtranclp)

definition eager :: "('x, 'k) Sink \<Rightarrow> (bytes \<Rightarrow> bytes) \<Rightarrow> (bytes \<Rightarrow> u64) \<Rightarrow> ('x, 'k) schedule" where
  "eager S zenc xxh = (\<lambda>_. (run_down S zenc xxh, 0))"

lemma steady_eager: "steady S zenc xxh (eager S zenc xxh)"
  unfolding steady_def eager_def fst_conv using run_down_bg by blast

lemma fair_eager: "fair (eager S zenc xxh)"
  unfolding fair_def eager_def fst_conv using run_down_bg by blast

lemmas follows_eager = steady_follows[OF steady_eager]

text \<open>No run of the pipeline without cancellations is longer than the load it starts with.\<close>

lemma bg_run_bounded:
  assumes "\<forall>i < n. bg cx S zenc xxh (f i) (f (Suc i)) \<and> load (f (Suc i)) < load (f i)"
  shows "n + load (f n) \<le> load (f 0)"
  using assms
proof (induction n)
  case (Suc n)
  then show ?case by fastforce
qed simp

end
