(* ===== verification/Seg_Writer_Live.thy ===== *)
theory Seg_Writer_Live
  imports Seg_Roundtrip Seg_Writer_Run
begin

text \<open>
  The writer succeeds: over the in-memory sink and under every schedule that cancels nothing and
  lets the owner wait until it can go on, appending records that form a log and closing publishes
  the segment, whenever the blocks can be sealed and the index and the trailer are valid.
\<close>


section \<open>A pipeline without errors\<close>

definition clean :: "memoryTxn packer \<Rightarrow> bool" where
  "clean p \<longleftrightarrow> \<not> pk_completed p \<and> pk_firstErr p = None \<and> \<not> pk_aborted p \<and> \<not> pk_bodySealed p
     \<and> \<not> mt_aborted (pk_txn p) \<and> \<not> mt_completed (pk_txn p)"

definition buffers :: "('x, 'k) Writer \<Rightarrow> nat" where
  "buffers w = wr_freeBuffers w + length (wr_sealJobs w) + length (wr_sealing w) + length (wr_sealedOut w)
     + length (wr_pending w) + (if wr_active w = None then 0 else 1)"

definition sound_block :: "Sealed \<Rightarrow> bool" where
  "sound_block s \<longleftrightarrow> BlockPreamble_Validate (sl_Preamble s) = Inr ()"

definition calm :: "(bytes \<Rightarrow> bytes) \<Rightarrow> (bytes \<Rightarrow> u64) \<Rightarrow> (memoryTxn, MemorySink) Writer \<Rightarrow> bool" where
  "calm zenc xxh w \<longleftrightarrow> wr_firstErr w = None \<and> \<not> wr_closed w \<and> 0 < wr_workers w \<and> options_ok (wr_opts w)
     \<and> 0 < wo_BlockBufferCount (wr_opts w) \<and> wr_baseLSN w \<le> MaxRecordLSN
     \<and> (\<forall>p. wr_packer w = Some p \<longrightarrow> clean p) \<and> mk_uri (wr_sink w) \<noteq> []
     \<and> (\<forall>b \<in> set (wr_sealJobs w @ wr_sealing w). \<exists>s. seal_buffer zenc xxh (wr_opts w) b = Inr s)
     \<and> (\<forall>r \<in> set (wr_sealedOut w). \<exists>s. sb_Sealed r = Inr s \<and> sound_block s)
     \<and> (\<forall>e \<in> set (wr_pending w). sound_block (snd e))"

lemma seal_buffer_sound: "seal_buffer zenc xxh opts b = Inr s \<Longrightarrow> sound_block s"
  using Seal_Inr(6) by (simp add: seal_buffer_def SealOwned_eq sound_block_def)

lemma WriteBody_clean:
  assumes "clean p"
  shows "\<exists>p' k'. WriteBody memory_sink None bs p k = (Inr (), p', k') \<and> clean p' \<and> mk_uri k' = mk_uri k"
  using assms
  by (auto simp: clean_def WriteBody_def packer_write_def memory_sink_def memoryTxn_Write_def)

lemma ensurePacker_calm:
  assumes "calm zenc xxh w"
  shows "\<exists>p w'. ensurePacker memory_sink (\<lambda>_. None) w = (Inr p, w') \<and> clean p \<and> mk_uri (wr_sink w') = mk_uri (wr_sink w)"
proof (cases "wr_packer w")
  case (Some p)
  then show ?thesis using assms by (auto simp: ensurePacker_def calm_def)
next
  case None
  let ?x = "\<lparr>mt_bytes = [], mt_aborted = False, mt_completed = False\<rparr>"
    and ?k = "(wr_sink w)\<lparr>mk_beginCount := mk_beginCount (wr_sink w) + 1\<rparr>"
  have C: "options_ok (wr_opts w)" "wr_baseLSN w \<le> MaxRecordLSN" using assms by (simp_all add: calm_def)
  obtain q where q: "newPacker (Some ?x) (wo_HashAlgo (wr_opts w)) = Inr q" "clean q"
  proof -
    have "HashAlgo_Validate (wo_HashAlgo (wr_opts w)) = Inr ()" using C(1) unfolding options_ok_def by blast
    then have "\<exists>q. newPacker (Some ?x) (wo_HashAlgo (wr_opts w)) = Inr q \<and> clean q"
      unfolding newPacker_def by (simp only: option.case map_err_def sum.case bindE_simps) (simp add: clean_def)
    then show ?thesis using that by blast
  qed
  obtain pre where "FilePreamble_MarshalBinary (file_preamble (wr_opts w) (wr_baseLSN w)) = Inr pre"
    using C by (auto simp: FilePreamble_MarshalBinary_def FilePreamble_Validate_def file_preamble_def options_ok_def
        RecordFormat_Validate_def not_less)
  moreover obtain p k' where "WriteBody memory_sink None pre q ?k = (Inr (), p, k')" "clean p" "mk_uri k' = mk_uri ?k"
    using WriteBody_clean[OF q(2)] by blast
  ultimately show ?thesis using None q(1) by (auto simp: ensurePacker_def memory_sink_def MemorySink_Begin_def)
qed

lemma emitSealed_calm:
  assumes "calm zenc xxh w" "sound_block s"
  shows "\<exists>e w'. emitSealed memory_sink (\<lambda>_. None) s w = (Inr e, w') \<and> (\<forall>p. wr_packer w' = Some p \<longrightarrow> clean p)
    \<and> mk_uri (wr_sink w') = mk_uri (wr_sink w)"
proof -
  obtain p w1 where e: "ensurePacker memory_sink (\<lambda>_. None) w = (Inr p, w1)" "clean p" "mk_uri (wr_sink w1) = mk_uri (wr_sink w)"
    using ensurePacker_calm[OF assms(1)] by blast
  obtain pre where b: "BlockPreamble_MarshalBinary (sl_Preamble s) = Inr pre"
    using assms(2) by (auto simp: sound_block_def BlockPreamble_MarshalBinary_def)
  obtain p1 k1 where w1: "WriteBody memory_sink None pre p (wr_sink w1) = (Inr (), p1, k1)" "clean p1" "mk_uri k1 = mk_uri (wr_sink w1)"
    using WriteBody_clean[OF e(2)] by blast
  obtain p2 k2 where w2: "WriteBody memory_sink None (sl_Stored s) p1 k1 = (Inr (), p2, k2)" "clean p2" "mk_uri k2 = mk_uri k1"
    using WriteBody_clean[OF w1(2)] by blast
  show ?thesis using e b w1 w2 by (auto simp: emitSealed_def Let_def)
qed

lemma length_remove_key:
  "distinct (map fst xs) \<Longrightarrow> map_of xs k = Some v \<Longrightarrow> Suc (length (filter (\<lambda>e. fst e \<noteq> k) xs)) = length xs"
proof -
  assume d: "distinct (map fst xs)" and "map_of xs k = Some v"
  then have "k \<in> fst ` set xs" by (metis domI dom_map_of_conv_image_fst)
  from arg_cong[OF mset_remove_key[OF d this], of size] show ?thesis by (simp only: size_mset size_add_mset length_map)
qed

lemma return_buffer_calm: "calm zenc xxh w \<Longrightarrow> return_buffer d w = w\<lparr>wr_freeBuffers := wr_freeBuffers w + 1\<rparr>"
  by (simp add: return_buffer_def wr_done_def calm_def)

lemma iterate_calm:
  assumes "calm zenc xxh w" "distinct (map fst (wr_pending w))"
  shows "calm zenc xxh (emitter_iterate memory_sink (\<lambda>_. None) d n w) \<and> buffers (emitter_iterate memory_sink (\<lambda>_. None) d n w) = buffers w"
proof (cases "map_of (wr_pending w) (wr_nextEmit w)")
  case None
  then have "emitter_iterate memory_sink (\<lambda>_. None) d n w = w\<lparr>wr_emitting := False\<rparr>"
    using assms(1) by (simp add: emitter_iterate_def calm_def)
  then show ?thesis using assms by (simp add: calm_def buffers_def)
next
  case (Some s)
  have none: "wr_firstErr w = None" using assms(1) by (simp add: calm_def)
  let ?w = "w\<lparr>wr_pending := filter (\<lambda>e. fst e \<noteq> wr_nextEmit w) (wr_pending w)\<rparr>"
  have cw: "calm zenc xxh ?w" using assms(1) by (auto simp: calm_def)
  have "sound_block s" using assms(1) map_of_SomeD[OF Some] by (force simp: calm_def)
  then obtain entry w' where e: "emitSealed memory_sink (\<lambda>_. None) s ?w = (Inr entry, w')"
      "\<forall>p. wr_packer w' = Some p \<longrightarrow> clean p" "mk_uri (wr_sink w') = mk_uri (wr_sink w)"
    using emitSealed_calm[OF cw, of s] by auto
  let ?v = "w'\<lparr>wr_index := wr_index w' @ [entry], wr_nextEmit := wr_nextEmit w' + 1\<rparr>"
  have it: "emitter_iterate memory_sink (\<lambda>_. None) d n w = return_buffer d ?v"
    using none Some e(1) by (simp add: emitter_iterate_def)
  note F = emitSealed_fields[OF e(1)] emitSealed_owner[OF e(1)]
  have free: "wr_freeBuffers w' = wr_freeBuffers w"
    using arg_cong[OF emitSealed_frame[OF e(1), where p = None and k = "wr_sink w"], of wr_freeBuffers] by simp
  have o': "wr_opts w' = wr_opts w" "wr_baseLSN w' = wr_baseLSN w" "wr_active w' = wr_active w" "wr_closed w' = wr_closed w"
    using owner_fields[OF F(5)] by simp_all
  have c': "calm zenc xxh ?v" using cw F o' e(2,3) by (auto simp: calm_def channels_def)
  then have "calm zenc xxh (return_buffer d ?v)" by (simp add: return_buffer_calm) (simp add: calm_def)
  moreover have "buffers (return_buffer d ?v) = buffers w"
    unfolding return_buffer_calm[OF c']
    using length_remove_key[OF assms(2) Some] F o' free by (simp add: buffers_def channels_def)
  ultimately show ?thesis unfolding it by blast
qed

lemma bg_calm:
  assumes "bg False memory_sink zenc xxh w w'" "calm zenc xxh w" "distinct (seqs w)"
  shows "calm zenc xxh w' \<and> buffers w' = buffers w"
  using assms(1)
proof (cases rule: bg.cases)
  case (take_job b jobs)
  then show ?thesis using assms(2) by (auto simp: calm_def buffers_def)
next
  case (post xs b ys r)
  obtain s where s: "seal_buffer zenc xxh (wr_opts w) b = Inr s" using assms(2) post(2) by (auto simp: calm_def)
  then show ?thesis using assms(2) post seal_buffer_sound[OF s] by (auto simp: record_seal_def calm_def buffers_def)
next
  case (stop xs b ys r)
  then show ?thesis using assms(2) by (auto simp: calm_def record_seal_def)
next
  case (receive result rest d)
  obtain s where s: "sb_Sealed result = Inr s" "sound_block s" using assms(2) receive(3) by (auto simp: calm_def)
  have "sb_Seq result \<notin> fst ` set (wr_pending w)" using assms(3) by (auto simp: seqs_def receive(3))
  then have "filter (\<lambda>e. fst e \<noteq> sb_Seq result) (wr_pending w) = wr_pending w" by (force simp: filter_id_conv)
  then show ?thesis using assms(2) s receive by (auto simp: emitter_receive_def calm_def buffers_def)
next
  case (iterate c d n)
  moreover have "distinct (map fst (wr_pending w))" using assms(3) by (simp add: seqs_def)
  ultimately show ?thesis using iterate_calm[OF assms(2)] by simp
qed simp

lemma flow_distinct:
  "numbered Bs \<Longrightarrow> msink.flow zenc xxh Bs w \<Longrightarrow> wr_firstErr w = None \<Longrightarrow> distinct (seqs w)"
  using in_flight_distinct by (auto simp: msink.flow_def msink.pipe_def)

lemma bgs_calm:
  assumes "(bg False memory_sink zenc xxh)\<^sup>*\<^sup>* w w'" "numbered Bs" "msink.flow zenc xxh Bs w" "calm zenc xxh w"
  shows "calm zenc xxh w' \<and> buffers w' = buffers w \<and> msink.flow zenc xxh Bs w'"
  using assms(1)
proof (induction rule: rtranclp_induct)
  case (step u v)
  have "distinct (seqs u)" using flow_distinct[OF assms(2)] step.IH by (auto simp: calm_def)
  then show ?case using bg_calm[OF step.hyps(2)] msink.bg_flow[OF step.hyps(2) assms(2)] step.IH by simp
qed (use assms in simp)


section \<open>The owner's operations\<close>

text \<open>
  \<open>fit\<close>: the invariant holds, no error happened, and every buffer is accounted for;
  \<open>live\<close>: and the channel of jobs is open.
\<close>

definition fit where
  "fit zenc xxh G w \<longleftrightarrow> msink.winv zenc xxh G w \<and> calm zenc xxh w \<and> buffers w = nat (wo_BlockBufferCount (wr_opts w))"

definition live where
  "live zenc xxh G w \<longleftrightarrow> fit zenc xxh G w \<and> \<not> wr_jobsClosed w"

lemma liveD: "live zenc xxh G w \<Longrightarrow> msink.winv zenc xxh G w \<and> calm zenc xxh w
    \<and> buffers w = nat (wo_BlockBufferCount (wr_opts w)) \<and> \<not> wr_jobsClosed w"
  by (simp add: live_def fit_def)

lemma wait_fit:
  assumes "fit zenc xxh G w" "steady memory_sink zenc xxh \<sigma>"
  shows "fit zenc xxh G (wait \<sigma> w)" "wr_active (wait \<sigma> w) = wr_active w" "wr_opts (wait \<sigma> w) = wr_opts w"
    "wr_nextSeq (wait \<sigma> w) = wr_nextSeq w" "wr_jobsClosed (wait \<sigma> w) = wr_jobsClosed w"
proof -
  let ?v = "fst (\<sigma> (wr_tick w)) w"
  have f: "follows memory_sink zenc xxh \<sigma>" by (rule steady_follows[OF assms(2)])
  note o' = owner_fields[OF msink.wait_owner[OF f, of w]]
  show "wr_active (wait \<sigma> w) = wr_active w" "wr_opts (wait \<sigma> w) = wr_opts w" "wr_nextSeq (wait \<sigma> w) = wr_nextSeq w"
    "wr_jobsClosed (wait \<sigma> w) = wr_jobsClosed w" using o' by simp_all
  have W: "msink.winv zenc xxh G (wait \<sigma> w)" using assms(1) by (intro msink.winv_wait[OF f]) (simp add: fit_def)
  obtain Bs where Bs: "numbered Bs" "msink.flow zenc xxh Bs w" using assms(1) by (auto simp: fit_def msink.winv_def split: prod.splits)
  have "(bg False memory_sink zenc xxh)\<^sup>*\<^sup>* w ?v" using assms(2) by (simp add: steady_def)
  from bgs_calm[OF this Bs] have "calm zenc xxh ?v" "buffers ?v = buffers w" using assms(1) by (simp_all add: fit_def)
  then have "calm zenc xxh (wait \<sigma> w)" "buffers (wait \<sigma> w) = buffers w" by (simp_all add: wait_def calm_def buffers_def)
  then show "fit zenc xxh G (wait \<sigma> w)" using W assms(1) o' by (simp add: fit_def)
qed

lemma wait_live:
  assumes "live zenc xxh G w" "steady memory_sink zenc xxh \<sigma>"
  shows "live zenc xxh G (wait \<sigma> w)"
  using wait_fit[of zenc xxh G w, OF _ assms(2)] assms(1) by (simp add: live_def)

text \<open>At rest every buffer but the active one is free: no one waits for a buffer for ever.\<close>

lemma rest_fit:
  assumes "fit zenc xxh G w" "quiescent w"
  shows "wr_freeBuffers w + (if wr_active w = None then 0 else 1) = nat (wo_BlockBufferCount (wr_opts w))"
proof -
  have none: "wr_firstErr w = None" "0 < wr_workers w" using assms(1) by (simp_all add: fit_def calm_def)
  then have jobs: "wr_sealJobs w = []" using assms(2) by (simp add: quiescent_def)
  obtain Bs where Bs: "numbered Bs" "msink.flow zenc xxh Bs w" using assms(1) by (auto simp: fit_def msink.winv_def split: prod.splits)
  obtain ss where P: "msink.pipe zenc xxh Bs ss w" "waiting w" using Bs(2) none assms(2) by (auto simp: msink.flow_def quiescent_def)
  have m: "mset (map fst (wr_pending w)) = mset (map of_nat [length ss..<length Bs])"
    using P(1) assms(2) jobs by (auto simp: msink.pipe_def in_flight_def quiescent_def seqs_def)
  have "\<not> length ss < length Bs"
  proof
    assume "length ss < length Bs"
    then have "of_nat (length ss) \<in># mset (map of_nat [length ss..<length Bs] :: u64 list)" by simp
    then show False unfolding m[symmetric] using P by (simp add: msink.pipe_def waiting_def)
  qed
  then have "wr_pending w = []" using m by simp
  then show ?thesis using assms jobs by (simp add: fit_def buffers_def quiescent_def)
qed

text \<open>When nothing is cancelled, the awaited branch is the only one of a select.\<close>

lemma select_calm: "calm zenc xxh w \<Longrightarrow> select n (Some x # cancel_branches None w) = Some x"
  by (simp add: select_def cancel_branches_def wr_done_def calm_def)

lemma takeFreeBuffer_live:
  assumes "live zenc xxh (Hs, []) w" "wr_active w = None" "steady memory_sink zenc xxh \<sigma>" "fair \<sigma>"
  shows "\<exists>w'. takeFreeBuffer \<sigma> None w = Some (Inr (), w') \<and> live zenc xxh (Hs, []) w'
    \<and> wr_active w' = Some empty_buffer \<and> wr_opts w' = wr_opts w"
proof -
  let ?w = "wait \<sigma> w"
  have f: "follows memory_sink zenc xxh \<sigma>" by (rule steady_follows[OF assms(3)])
  have F: "fit zenc xxh (Hs, []) w" using assms(1) by (simp add: live_def)
  note V = wait_fit[OF F assms(3)] and L = wait_live[OF assms(1,3)]
  have "quiescent ?w \<or> 0 < wr_freeBuffers ?w"
    using assms(4)[unfolded fair_def, rule_format, of "wr_tick w" w] assms(2) by (auto simp: wait_def quiescent_def)
  then have free: "0 < wr_freeBuffers ?w" using rest_fit[OF V(1)] V(2) assms(2) liveD[OF L] by (auto simp: calm_def)
  have t: "takeFreeBuffer \<sigma> None w
      = Some (Inr (), ?w\<lparr>wr_active := Some empty_buffer, wr_freeBuffers := wr_freeBuffers ?w - 1\<rparr>)" (is "_ = Some (Inr (), ?w')")
    using free liveD[OF L] by (simp add: takeFreeBuffer_def Let_def select_calm[of zenc xxh])
  note W = msink.takeFreeBuffer_winv[OF f _ assms(2) t]
  have "calm zenc xxh ?w'" "buffers ?w' = buffers ?w" "\<not> wr_jobsClosed ?w'"
    using liveD[OF L] V(2) assms(2) free by (auto simp: calm_def buffers_def)
  then have "live zenc xxh (Hs, []) ?w'" using W(1) liveD[OF L] liveD[OF assms(1)] V(3) by (simp add: live_def fit_def)
  then show ?thesis using t W(2,3) liveD[OF assms(1)] by blast
qed

lemma enqueueActive_live:
  assumes "live zenc xxh (Hs, hs) w" "hs \<noteq> []" "fill hs = Inr b" "seal_buffer zenc xxh (wr_opts w) b = Inr s"
    and "steady memory_sink zenc xxh \<sigma>"
  shows "\<exists>w'. enqueueActive \<sigma> None w = Some (Inr (), w') \<and> live zenc xxh (Hs @ [hs], []) w'
    \<and> wr_active w' = None \<and> wr_opts w' = wr_opts w"
proof -
  have f: "follows memory_sink zenc xxh \<sigma>" by (rule steady_follows[OF assms(5)])
  have W: "msink.winv zenc xxh (Hs, hs) w" using liveD[OF assms(1)] by blast
  obtain a where a: "wr_active w = Some a" "holds hs a" using W assms(2) by (auto simp: msink.winv_def split: option.splits)
  have raw: "length (bb_Raw a) \<noteq> 0" using holds_raw[OF a(2)] assms(2) by blast
  let ?b = "a\<lparr>bb_Seq := wr_nextSeq w\<rparr>"
  let ?v = "w\<lparr>wr_active := Some ?b\<rparr>"
  have lv: "live zenc xxh (Hs, hs) ?v"
    using assms(1) a by (auto simp: live_def fit_def calm_def buffers_def msink.winv_def tracks_def)
  let ?w = "wait \<sigma> ?v"
  have F: "fit zenc xxh (Hs, hs) ?v" using lv by (simp add: live_def)
  note V = wait_fit[OF F assms(5)] and L = wait_live[OF lv assms(5)]
  let ?e = "?w\<lparr>wr_sealJobs := wr_sealJobs ?w @ [?b], wr_nextSeq := wr_nextSeq ?w + 1, wr_active := None\<rparr>"
  have room: "length (wr_sealJobs ?w) < nat (wo_BlockBufferCount (wr_opts ?w))"
    using liveD[OF L] V(2) by (simp add: buffers_def)
  have t: "enqueueActive \<sigma> None w = Some (Inr (), ?e)"
    unfolding enqueueActive_def Let_def a(1) option.case if_not_P[OF raw] using room liveD[OF L]
    by (simp add: select_calm[of zenc xxh])
  note E = msink.enqueueActive_winv[OF f W assms(2) t]
  have "fill hs = Inr (a\<lparr>bb_Seq := 0\<rparr>)" using a(2) by (simp add: holds_def)
  then have "seal_buffer zenc xxh (wr_opts w) ?b = Inr s"
    using assms(3,4) by (auto simp: seal_buffer_def blockBuffer_Meta_def)
  then have "calm zenc xxh ?e" "buffers ?e = buffers ?w"
    using liveD[OF L] V(2,3) by (auto simp: calm_def buffers_def)
  then have "live zenc xxh (Hs @ [hs], []) ?e" using E(1) liveD[OF L] by (simp add: live_def fit_def)
  then show ?thesis using t E by blast
qed

lemma fill_prefix: "fill (xs @ ys) = Inr b \<Longrightarrow> \<exists>a. fill xs = Inr a"
proof (induction ys arbitrary: b rule: rev_induct)
  case (snoc y ys)
  then show ?case by (auto simp del: append_assoc simp: append_assoc[symmetric])
qed simp

lemma holds_unique: "holds h a \<Longrightarrow> fill h = Inr b \<Longrightarrow> b = a\<lparr>bb_Seq := 0\<rparr>"
  by (simp add: holds_def)

lemma store_record_live:
  assumes "live zenc xxh (Hs, hs) w" "validateRecord w r = Inr ()" "wr_active w \<noteq> None" "fill (hs @ [r]) = Inr b"
    and "follows memory_sink zenc xxh \<sigma>"
  shows "\<exists>w'. store_record memory_sink \<sigma> None r w = Some (Inr (), w') \<and> live zenc xxh (Hs, hs @ [r]) w'
    \<and> wr_opts w' = wr_opts w"
proof -
  have W: "msink.winv zenc xxh (Hs, hs) w" using liveD[OF assms(1)] by blast
  obtain a where a: "wr_active w = Some a" "holds hs a" using W assms(3) by (auto simp: msink.winv_def)
  obtain a0 where a0: "fill hs = Inr a0" "blockBuffer_Append a0 r = Inr b" using assms(4) by auto
  have "blockBuffer_Append (a0\<lparr>bb_Seq := bb_Seq a\<rparr>) r = Inr (b\<lparr>bb_Seq := bb_Seq a\<rparr>)" by (rule blockBuffer_Append_seq[OF a0(2)])
  then have app: "blockBuffer_Append a r = Inr (b\<lparr>bb_Seq := bb_Seq a\<rparr>)" using holds_unique[OF a(2) a0(1)] by simp
  let ?w' = "accept_record r (w\<lparr>wr_active := Some (b\<lparr>bb_Seq := bb_Seq a\<rparr>)\<rparr>)"
  have t: "store_record memory_sink \<sigma> None r w = Some (Inr (), ?w')"
    by (simp add: store_record_def a(1) app)
  note S = msink.store_record_winv(1)[OF assms(5) W assms(2,3) t refl]
  have "wc_LSN r \<le> MaxRecordLSN" using assms(2) by (auto simp: validateRecord_def not_less split: if_splits)
  then have "calm zenc xxh ?w'" "buffers ?w' = buffers w" "\<not> wr_jobsClosed ?w'"
    using liveD[OF assms(1)] a(1) by (simp_all add: calm_def buffers_def accept_record_def Let_def)
  then show ?thesis using S t assms(1) by (simp add: live_def fit_def)
qed

lemma validateRecord_log:
  assumes "tracks rs w" "log_ok (rs @ [r])"
  shows "validateRecord w r = Inr ()"
proof -
  note L = assms(2)[unfolded log_ok_def]
  have r: "wc_LSN r \<le> MaxRecordLSN" "record_ok (raw_record r)" using L by auto
  then have size: "RecordSize (wc_Headers r) (wc_Value r) = Inr (length (wire r))" by (simp add: RecordSize_Inr)
  show ?thesis
  proof (cases "rs = []")
    case True
    then show ?thesis using assms(1) r size by (simp add: validateRecord_def tracks_def not_less)
  next
    case False
    note T = assms(1)[unfolded tracks_def]
    let ?b = "wlsn (hd rs)"
    have up: "map wlsn (rs @ [r]) = [?b..<?b + length (rs @ [r])]" using L False by simp
    have "wlsn r = last (map wlsn (rs @ [r]))" by simp
    then have x: "wlsn r = ?b + length rs" unfolding up by simp
    have "map wlsn rs = [?b..<?b + length rs]" using contiguous_part[of wlsn "[]" rs "[r]" ?b] up by simp
    moreover have "wlsn (last rs) = last (map wlsn rs)" using False by (simp add: last_map)
    ultimately have "wlsn (last rs) + 1 = ?b + length rs" using False by simp
    moreover have "wc_LSN (last rs) \<le> MaxRecordLSN" using L False by simp
    ultimately have "wc_LSN (last rs) + 1 = wc_LSN r" using x by (simp add: word_unat_eq_iff unat_succ_lsn)
    moreover have "time_le (last rs) r" using L False by (simp add: sorted_wrt_append)
    ultimately show ?thesis
      using T L r size False by (simp add: validateRecord_def not_less)
  qed
qed

definition sealable :: "(bytes \<Rightarrow> bytes) \<Rightarrow> (bytes \<Rightarrow> u64) \<Rightarrow> SegWriterOptions \<Rightarrow> WriterRecord list \<Rightarrow> bool" where
  "sealable zenc xxh opts h \<longleftrightarrow> (\<exists>b s. fill h = Inr b \<and> seal_buffer zenc xxh opts b = Inr s)"

lemma make_room_live:
  assumes "live zenc xxh (Hs, hs) w" "validateRecord w r = Inr ()" "wr_active w \<noteq> None"
    and "\<forall>h \<in> set (fst (place (wo_TargetBlockSize (wr_opts w)) (Hs, hs) r)). sealable zenc xxh (wr_opts w) h"
    and "fill (snd (place (wo_TargetBlockSize (wr_opts w)) (Hs, hs) r)) = Inr b"
    and "steady memory_sink zenc xxh \<sigma>" "fair \<sigma>"
  shows "\<exists>w'. make_room memory_sink \<sigma> None None (length (wire r)) r w = Some (Inr (), w')
    \<and> live zenc xxh (place (wo_TargetBlockSize (wr_opts w)) (Hs, hs) r) w' \<and> wr_opts w' = wr_opts w"
proof -
  let ?T = "wo_TargetBlockSize (wr_opts w)"
  note f = steady_follows[OF assms(6)]
  have W: "msink.winv zenc xxh (Hs, hs) w" using liveD[OF assms(1)] by blast
  obtain a where a: "wr_active w = Some a" "holds hs a" using W assms(3) by (auto simp: msink.winv_def)
  note raw = holds_raw[OF a(2)]
  show ?thesis
  proof (cases "length (bb_Raw a) > 0 \<and> \<not> CanAppend a (length (wire r)) ?T")
    case False
    then have pl: "place ?T (Hs, hs) r = (Hs, hs @ [r])" using raw by (auto simp: place_def CanAppend_iff[OF wire_ne] Let_def)
    obtain w' where "store_record memory_sink \<sigma> None r w = Some (Inr (), w')"
        "live zenc xxh (Hs, hs @ [r]) w'" "wr_opts w' = wr_opts w"
      using store_record_live[OF assms(1-3) _ f, of b] assms(5) pl by auto
    then show ?thesis using pl by (simp only: make_room_def a(1) option.case if_not_P[OF False]) blast
  next
    case True
    have hs: "hs \<noteq> []" using True raw by blast
    have pl: "place ?T (Hs, hs) r = (Hs @ [hs], [r])"
      using True raw hs by (auto simp: place_def CanAppend_iff[OF wire_ne] Let_def)
    obtain hb s where s: "fill hs = Inr hb" "seal_buffer zenc xxh (wr_opts w) hb = Inr s"
      using assms(4) pl by (auto simp: sealable_def)
    obtain w1 where e: "enqueueActive \<sigma> None w = Some (Inr (), w1)"
        "live zenc xxh (Hs @ [hs], []) w1" "wr_active w1 = None" "wr_opts w1 = wr_opts w"
      using enqueueActive_live[OF assms(1) hs s assms(6)] by blast
    obtain w2 where t: "takeFreeBuffer \<sigma> None w1 = Some (Inr (), w2)"
        "live zenc xxh (Hs @ [hs], []) w2" "wr_active w2 = Some empty_buffer" "wr_opts w2 = wr_opts w1"
      using takeFreeBuffer_live[OF e(2,3) assms(6,7)] by blast
    have "tracks (concat Hs @ hs) w2" using liveD[OF t(2)] msink.winv_tracks[of zenc xxh "Hs @ [hs]" "[]" w2] by simp
    then have "validateRecord w2 r = validateRecord w r" by (rule msink.validateRecord_tracks[OF msink.winv_tracks[OF W]])
    then obtain w3 where "store_record memory_sink \<sigma> None r w2 = Some (Inr (), w3)"
        "live zenc xxh (Hs @ [hs], [r]) w3" "wr_opts w3 = wr_opts w2"
      using store_record_live[OF t(2) _ _ _ f, of r b] assms(2,5) t(3) pl by auto
    then show ?thesis using True pl e(1,4) t(1,4) by (simp add: make_room_def a(1))
  qed
qed

lemma Append_live:
  assumes "live zenc xxh G w" "log_ok (accepted G @ [r])"
    and "\<forall>h \<in> set (fst (place (wo_TargetBlockSize (wr_opts w)) G r)). sealable zenc xxh (wr_opts w) h"
    and "fill (snd (place (wo_TargetBlockSize (wr_opts w)) G r)) = Inr b"
    and "steady memory_sink zenc xxh \<sigma>" "fair \<sigma>"
  shows "\<exists>w'. SegWriter_Append memory_sink \<sigma> None None r w = Some (Inr (), w')
    \<and> live zenc xxh (place (wo_TargetBlockSize (wr_opts w)) G r) w' \<and> wr_opts w' = wr_opts w"
proof -
  obtain Hs hs where G: "G = (Hs, hs)" by fastforce
  have W: "msink.winv zenc xxh (Hs, hs) w" using liveD[OF assms(1)] by (simp add: G)
  have T: "tracks (concat Hs @ hs) w" by (rule msink.winv_tracks[OF W])
  have v: "validateRecord w r = Inr ()" using validateRecord_log[OF T] assms(2) by (simp add: G)
  then have size: "RecordSize (wc_Headers r) (wc_Value r) = Inr (length (wire r))" by (auto simp: validateRecord_def RecordSize_Inr)
  have st: "\<not> wr_closed w" "\<not> wr_aborted w" "wr_firstErr w = None"
    using liveD[OF assms(1)] W by (simp_all add: msink.winv_def calm_def)
  show ?thesis
  proof (cases "wr_active w = None")
    case False
    from make_room_live[OF assms(1)[unfolded G] v False _ _ assms(5,6)] assms(3,4)
    show ?thesis using st v size False by (auto simp: SegWriter_Append_def G)
  next
    case True
    then have hs: "hs = []" using W by (simp add: msink.winv_def)
    obtain w1 where t: "takeFreeBuffer \<sigma> None w = Some (Inr (), w1)"
        "live zenc xxh (Hs, []) w1" "wr_active w1 = Some empty_buffer" "wr_opts w1 = wr_opts w"
      using takeFreeBuffer_live[OF assms(1)[unfolded G hs] True assms(5,6)] by blast
    have "tracks (concat Hs @ []) w1" using liveD[OF t(2)] by (intro msink.winv_tracks) blast
    then have "validateRecord w1 r = Inr ()" using msink.validateRecord_tracks[OF T, of w1 r] v by (simp add: hs)
    then obtain w2 where "make_room memory_sink \<sigma> None None (length (wire r)) r w1 = Some (Inr (), w2)"
        "live zenc xxh (place (wo_TargetBlockSize (wr_opts w)) (Hs, []) r) w2" "wr_opts w2 = wr_opts w1"
      using make_room_live[OF t(2) _ _ _ _ assms(5,6), of r b] assms(3,4) t(3,4) by (auto simp: G hs)
    then show ?thesis using st v size True t(1,4) by (simp add: SegWriter_Append_def G hs)
  qed
qed

text \<open>The groups of a split stay, and the last one only grows.\<close>

lemma place_grows:
  "set (fst G) \<subseteq> set (blocks (foldl (place T) G rs))
     \<and> (snd G \<noteq> [] \<longrightarrow> (\<exists>ys. snd G @ ys \<in> set (blocks (foldl (place T) G rs))))"
proof (induction rs arbitrary: G)
  case Nil
  show ?case by (auto simp: blocks_def intro: exI[of _ "[]"])
next
  case (Cons r rs)
  obtain Hs hs where G: "G = (Hs, hs)" by fastforce
  have "place T (Hs, hs) r = (Hs, hs @ [r]) \<or> place T (Hs, hs) r = (Hs @ [hs], [r])" by (auto simp: place_def Let_def)
  then show ?case using Cons.IH[of "place T (Hs, hs) r"] by (auto simp: G intro: exI[of _ "[]"])
qed

lemma log_ok_prefix: "log_ok (xs @ ys) \<Longrightarrow> log_ok xs"
  using contiguous_part[of wlsn "[]" xs ys "wlsn (hd xs)"]
  by (cases "xs = []") (auto simp: log_ok_def sorted_wrt_append)

lemma append_all_live:
  assumes "steady memory_sink zenc xxh \<sigma>" "fair \<sigma>"
    and "live zenc xxh G w" "log_ok (accepted G @ rs)" "wr_opts w = opts"
    and "\<forall>h \<in> set (blocks (foldl (place (wo_TargetBlockSize opts)) G rs)). sealable zenc xxh opts h"
  shows "\<exists>w'. append_all memory_sink \<sigma> None None rs w = Some (Inr (), w')
    \<and> live zenc xxh (foldl (place (wo_TargetBlockSize opts)) G rs) w' \<and> wr_opts w' = opts"
  using assms(3-6)
proof (induction rs arbitrary: G w)
  case (Cons r rs)
  let ?G = "place (wo_TargetBlockSize opts) G r"
  have g: "set (fst ?G) \<subseteq> set (blocks (foldl (place (wo_TargetBlockSize opts)) ?G rs))"
      "snd ?G \<noteq> [] \<longrightarrow> (\<exists>ys. snd ?G @ ys \<in> set (blocks (foldl (place (wo_TargetBlockSize opts)) ?G rs)))"
    using place_grows by blast+
  have a: "\<forall>h \<in> set (fst ?G). sealable zenc xxh opts h" using g(1) Cons.prems(4) by auto
  have "snd ?G \<noteq> []" by (cases G) (auto simp: place_def Let_def)
  then obtain ys where "sealable zenc xxh opts (snd ?G @ ys)" using g(2) Cons.prems(4) by auto
  then obtain b where b: "fill (snd ?G) = Inr b" by (auto simp: sealable_def dest: fill_prefix)
  have lg: "log_ok (accepted G @ [r])" using Cons.prems(2) log_ok_prefix[of "accepted G @ [r]" rs] by simp
  obtain w1 where w1: "SegWriter_Append memory_sink \<sigma> None None r w = Some (Inr (), w1)"
      "live zenc xxh ?G w1" "wr_opts w1 = opts"
    using Append_live[OF Cons.prems(1) lg, unfolded Cons.prems(3), OF a b assms(1,2)] by blast
  have "log_ok (accepted ?G @ rs)" using Cons.prems(2) by simp
  from Cons.IH[OF w1(2) this w1(3)] Cons.prems(4) show ?case using w1(1) by simp
qed simp


section \<open>Closing\<close>

lemma write_tail_live:
  assumes "list_all2 holds Hs Bs" "mapE (seal_buffer zenc xxh (wr_opts w)) Bs = Inr ss" "msink.emitted w ss"
    and "tracks (concat Hs) w" "concat Hs \<noteq> []" "segment_ref zenc xxh (wr_opts w) Hs = Inr (body, t)" "calm zenc xxh w"
  shows "\<exists>res w'. write_tail memory_sink xxh \<sigma> (\<lambda>_. None) w = Some (Inr res, w')"
proof -
  have ne: "ss \<noteq> []" using assms(1,2,5) by (auto simp: mapE_eq_Inr)
  obtain p bs where p: "wr_packer w = Some p" "body_ref (wr_opts w) (wr_baseLSN w) ss = Inr (bs, wr_index w)"
      "msink.carries p (wr_sink w) bs" "pk_hashed p = bs" "pk_hashAlgo p = wo_HashAlgo (wr_opts w)" "HashAlgo_Validate (pk_hashAlgo p) = Inr ()"
    using assms(3) ne by (auto simp: msink.emitted_def)
  have off: "pk_offset p = of_nat (length bs)" using p(3) by (simp add: msink.carries_def)
  have cl: "clean p" and uri: "mk_uri (wr_sink w) \<noteq> []" using assms(7) p(1) by (simp_all add: calm_def)
  have base: "wr_baseLSN w = wc_LSN (hd (concat Hs))" using assms(4,5) by (simp add: tracks_def)
  obtain n ib ip h tb where r: "checkedBlockCount (length (wr_index w)) = Inr n"
      "MarshalBlockIndex xxh (wr_index w) (segment_trailer (wr_opts w) (concat Hs) (of_nat (length bs)) n) = Inr (ib, ip)"
      "HashBytes xxh (wo_HashAlgo (wr_opts w)) (bs @ ib) = Inr h" "body = bs @ ib @ tb"
      "MarshalTrailer xxh ((segment_trailer (wr_opts w) (concat Hs) (of_nat (length bs)) n)\<lparr>st_SegmentHash := h\<rparr>) = Inr (tb, t)"
    using assms(1,2,6) p(2) base by (auto simp: segment_ref_def list_all2_holds mapE_seal Let_def split: prod.splits)
  obtain p1 k1 where w1: "WriteBody memory_sink None ib p (wr_sink w) = (Inr (), p1, k1)" "clean p1" "mk_uri k1 = mk_uri (wr_sink w)"
    using WriteBody_clean[OF cl] by blast
  note W = msink.WriteBody_carries[OF w1(1) p(3)]
  have bh: "BodyHash xxh p1 = (h, p1\<lparr>pk_bodySealed := True\<rparr>)" (is "_ = (h, ?q)")
    using W(2,4) p(4-6) r(3) by (auto simp: BodyHash_def HashBytes_def)
  have "\<exists>p2. WriteFinal memory_sink None tb ?q k1 = (Inr (), p2, k1) \<and> \<not> pk_completed p2 \<and> \<not> pk_aborted p2
      \<and> pk_firstErr p2 = None \<and> pk_bodySealed p2 \<and> \<not> mt_aborted (pk_txn p2) \<and> \<not> mt_completed (pk_txn p2)"
    using w1(2) by (simp add: clean_def WriteFinal_def packer_write_def memory_sink_def memoryTxn_Write_def)
  then obtain p2 where w2: "WriteFinal memory_sink None tb ?q k1 = (Inr (), p2, k1)" "\<not> pk_completed p2" "\<not> pk_aborted p2"
      "pk_firstErr p2 = None" "pk_bodySealed p2" "\<not> mt_aborted (pk_txn p2)" "\<not> mt_completed (pk_txn p2)"
    by blast
  have "msink.carries ?q k1 (bs @ ib)" using W(1) by (simp add: msink.carries_def)
  then have c2: "msink.carries p2 k1 body" using msink.WriteFinal_carries[OF w2(1), of "bs @ ib"] r(4) by simp
  obtain Bs' ss' bs' ix' ib' tb' where "segment_parts zenc xxh (wr_opts w) Hs body t Bs' ss' bs' ix' ib' tb'"
    by (rule segment_ref_parts[OF assms(6)])
  note E = segment_extent[OF this]
  have "of_nat (length body) = st_TotalSize t" using E(3) by (metis of_nat_unat ucast_id)
  then have "pk_offset p2 \<noteq> 0" using c2 E(4) by (auto simp: msink.carries_def)
  then have "\<exists>obj p3 k3. Complete memory_sink None None p2 k1 = (Inr obj, p3, k3)"
    using w2(2-7) c2 uri w1(3) by (simp add: Complete_def memory_sink_def memoryTxn_Commit_def Let_def msink.carries_def)
  then show ?thesis
    using r w1(1) bh w2(1)
    by (auto simp: write_tail_def p(1) off Let_def writer_trailer_ref[OF assms(4,5)])
qed

lemma Close_live:
  assumes "live zenc xxh G w" "accepted G \<noteq> []" "segment_ref zenc xxh (wr_opts w) (blocks G) = Inr (body, t)"
    and "steady memory_sink zenc xxh \<sigma>" "fair \<sigma>"
  shows "\<exists>res w'. SegWriter_Close memory_sink xxh \<sigma> (\<lambda>_. None) w = Some (Inr res, w')"
proof -
  obtain Hs hs where G: "G = (Hs, hs)" by fastforce
  have W: "msink.winv zenc xxh (Hs, hs) w" using liveD[OF assms(1)] by (simp add: G)
  have st: "\<not> wr_closed w" "\<not> wr_aborted w" "wr_firstErr w = None" "wr_hasRecords w"
    using liveD[OF assms(1)] assms(2) W by (simp_all add: msink.winv_def calm_def tracks_def G)
  let ?enq = "case wr_active w of None \<Rightarrow> Some (Inr (), w) | Some b \<Rightarrow>
                 if length (bb_Raw b) > 0 then enqueueActive \<sigma> None w else Some (Inr (), w)"
  have "\<exists>w1. ?enq = Some (Inr (), w1) \<and> live zenc xxh (blocks G, []) w1 \<and> wr_opts w1 = wr_opts w"
  proof (cases "hs = []")
    case True
    have "length (bb_Raw b) = 0" if "wr_active w = Some b" for b
      using W True that holds_raw[of hs b] by (simp add: msink.winv_def del: holds_empty)
    then have "?enq = Some (Inr (), w)" by (auto split: option.split)
    then show ?thesis using assms(1) by (simp add: G True blocks_def)
  next
    case False
    then obtain b where b: "wr_active w = Some b" "holds hs b" using W by (auto simp: msink.winv_def split: option.splits)
    then have "length (bb_Raw b) > 0" using holds_raw[OF b(2)] False by (metis gr0I)
    moreover obtain hb s where "fill hs = Inr hb" "seal_buffer zenc xxh (wr_opts w) hb = Inr s"
      using assms(3) False by (auto simp: segment_ref_def mapE_eq_Inr G blocks_def list_all2_append1 list_all2_Cons1)
    then obtain w1 where "enqueueActive \<sigma> None w = Some (Inr (), w1)" "live zenc xxh (Hs @ [hs], []) w1" "wr_opts w1 = wr_opts w"
      using enqueueActive_live[OF assms(1)[unfolded G] False _ _ assms(4)] by blast
    ultimately show ?thesis using b(1) False by (simp add: G blocks_def)
  qed
  then obtain w1 where w1: "?enq = Some (Inr (), w1)" "live zenc xxh (blocks G, []) w1" "wr_opts w1 = wr_opts w" by blast
  let ?v = "w1\<lparr>wr_jobsClosed := True\<rparr>"
  let ?w = "wait \<sigma> ?v"
  have "fit zenc xxh (blocks G, []) ?v" using liveD[OF w1(2)] by (simp add: fit_def calm_def buffers_def)
  note V = wait_fit[OF this assms(4)]
  have c: "calm zenc xxh ?w" using V(1) by (simp add: fit_def)
  then have none: "wr_firstErr ?w = None" by (simp add: calm_def)
  have rest: "quiescent ?w"
    using assms(5)[unfolded fair_def, rule_format, of "wr_tick ?v" ?v] by (auto simp: wait_def quiescent_def)
  then have f: "finishPipeline \<sigma> w1 = Some ?w" using none by (simp add: finishPipeline_def Let_def)
  have W2: "msink.winv zenc xxh (blocks G, []) ?w" using V(1) by (simp add: fit_def)
  obtain Bs where Bs: "numbered Bs" "list_all2 holds (blocks G) Bs" "msink.flow zenc xxh Bs ?w" using W2 by (auto simp: msink.winv_def)
  obtain ss where ss: "mapE (seal_buffer zenc xxh (wr_opts ?w)) Bs = Inr ss" "msink.emitted ?w ss"
    using msink.quiescent_flow[OF Bs(1,3) rest none] by blast
  have tr: "tracks (concat (blocks G)) ?w" using msink.winv_tracks[OF W2] by simp
  have "segment_ref zenc xxh (wr_opts ?w) (blocks G) = Inr (body, t)" using assms(3) V(3) w1(3) by simp
  from write_tail_live[OF Bs(2) ss tr _ this c, of \<sigma>] assms(2)
  show ?thesis using st w1(1) f none by (simp add: SegWriter_Close_def)
qed

text \<open>The whole of \<^verbatim>\<open>Encode\<close>.\<close>

lemma New_live:
  assumes "SegWriter_New numCPU rand now opts (Some k) = Inr w" "mk_uri k \<noteq> []" "0 < wo_BlockBufferCount (wr_opts w)"
  shows "live zenc xxh ([], []) w"
proof -
  obtain o' where o': "SegWriter_normalizeOptions numCPU rand now opts = Inr o'" using assms by (auto simp: SegWriter_New_def)
  have ok: "options_ok o'" by (rule normalizeOptions_ok[OF o'])
  then have "calm zenc xxh w" "buffers w = nat (wo_BlockBufferCount (wr_opts w))" "\<not> wr_jobsClosed w"
    using assms o' by (auto simp: SegWriter_New_def calm_def buffers_def options_ok_def split: if_splits)
  then show ?thesis using msink.New_winv(1)[OF assms(1)] by (simp add: live_def fit_def)
qed

lemma Encode_live:
  assumes "steady memory_sink zenc xxh \<sigma>" "fair \<sigma>"
    and "SegWriter_normalizeOptions numCPU rand now opts = Inr opts'" "0 < wo_BlockBufferCount opts'" "log_ok rs" "rs \<noteq> []"
    and "segment_ref zenc xxh opts' (blocks (foldl (place (wo_TargetBlockSize opts')) ([], []) rs)) = Inr (body, t)"
  shows "\<exists>x. Encode xxh \<sigma> numCPU rand now None (\<lambda>_. None) rs opts = Some (Inr x)"
proof -
  let ?G = "foldl (place (wo_TargetBlockSize opts')) ([], []) rs"
  obtain w where w: "SegWriter_New numCPU rand now opts (Some (NewMemorySink ''memory://encode'')) = Inr (w :: (memoryTxn, MemorySink) Writer)"
      "wr_opts w = opts'"
    using assms(3,4) by (auto simp: SegWriter_New_def)
  have acc: "accepted (foldl (place T) G xs) = accepted G @ xs" for T G xs by (induction xs arbitrary: G) simp_all
  have "sealable zenc xxh opts' h" if "h \<in> set (blocks ?G)" for h
    using assms(7) that by (fastforce simp: segment_ref_def sealable_def mapE_eq_Inr in_set_conv_nth list_all2_conv_all_nth)
  then obtain w' where a: "append_all memory_sink \<sigma> None None rs w = Some (Inr (), w')"
      "live zenc xxh ?G w'" "wr_opts w' = opts'"
    using append_all_live[OF assms(1,2) New_live[OF w(1), of zenc xxh] _ w(2), of rs] assms(4,5) w(2) by (auto simp: NewMemorySink_def)
  obtain res v where "SegWriter_Close memory_sink xxh \<sigma> (\<lambda>_. None) w' = Some (Inr res, v)"
    using Close_live[OF a(2) _ _ assms(1,2)] assms(6,7) a(3) acc by auto
  then show ?thesis using w(1) a(1) by (simp add: Encode_def)
qed

end
