(* ===== verification/Seg_Properties.thy ===== *)
theory Seg_Properties
  imports Seg_Writer_Live
begin

text \<open>
  The properties of segment reader and segment writer, and a small segment that shows their
  hypotheses can hold.
\<close>


section \<open>A sample segment\<close>

definition sample_wopts :: SegWriterOptions where
  "sample_wopts = \<lparr>wo_Partition = 3, wo_Codec = CodecNone, wo_HashAlgo = HashXXH64, wo_TargetBlockSize = 1000, wo_PartSize = 1,
     wo_SealParallelism = 1, wo_BlockBufferCount = 3, wo_UploadParallelism = 1, wo_UploadQueueSize = 1,
     wo_SegmentUUID = 7, wo_WriterTag = 8, wo_CreatedUnixMS = 9\<rparr>"

definition sample_log :: "WriterRecord list" where
  "sample_log = [\<lparr>wc_LSN = 10, wc_TimestampMS = 5, wc_Headers = [], wc_Value = [1, 2]\<rparr>]"

lemma sample_log_ok: "log_ok sample_log" "sample_log \<noteq> []"
  by (simp_all add: log_ok_def sample_log_def MaxRecordCount_def raw_record_def record_ok_def headers_ok_def MaxRecordLSN_def MaxRecordValueLen_def
      headers_bytes_def MaxRecordHeaderBytes_def)

lemma sample_normal: "SegWriter_normalizeOptions 1 (Inr 0) 0 sample_wopts = Inr sample_wopts"
  by (simp add: SegWriter_normalizeOptions_def sample_wopts_def MaxRawBlockSize_def map_err_def isZero16_def Codec_Validate_def HashAlgo_Validate_def
      go_int_id)

lemma sample_count: "wo_BlockBufferCount sample_wopts = 3"
  by (simp add: sample_wopts_def)

lemma sample_blocks: "blocks (foldl (place (wo_TargetBlockSize sample_wopts)) ([], []) sample_log) = [sample_log]"
  by (simp add: sample_log_def place_def blocks_def)

lemma sample_sealed:
  "\<exists>body t. segment_ref (\<lambda>x. x) (\<lambda>_. 0) sample_wopts [sample_log] = Inr (body, t)"
proof -
  let ?r = "hd sample_log"
  let ?raw = "wire ?r"
  define b where "b = \<lparr>bb_Seq = 0, bb_Raw = ?raw, bb_BaseLSN = 10, bb_RecordCount = 1, bb_MinTimestampMS = 5, bb_MaxTimestampMS = 5\<rparr>"
  have len: "length ?raw = 18" by (simp add: sample_log_def length_record_bytes raw_record_def headers_bytes_def)
  have f: "fill sample_log = Inr b"
  proof -
    have "blockBuffer_Append empty_buffer ?r = Inr b"
      using sample_log_ok len by (simp add: blockBuffer_Append_Inr log_ok_def MaxRawBlockSize_def empty_buffer_def b_def) (simp add: sample_log_def)
    then show ?thesis by (simp add: fill_def sample_log_def)
  qed
  define s where "s = \<lparr>sl_Preamble = \<lparr>bp_Flags = 0, bp_StoredSize = 18, bp_RawSize = 18, bp_RecordCount = 1, bp_BaseLSN = 10,
      bp_MinTimestampMS = 5, bp_MaxTimestampMS = 5, bp_BlockHash = 0\<rparr>, sl_Stored = ?raw\<rparr>"
  have s: "seal_buffer (\<lambda>x. x) (\<lambda>_. 0) sample_wopts b = Inr s"
    using len
    by (simp add: seal_buffer_def SealOwned_def seal_def validateMeta_def sample_wopts_def blockBuffer_Meta_def b_def s_def
        encodeStored_def Codec_Validate_def HashAlgo_Validate_def HashBytes_def HashXXH64_def HashCRC32C_def CodecNone_def Let_def
        MaxRawBlockSize_def MaxStoredBlockSize_def BlockPreamble_Validate_def lastLSN_def MaxRecordLSN_def)
  define e where "e = index_entry 64 (sl_Preamble s)"
  obtain pre where pre: "FilePreamble_MarshalBinary (file_preamble sample_wopts 10) = Inr pre"
    by (simp add: FilePreamble_MarshalBinary_def FilePreamble_Validate_def file_preamble_def sample_wopts_def MaxRecordLSN_def
        Codec_Validate_def HashAlgo_Validate_def RecordFormat_Validate_def)
  obtain bp where bp: "BlockPreamble_MarshalBinary (sl_Preamble s) = Inr bp"
    by (simp add: BlockPreamble_MarshalBinary_def BlockPreamble_Validate_def s_def lastLSN_def MaxRecordLSN_def
        MaxRawBlockSize_def MaxStoredBlockSize_def)
  let ?bs = "pre @ bp @ ?raw"
  have n: "length ?bs = 146" using length_FilePreamble[OF pre] length_BlockPreamble[OF bp] len by simp
  have br: "body_ref sample_wopts 10 [s] = Inr (?bs, [e])"
    using pre bp length_FilePreamble[OF pre] by (simp add: body_ref_def e_def s_def)
  let ?t = "segment_trailer sample_wopts sample_log 146 1"
  have vi: "ValidateIndex [e] ?t = Inr ()"
    by (simp add: ValidateIndex_def e_def index_entry_def s_def segment_trailer_def sample_log_def BlockIndexEntry_Validate_def
      lastLSN_def nextBlockOffset_def MaxStoredBlockSize_def MaxRawBlockSize_def MaxRecordLSN_def Let_def)
  have ok: "BlockIndexEntry_Validate e = Inr ()" using ValidateIndex_sound(1)[OF vi] by simp
  have hb: "HashBytes (\<lambda>_. 0) HashXXH64 xs = Inr 0" for xs by (simp add: HashBytes_def HashXXH64_def HashCRC32C_def)
  obtain ib ip where ib: "MarshalBlockIndex (\<lambda>_. 0) [e] ?t = Inr (ib, ip)"
    using vi ok hb by (simp add: MarshalBlockIndex_def MaxBlockCount_def Let_def sample_wopts_def)
  let ?u = "?t\<lparr>st_SegmentHash := 0\<rparr>"
  have v: "SegTrailer_Validate ?u (st_TotalSize ?u) = Inr ()"
    by (simp add: SegTrailer_Validate_def segment_trailer_def sample_wopts_def sample_log_def Let_def MaxRecordLSN_def MaxBlockCount_def
        Codec_Validate_def HashAlgo_Validate_def RecordFormat_Validate_def)
  have h: "HashBytes (\<lambda>_. 0) (st_HashAlgo ?u) (trailer_body ?u) = Inr 0" using hb by (simp add: sample_wopts_def)
  from ParseTrailer_body[OF v h] obtain tb t where tb: "MarshalTrailer (\<lambda>_. 0) ?u = Inr (tb, t)"
    using v h by (simp only: MarshalTrailer_def SegTrailer_MarshalBinary_def bindE_simps)
  have base: "wc_LSN (hd sample_log) = 10" by (simp add: sample_log_def)
  have "wo_HashAlgo sample_wopts = HashXXH64" by (simp add: sample_wopts_def)
  then show ?thesis
    using f s br n ib tb hb base by (simp add: segment_ref_def checkedBlockCount_def MaxBlockCount_def)
qed

text \<open>The reference that describes a segment by its trailer.\<close>

definition ref_of :: "string \<Rightarrow> u64 \<Rightarrow> SegTrailer \<Rightarrow> SegmentRef" where
  "ref_of uri epoch t =
     \<lparr>sr_URI = uri, sr_StreamID = [], sr_Partition = st_Partition t, sr_WriterEpoch = epoch, sr_SegmentUUID = st_SegmentUUID t,
      sr_WriterTag = st_WriterTag t, sr_BaseLSN = st_BaseLSN t, sr_LastLSN = st_LastLSN t,
      sr_MinTimestampMS = st_MinTimestampMS t, sr_MaxTimestampMS = st_MaxTimestampMS t, sr_RecordCount = st_RecordCount t,
      sr_BlockCount = st_BlockCount t, sr_SizeBytes = st_TotalSize t, sr_BlockIndexOffset = st_BlockIndexOffset t,
      sr_BlockIndexLength = st_BlockIndexLength t, sr_Codec = st_Codec t, sr_HashAlgo = st_HashAlgo t,
      sr_SegmentHash = st_SegmentHash t, sr_TrailerHash = st_TrailerHash t\<rparr>"

lemma ref_of_matches [simp]: "validateRefTrailer (ref_of uri epoch t) t = Inr ()" "sr_URI (ref_of uri epoch t) = uri"
    "sr_SizeBytes (ref_of uri epoch t) = st_TotalSize t"
  by (simp_all add: validateRefTrailer_def ref_of_def)

lemma sample_open:
  assumes "segment_ref (\<lambda>x. x) (\<lambda>_. 0) sample_wopts [sample_log] = Inr (body, t)"
  shows "validateOpen (Some store) (ref_of ''m'' 1 t) SegReader_DefaultOptions = Inr SegReader_DefaultOptions"
    "serves (wholeSegmentStore ''m'' body) ''m'' body" "length body = unat (st_TotalSize t)"
proof -
  obtain Bs ss bs ix ib tb where P: "segment_parts (\<lambda>x. x) (\<lambda>_. 0) sample_wopts [sample_log] body t Bs ss bs ix ib tb"
    by (rule segment_ref_parts[OF assms])
  note E = segment_extent[OF P] and Q = P[unfolded segment_parts_def]
  show len: "length body = unat (st_TotalSize t)" by (rule E(3))
  show "serves (wholeSegmentStore ''m'' body) ''m'' body"
    by (rule wholeSegmentStore_serves) (simp only: len unat_u64_less)
  have tv: "SegTrailer_Validate t (st_TotalSize t) = Inr ()" using Q by blast
  obtain n g h where t: "t = (segment_trailer sample_wopts (concat [sample_log]) (of_nat (length bs)) n)\<lparr>st_SegmentHash := g, st_TrailerHash := h\<rparr>"
    using Q by blast
  have body: "body_ref sample_wopts (wc_LSN (hd (concat [sample_log]))) ss = Inr (bs, ix)" using Q by blast
  have "length ix = 1" using body_ref_layout(2)[OF body] Q by (auto dest!: list_all2_lengthD)
  then have "unat (st_BlockIndexLength t) = 128" using E(2) Q by simp
  then have il: "st_BlockIndexLength t = 128" by (simp add: word_unat_eq_iff)
  have u: "st_SegmentUUID t = 7" by (simp add: t sample_wopts_def)
  have "st_TotalSize t \<noteq> 0" using E(4) by auto
  then have "SegmentRef_Validate (ref_of ''m'' 1 t) = Inr ()"
    using tv by (auto simp: SegmentRef_Validate_def ref_of_def SegTrailer_Validate_def Let_def il u split: if_splits)
  then show "validateOpen (Some store) (ref_of ''m'' 1 t) SegReader_DefaultOptions = Inr SegReader_DefaultOptions"
    using E(4) by (simp add: validateOpen_def SegReader_normalizeOptions_def SegReader_DefaultOptions_def DefaultMaxBlockBytes_def
        DefaultMaxIndexBytes_def MaxStoredBlockSize_def ref_of_def il not_less map_err_def)
qed

lemma sample_reader:
  assumes "segment_ref (\<lambda>x. x) (\<lambda>_. 0) sample_wopts [sample_log] = Inr (body, t)"
  shows "\<exists>r. SegReader_Open (\<lambda>_. 0) None (Some (wholeSegmentStore ''m'' body)) (ref_of ''m'' 1 t) SegReader_DefaultOptions = Inr r
    \<and> (\<forall>f limit. SegReader_Read Inr (\<lambda>_. 0) None r f limit = Inr (map (read_back 3) (expected f limit sample_log)))"
proof -
  have "zstd_codec (\<lambda>x. x) Inr" by (simp add: zstd_codec_def)
  moreover have "DefaultMaxBlockBytes \<le> ro_MaxBlockBytes SegReader_DefaultOptions" by (simp add: SegReader_DefaultOptions_def)
  moreover have "wo_Partition sample_wopts = 3" by (simp add: sample_wopts_def)
  ultimately show ?thesis
    using segment_reads_back[OF assms, of Inr "wholeSegmentStore ''m'' body" "ref_of ''m'' 1 t" SegReader_DefaultOptions SegReader_DefaultOptions]
      sample_open[OF assms] sample_log_ok by auto
qed


section \<open>Reading\<close>

text \<open>A full read returns the records of all blocks.\<close>

lemma Read_all:
  assumes "reader_ok r" "SegReader_Read zdec xxh None r 0 0 = Inr out"
  shows "\<exists>recs. seg_stream zdec xxh r 0 0 = (recs, None) \<and> out = map (to_record r) recs"
proof -
  let ?base = "st_BaseLSN (sd_trailer r)" and ?ix = "sd_index r"
  note R = reader_okD[OF assms(1)]
  have n: "0 < length ?ix" using R(4) by simp
  have le: "?base \<le> st_LastLSN (sd_trailer r)" using blk.tiles_less[OF R(2,1,4)] by (simp add: word_le_nat_alt)
  define k where "k = search_list (\<lambda>e. ?base \<le> blockLastLSN e) ?ix"
  note K = scan_block[OF assms(1) order_refl le, folded k_def]
  have lo: "block_lo (?ix ! 0) = unat ?base" using tiles_hd[OF R(2)] R(4) by (simp add: hd_conv_nth)
  have "k = 0"
    using blk.unique_index[OF R(2,1) K(1) n K(2,3)] lo block_hi_bound(2)[OF assms(1) n] by simp
  moreover have "max 0 ?base = ?base" by (simp add: max_def)
  moreover have "\<not> st_LastLSN (sd_trailer r) < 0" by simp
  ultimately have rs: "read_stream zdec xxh r 0 = seg_stream zdec xxh r ?base 0"
    by (simp add: read_stream_def k_def Let_def)
  have st: "take_stream 0 0 (read_stream zdec xxh r 0) = (case snd (read_stream zdec xxh r 0) of Some e \<Rightarrow> Inl e | None \<Rightarrow> Inr (fst (read_stream zdec xxh r 0)))"
    by (simp add: take_stream_def)
  obtain xs where xs: "read_stream zdec xxh r 0 = (xs, None)" "out = map (to_record r) xs"
    using assms(2) unfolding Read_stream[OF assms(1)] st by (cases "read_stream zdec xxh r 0") (auto split: option.splits)
  obtain bs where bs: "openBlockScanner zdec xxh None r 0 = Inr bs"
    using xs(1) n unfolding rs by (cases "openBlockScanner zdec xxh None r 0") (simp_all add: seg_stream.simps[of _ _ _ _ 0])
  note O = openBlockScanner_Inr[OF assms(1) n bs]
  have "?base \<le> rc_LSN x" if "x \<in> set (fst (drain bs))" for x
  proof -
    have "lsn_of x \<in> set (map lsn_of (fst (drain bs)))" using that by simp
    then have "lsn_of x \<in> {next_lsn bs..<next_lsn bs + length (fst (drain bs))}" using drain_lsns[OF O(1)] by (simp only: set_upt)
    then show ?thesis using O(2) lo by (simp add: word_le_nat_alt)
  qed
  then have "filter (\<lambda>x. ?base \<le> rc_LSN x) (fst (drain bs)) = fst (drain bs)" by (simp add: filter_id_conv)
  then have "seg_stream zdec xxh r ?base 0 = seg_stream zdec xxh r 0 0"
    using bs n by (simp add: seg_stream.simps[of _ _ _ _ 0] then_stream_def Let_def)
  then show ?thesis using xs rs by auto
qed

lemma SegReader_Open_ok: "SegReader_Open xxh ctx store ref opts = Inr r \<Longrightarrow> reader_ok r"
  by (auto simp: SegReader_Open_def dest: open_segment_Inr(1))

text \<open>C31: whatever bytes the store returned, a reader that opened yields, on every read that
  succeeds, records of the segment's partition whose log sequence numbers are exactly the
  consecutive ones from the later of the requested and the segment's first number, up to the limit
  or the segment's last number; and the search by timestamp returns the number of the first record,
  in the order of a full read, whose timestamp is not before the one asked for, or nothing when
  there is none.\<close>

theorem segment_reads_exact:
  assumes "SegReader_Open xxh ctx store ref opts = Inr r"
  shows "(\<forall>f limit out. SegReader_Read zdec xxh None r f limit = Inr out \<longrightarrow>
      map (\<lambda>x. unat (re_LSN x)) out =
        [max (unat f) (unat (sr_BaseLSN ref))..<
           (if limit \<le> 0 then unat (sr_LastLSN ref) + 1
            else min (max (unat f) (unat (sr_BaseLSN ref)) + nat limit) (unat (sr_LastLSN ref) + 1))]
      \<and> (\<forall>x\<in>set out. re_Partition x = sr_Partition ref))
    \<and> (\<forall>ts res out. SegReader_Read zdec xxh None r 0 0 = Inr out \<longrightarrow> FindLSNByTimestamp zdec xxh None r ts = Inr res \<longrightarrow>
      res = map_option re_LSN (List.find (\<lambda>x. sint ts \<le> sint (re_TimestampMS x)) out))"
proof -
  have ok: "reader_ok r" by (rule SegReader_Open_ok[OF assms])
  have "validateRefTrailer ref (sd_trailer r) = Inr ()" using assms by (auto simp: SegReader_Open_def dest: open_segment_Inr(2))
  then have t: "st_BaseLSN (sd_trailer r) = sr_BaseLSN ref" "st_LastLSN (sd_trailer r) = sr_LastLSN ref"
      "st_Partition (sd_trailer r) = sr_Partition ref"
    by (auto simp: validateRefTrailer_def split: if_splits)
  have find: "List.find P (map g xs) = map_option g (List.find (P \<circ> g) xs)" for P and g :: "Record \<Rightarrow> ReaderRecord" and xs
    by (induction xs) auto
  have "res = map_option re_LSN (List.find (\<lambda>x. sint ts \<le> sint (re_TimestampMS x)) out)"
    if "SegReader_Read zdec xxh None r 0 0 = Inr out" "FindLSNByTimestamp zdec xxh None r ts = Inr res" for ts res out
  proof -
    note all = Read_all[OF ok that(1)]
    obtain recs where recs: "seg_stream zdec xxh r 0 0 = (recs, None)" "out = map (to_record r) recs" using all by blast
    show ?thesis using FindLSNByTimestamp_find[OF ok recs(1) that(2)]
      by (simp add: recs(2) find option.map_comp o_def to_record_def)
  qed
  then show ?thesis using Read_lsns[OF ok, unfolded t] by blast
qed

theorem segment_reads_exact_witness:
  "\<exists>store ref r. SegReader_Open (\<lambda>_. 0) None store ref SegReader_DefaultOptions = Inr r
     \<and> (\<exists>out. SegReader_Read Inr (\<lambda>_. 0) None r 0 0 = Inr out \<and> map (\<lambda>x. unat (re_LSN x)) out = [10])"
proof -
  obtain body t where b: "segment_ref (\<lambda>x. x) (\<lambda>_. 0) sample_wopts [sample_log] = Inr (body, t)" using sample_sealed by blast
  let ?store = "Some (wholeSegmentStore ''m'' body)" and ?ref = "ref_of ''m'' 1 t"
  obtain r where r: "SegReader_Open (\<lambda>_. 0) None ?store ?ref SegReader_DefaultOptions = Inr r"
      "\<And>f limit. SegReader_Read Inr (\<lambda>_. 0) None r f limit = Inr (map (read_back 3) (expected f limit sample_log))"
    using sample_reader[OF b] by blast
  obtain Bs ss bs ix ib tb where "segment_parts (\<lambda>x. x) (\<lambda>_. 0) sample_wopts [sample_log] body t Bs ss bs ix ib tb"
    by (rule segment_ref_parts[OF b])
  then have "sr_BaseLSN ?ref = 10" "sr_LastLSN ?ref = 10" by (auto simp: segment_parts_def ref_of_def sample_log_def)
  moreover note conjunct1[OF segment_reads_exact[OF r(1), of Inr], rule_format, OF r(2)[of 0 0]]
  ultimately have "map (\<lambda>x. unat (re_LSN x)) (map (read_back 3) (expected 0 0 sample_log)) = [10]" by simp
  then show ?thesis using r by metis
qed

text \<open>C32: opening a segment whole, over one read of the object, and opening it block by block are
  the same: with a store that serves the bytes of the object, either both report the same error
  or both open, and the two readers then agree on every read and every search by timestamp.\<close>

theorem OpenWhole_agrees:
  assumes "serves store (sr_URI ref) body" "length body = unat (sr_SizeBytes ref)"
  shows "case SegReader_Open xxh None (Some store) ref opts of
      Inl e \<Rightarrow> OpenWhole xxh None (Some store) ref opts = Inl e
    | Inr r \<Rightarrow> \<exists>r'. OpenWhole xxh None (Some store) ref opts = Inr r'
        \<and> (\<forall>zdec f limit. SegReader_Read zdec xxh None r' f limit = SegReader_Read zdec xxh None r f limit)
        \<and> (\<forall>zdec ts. FindLSNByTimestamp zdec xxh None r' ts = FindLSNByTimestamp zdec xxh None r ts)"
proof (cases "validateOpen (Some store) ref opts")
  case (Inl e)
  then show ?thesis by (simp add: SegReader_Open_def OpenWhole_def)
next
  case (Inr n)
  have size: "256 \<le> sr_SizeBytes ref" using validateOpen_size[OF Inr] by simp
  have body: "readAtExact None store (sr_URI ref) 0 (sr_SizeBytes ref) = Inr body"
    using readAtExact_serves[OF assms(1), of 0 "sr_SizeBytes ref"] assms(2) by (simp add: subslice_def)
  let ?whole = "wholeSegmentStore (sr_URI ref) body"
  have sv: "serves ?whole (sr_URI ref) body" using assms(1) by (intro wholeSegmentStore_serves) (simp add: serves_def)
  note A = open_segment_serves[OF assms size, of xxh n False] and B = open_segment_serves[OF sv assms(2) size, of xxh n True]
  have O: "SegReader_Open xxh None (Some store) ref opts = open_segment xxh None store ref n False"
      "OpenWhole xxh None (Some store) ref opts = open_segment xxh None ?whole ref n True"
    using Inr body by (simp_all add: SegReader_Open_def OpenWhole_def)
  show ?thesis
  proof (cases "open_body xxh body ref n")
    case (Inl e)
    then show ?thesis unfolding O A B by simp
  next
    case (Inr x)
    obtain p t ix where x: "x = (p, t, ix)" by (cases x)
    let ?r = "\<lparr>sd_store = store, sd_ref = ref, sd_opts = n, sd_borrowBlocks = False, sd_preamble = p, sd_trailer = t, sd_index = ix\<rparr>"
    let ?r' = "\<lparr>sd_store = ?whole, sd_ref = ref, sd_opts = n, sd_borrowBlocks = True, sd_preamble = p, sd_trailer = t, sd_index = ix\<rparr>"
    have r: "open_segment xxh None store ref n False = Inr ?r" "open_segment xxh None ?whole ref n True = Inr ?r'"
      unfolding A B by (simp_all add: Inr x)
    have "same_segment ?r ?r'"
      using open_serves[OF assms size r(1)] open_serves[OF sv assms(2) size r(2)] by (auto simp: same_segment_def)
    then show ?thesis unfolding O r using same_Read same_FindLSNByTimestamp by auto
  qed
qed

theorem OpenWhole_agrees_witness:
  "\<exists>store ref r r'. SegReader_Open (\<lambda>_. 0) None (Some store) ref SegReader_DefaultOptions = Inr r
     \<and> OpenWhole (\<lambda>_. 0) None (Some store) ref SegReader_DefaultOptions = Inr r'
     \<and> SegReader_Read Inr (\<lambda>_. 0) None r' 0 0 = Inr (map (read_back 3) sample_log)"
proof -
  obtain body t where b: "segment_ref (\<lambda>x. x) (\<lambda>_. 0) sample_wopts [sample_log] = Inr (body, t)" using sample_sealed by blast
  let ?store = "wholeSegmentStore ''m'' body" and ?ref = "ref_of ''m'' 1 t"
  obtain r where r: "SegReader_Open (\<lambda>_. 0) None (Some ?store) ?ref SegReader_DefaultOptions = Inr r"
      "SegReader_Read Inr (\<lambda>_. 0) None r 0 0 = Inr (map (read_back 3) sample_log)"
    using sample_reader[OF b] by (auto simp: expected_def)
  have "serves ?store (sr_URI ?ref) body" "length body = unat (sr_SizeBytes ?ref)" using sample_open(2,3)[OF b] by simp_all
  note A = OpenWhole_agrees[OF this, of "\<lambda>_. 0" SegReader_DefaultOptions, unfolded r(1) sum.case]
  obtain r' where "OpenWhole (\<lambda>_. 0) None (Some ?store) ?ref SegReader_DefaultOptions = Inr r'"
      "SegReader_Read Inr (\<lambda>_. 0) None r' 0 0 = SegReader_Read Inr (\<lambda>_. 0) None r 0 0"
    using A by blast
  then show ?thesis using r by metis
qed


section \<open>Writing\<close>

text \<open>
  A run of appends: the records that were accepted, with any number of appends in between that
  were not accepted and left the writer usable.
\<close>

inductive appends ::
  "('x, 'k) Sink \<Rightarrow> ('x, 'k) schedule \<Rightarrow> ('x, 'k) Writer \<Rightarrow> WriterRecord list \<Rightarrow> ('x, 'k) Writer \<Rightarrow> bool"
  for S \<sigma> w0 where
  start: "appends S \<sigma> w0 [] w0"
| accepted: "appends S \<sigma> w0 rs w \<Longrightarrow> SegWriter_Append S \<sigma> ctx cleanup r w = Some (Inr (), w') \<Longrightarrow> appends S \<sigma> w0 (rs @ [r]) w'"
| refused: "appends S \<sigma> w0 rs w \<Longrightarrow> SegWriter_Append S \<sigma> ctx cleanup r w = Some (Inl err, w') \<Longrightarrow> \<not> wr_aborted w'
    \<Longrightarrow> appends S \<sigma> w0 rs w'"

lemma appends_append_all:
  "append_all S \<sigma> ctx cleanup rs w = Some (Inr (), w') \<Longrightarrow> appends S \<sigma> w0 ps w \<Longrightarrow> appends S \<sigma> w0 (ps @ rs) w'"
proof (induction rs arbitrary: ps w)
  case (Cons r rs)
  obtain w1 where a: "SegWriter_Append S \<sigma> ctx cleanup r w = Some (Inr (), w1)" "append_all S \<sigma> ctx cleanup rs w1 = Some (Inr (), w')"
    using Cons.prems(1) by (auto split: option.splits sum.splits prod.splits)
  show ?case using Cons.IH[OF a(2) appends.accepted[OF Cons.prems(2) a(1)]] by simp
qed simp

lemma appends_winv:
  assumes "follows memory_sink zenc xxh \<sigma>" "msink.winv zenc xxh ([], []) w0" "appends memory_sink \<sigma> w0 rs w"
  shows "\<exists>G. msink.winv zenc xxh G w \<and> accepted G = rs \<and> wr_opts w = wr_opts w0"
  using assms(3)
proof (induction rule: appends.induct)
  case start
  then show ?case using assms(2) by force
next
  case (accepted rs w ctx cleanup r w')
  then obtain G where G: "msink.winv zenc xxh G w" "accepted G = rs" "wr_opts w = wr_opts w0" by blast
  show ?case using msink.Append_winv(1)[OF assms(1) G(1) accepted.hyps(2) refl] G(2,3) accepted_place by metis
next
  case (refused rs w ctx cleanup r err w')
  then obtain G where G: "msink.winv zenc xxh G w" "accepted G = rs" "wr_opts w = wr_opts w0" by blast
  show ?case using msink.Append_winv(2)[OF assms(1) G(1) refused.hyps(2) refl] refused.hyps(3) G(2,3) by metis
qed

lemma normalizeOptions_partition:
  "SegWriter_normalizeOptions numCPU rand now opts = Inr opts' \<Longrightarrow> wo_Partition opts' = wo_Partition opts"
  by (auto simp: SegWriter_normalizeOptions_def Let_def)

lemma winv_log: "msink.winv zenc xxh G w \<Longrightarrow> log_ok (accepted G) \<and> [] \<notin> set (blocks G)"
  by (cases G) (auto simp: msink.winv_def tracks_def blocks_def)

text \<open>C33: what is written can be read back: whatever the order in which the pipeline seals and
  emits the blocks, and with any number of appends refused in between, a segment that closed opens
  again, with every reference that agrees with its trailer and any store that serves its bytes,
  and every read returns exactly the accepted records from the requested number on, up to the
  limit; a search by timestamp finds the first accepted record that is not older.\<close>

theorem writer_reads_back:
  assumes "follows memory_sink zenc xxh \<sigma>" "zstd_codec zenc zdec"
    and "SegWriter_New numCPU rand now opts (Some k) = Inr w0" "appends memory_sink \<sigma> w0 rs w"
    and "SegWriter_Close memory_sink xxh \<sigma> c w = Some (Inr res, w')"
    and "validateRefTrailer ref (wq_Trailer res) = Inr ()" "serves store (sr_URI ref) (MemorySink_Bytes (wr_sink w'))"
    and "validateOpen (Some store) ref ropts = Inr ropts'" "DefaultMaxBlockBytes \<le> ro_MaxBlockBytes ropts'"
  shows "\<exists>r. SegReader_Open xxh None (Some store) ref ropts = Inr r
    \<and> (\<forall>f limit. SegReader_Read zdec xxh None r f limit = Inr (map (read_back (wo_Partition opts)) (expected f limit rs)))
    \<and> (\<forall>ts. FindLSNByTimestamp zdec xxh None r ts =
         Inr (map_option wc_LSN (List.find (\<lambda>x. sint ts \<le> sint (wc_TimestampMS x)) rs)))"
proof -
  note N = msink.New_winv[OF assms(3)]
  obtain G where G: "msink.winv zenc xxh G w" "accepted G = rs" "wr_opts w = wr_opts w0"
    using appends_winv[OF assms(1) N(1) assms(4)] by blast
  obtain body where b: "segment_ref zenc xxh (wr_opts w) (blocks G) = Inr (body, wq_Trailer res)"
      "(if co_URI (wq_Object res) = mk_uri (wr_sink w') then Some (mk_object (wr_sink w')) else None) = Some body"
    using msink.Close_publishes(1)[OF assms(1) G(1) assms(5)] by blast
  have ne: "rs \<noteq> []" using msink.Close_publishes(2)[OF assms(1) G(1) assms(5)] G(2) by simp
  have body: "body = MemorySink_Bytes (wr_sink w')" using b(2) by (simp add: MemorySink_Bytes_def split: if_splits)
  have part: "wo_Partition (wr_opts w) = wo_Partition opts" using normalizeOptions_partition[OF N(2)] G(3) by simp
  show ?thesis
    using segment_reads_back[OF b(1) assms(2) _ _ _ _ assms(6,8,9)] winv_log[OF G(1)] assms(7) G(2) ne
    by (simp add: body part)
qed

lemma sample_run:
  obtains w0 w res w' where "SegWriter_New 1 (Inr 0) 0 sample_wopts (Some (NewMemorySink ''m'')) = Inr w0"
    "appends memory_sink (eager memory_sink (\<lambda>x. x) (\<lambda>_. 0)) w0 sample_log w"
    "SegWriter_Close memory_sink (\<lambda>_. 0) (eager memory_sink (\<lambda>x. x) (\<lambda>_. 0)) (\<lambda>_. None) w = Some (Inr res, w')"
    "segment_ref (\<lambda>x. x) (\<lambda>_. 0) sample_wopts [sample_log] = Inr (MemorySink_Bytes (wr_sink w'), wq_Trailer res)"
proof -
  let ?\<sigma> = "eager memory_sink (\<lambda>x. x) (\<lambda>_. 0)"
  let ?G = "foldl (place (wo_TargetBlockSize sample_wopts)) ([], []) sample_log"
  obtain body t where b: "segment_ref (\<lambda>x. x) (\<lambda>_. 0) sample_wopts (blocks ?G) = Inr (body, t)"
    using sample_sealed sample_blocks by metis
  obtain w0 where w0: "SegWriter_New 1 (Inr 0) 0 sample_wopts (Some (NewMemorySink ''m'')) = Inr (w0 :: (memoryTxn, MemorySink) Writer)"
      "wr_opts w0 = sample_wopts"
    by (auto simp: SegWriter_New_def sample_normal sample_count)
  have "live (\<lambda>x. x) (\<lambda>_. 0) ([], []) w0" by (rule New_live[OF w0(1)]) (simp_all add: NewMemorySink_def w0(2) sample_count)
  moreover have "sealable (\<lambda>x. x) (\<lambda>_. 0) sample_wopts h" if "h \<in> set (blocks ?G)" for h
    using b that by (fastforce simp: segment_ref_def sealable_def mapE_eq_Inr in_set_conv_nth list_all2_conv_all_nth)
  ultimately obtain w where w: "append_all memory_sink ?\<sigma> None None sample_log w0 = Some (Inr (), w)" "live (\<lambda>x. x) (\<lambda>_. 0) ?G w"
      "wr_opts w = sample_wopts"
    using append_all_live[OF steady_eager fair_eager _ _ w0(2), of "\<lambda>x. x" "\<lambda>_. 0" "([], [])" sample_log] sample_log_ok by auto
  have a: "appends memory_sink ?\<sigma> w0 sample_log w" using appends_append_all[OF w(1) appends.start] by simp
  have acc: "accepted ?G = sample_log" by (metis concat_blocks sample_blocks concat.simps append_Nil2)
  obtain res w' where c: "SegWriter_Close memory_sink (\<lambda>_. 0) ?\<sigma> (\<lambda>_. None) w = Some (Inr res, w')"
    using Close_live[OF w(2) _ _ steady_eager fair_eager] b w(3) acc sample_log_ok by auto
  have "msink.winv (\<lambda>x. x) (\<lambda>_. 0) ?G w" using liveD[OF w(2)] by blast
  from msink.Close_publishes(1)[OF follows_eager this c]
  have "segment_ref (\<lambda>x. x) (\<lambda>_. 0) sample_wopts [sample_log] = Inr (MemorySink_Bytes (wr_sink w'), wq_Trailer res)"
    by (auto simp: w(3) sample_blocks MemorySink_Bytes_def split: if_splits)
  then show thesis by (rule that[OF w0(1) a c])
qed

theorem writer_reads_back_witness:
  "\<exists>w0 w res w' r. SegWriter_New 1 (Inr 0) 0 sample_wopts (Some (NewMemorySink ''m'')) = Inr w0
     \<and> appends memory_sink (eager memory_sink (\<lambda>x. x) (\<lambda>_. 0)) w0 sample_log w
     \<and> SegWriter_Close memory_sink (\<lambda>_. 0) (eager memory_sink (\<lambda>x. x) (\<lambda>_. 0)) (\<lambda>_. None) w = Some (Inr res, w')
     \<and> SegReader_Read Inr (\<lambda>_. 0) None r 0 0 = Inr (map (read_back 3) sample_log)"
proof -
  obtain w0 w res w' where s: "SegWriter_New 1 (Inr 0) 0 sample_wopts (Some (NewMemorySink ''m'')) = Inr w0"
    "appends memory_sink (eager memory_sink (\<lambda>x. x) (\<lambda>_. 0)) w0 sample_log w"
    "SegWriter_Close memory_sink (\<lambda>_. 0) (eager memory_sink (\<lambda>x. x) (\<lambda>_. 0)) (\<lambda>_. None) w = Some (Inr res, w')"
    "segment_ref (\<lambda>x. x) (\<lambda>_. 0) sample_wopts [sample_log] = Inr (MemorySink_Bytes (wr_sink w'), wq_Trailer res)"
    by (rule sample_run)
  have z: "zstd_codec (\<lambda>x. x) Inr" by (simp add: zstd_codec_def)
  have m: "DefaultMaxBlockBytes \<le> ro_MaxBlockBytes SegReader_DefaultOptions" by (simp add: SegReader_DefaultOptions_def)
  have sv: "serves (wholeSegmentStore ''m'' (MemorySink_Bytes (wr_sink w'))) (sr_URI (ref_of ''m'' 1 (wq_Trailer res)))
      (MemorySink_Bytes (wr_sink w'))"
    using sample_open(2)[OF s(4)] by simp
  obtain r where "SegReader_Read Inr (\<lambda>_. 0) None r 0 0 = Inr (map (read_back (wo_Partition sample_wopts)) (expected 0 0 sample_log))"
    using writer_reads_back[OF follows_eager z s(1-3) ref_of_matches(1) sv sample_open(1)[OF s(4)] m] by blast
  then have "SegReader_Read Inr (\<lambda>_. 0) None r 0 0 = Inr (map (read_back 3) sample_log)"
    by (simp add: expected_def sample_wopts_def)
  then show ?thesis using s(1-3) by blast
qed

text \<open>C34: the bytes that encoding produces do not depend on the schedule: whatever the order of
  the pipeline's steps and of the ready branches the owner's waits take, a result of \<^verbatim>\<open>Encode\<close>
  is the segment that writing the blocks of the greedy split one after the other gives, with the
  metadata of its trailer.\<close>

theorem Encode_schedule_independent:
  assumes "follows memory_sink zenc xxh \<sigma>" "Encode xxh \<sigma> numCPU rand now ctx c rs opts = Some (Inr (body, md))"
  shows "\<exists>opts' t. SegWriter_normalizeOptions numCPU rand now opts = Inr opts'
    \<and> segment_ref zenc xxh opts' (blocks (foldl (place (wo_TargetBlockSize opts')) ([], []) rs)) = Inr (body, t)
    \<and> md = metadataFromTrailer t"
proof -
  obtain w w1 res w2 where e: "SegWriter_New numCPU rand now opts (Some (NewMemorySink ''memory://encode'')) = Inr w"
      "append_all memory_sink \<sigma> ctx (c 0) rs w = Some (Inr (), w1)" "SegWriter_Close memory_sink xxh \<sigma> c w1 = Some (Inr res, w2)"
      "body = MemorySink_Bytes (wr_sink w2)" "md = wq_Metadata res"
    using assms(2) by (auto simp: Encode_def split: sum.splits option.splits prod.splits)
  note N = msink.New_winv[OF e(1)]
  have W: "msink.winv zenc xxh (foldl (place (wo_TargetBlockSize (wr_opts w))) ([], []) rs) w1" "wr_opts w1 = wr_opts w"
    using msink.append_all_winv[OF assms(1) N(1) e(2)] by simp_all
  from msink.Close_publishes(1)[OF assms(1) W(1) e(3)]
  have "segment_ref zenc xxh (wr_opts w) (blocks (foldl (place (wo_TargetBlockSize (wr_opts w))) ([], []) rs)) = Inr (body, wq_Trailer res)"
    "md = metadataFromTrailer (wq_Trailer res)"
    by (auto simp: W(2) e(4,5) MemorySink_Bytes_def split: if_splits)
  then show ?thesis using N(2) by blast
qed

theorem Encode_schedule_independent_witness:
  "\<exists>body md t. Encode (\<lambda>_. 0) (eager memory_sink (\<lambda>x. x) (\<lambda>_. 0)) 1 (Inr 0) 0 None (\<lambda>_. None) sample_log sample_wopts = Some (Inr (body, md))
     \<and> segment_ref (\<lambda>x. x) (\<lambda>_. 0) sample_wopts [sample_log] = Inr (body, t)"
proof -
  obtain body t where b: "segment_ref (\<lambda>x. x) (\<lambda>_. 0) sample_wopts (blocks (foldl (place (wo_TargetBlockSize sample_wopts)) ([], []) sample_log)) = Inr (body, t)"
    using sample_sealed sample_blocks by metis
  obtain bs md where e: "Encode (\<lambda>_. 0) (eager memory_sink (\<lambda>x. x) (\<lambda>_. 0)) 1 (Inr 0) 0 None (\<lambda>_. None) sample_log sample_wopts
      = Some (Inr (bs, md))"
    using Encode_live[OF steady_eager fair_eager sample_normal _ sample_log_ok b] by (auto simp: sample_count)
  from Encode_schedule_independent[OF follows_eager e] obtain t'
    where "segment_ref (\<lambda>x. x) (\<lambda>_. 0) sample_wopts [sample_log] = Inr (bs, t')"
    by (auto simp: sample_normal sample_blocks)
  then show ?thesis using e by blast
qed

text \<open>C35: encoding succeeds: records that form a log, with options that are accepted and blocks,
  index and trailer that the sequential reference accepts, are encoded to the bytes of that
  reference under every schedule of the pipeline that cancels no context and lets the owner wait
  until the branch it waits for is ready or the pipeline is at rest, whatever the order of its
  steps: the owner never waits for ever.\<close>

theorem Encode_succeeds:
  assumes "steady memory_sink zenc xxh \<sigma>" "fair \<sigma>"
    and "SegWriter_normalizeOptions numCPU rand now opts = Inr opts'" "0 < wo_BlockBufferCount opts'" "log_ok rs" "rs \<noteq> []"
    and "segment_ref zenc xxh opts' (blocks (foldl (place (wo_TargetBlockSize opts')) ([], []) rs)) = Inr (body, t)"
  shows "Encode xxh \<sigma> numCPU rand now None (\<lambda>_. None) rs opts = Some (Inr (body, metadataFromTrailer t))"
proof -
  note f = steady_follows[OF assms(1)]
  obtain bs md where e: "Encode xxh \<sigma> numCPU rand now None (\<lambda>_. None) rs opts = Some (Inr (bs, md))"
    using Encode_live[OF assms] by auto
  obtain w w1 res w2 where d: "SegWriter_New numCPU rand now opts (Some (NewMemorySink ''memory://encode'')) = Inr w"
      "append_all memory_sink \<sigma> None None rs w = Some (Inr (), w1)"
      "SegWriter_Close memory_sink xxh \<sigma> (\<lambda>_. None) w1 = Some (Inr res, w2)"
      "bs = MemorySink_Bytes (wr_sink w2)" "md = wq_Metadata res"
    using e by (auto simp: Encode_def split: sum.splits option.splits prod.splits)
  note N = msink.New_winv[OF d(1)]
  have o': "wr_opts w = opts'" using N(2) assms(3) by simp
  have W: "msink.winv zenc xxh (foldl (place (wo_TargetBlockSize opts')) ([], []) rs) w1" "wr_opts w1 = opts'"
    using msink.append_all_winv[OF f N(1) d(2)] by (simp_all add: o')
  from msink.Close_publishes(1)[OF f W(1) d(3)]
  have "segment_ref zenc xxh opts' (blocks (foldl (place (wo_TargetBlockSize opts')) ([], []) rs)) = Inr (bs, wq_Trailer res)"
    "md = metadataFromTrailer (wq_Trailer res)"
    by (auto simp: W(2) d(4,5) MemorySink_Bytes_def split: if_splits)
  then show ?thesis using e assms(7) by simp
qed

theorem Encode_succeeds_witness:
  "\<exists>body md. Encode (\<lambda>_. 0) (eager memory_sink (\<lambda>x. x) (\<lambda>_. 0)) 1 (Inr 0) 0 None (\<lambda>_. None) sample_log sample_wopts = Some (Inr (body, md))"
proof -
  obtain body t where b: "segment_ref (\<lambda>x. x) (\<lambda>_. 0) sample_wopts (blocks (foldl (place (wo_TargetBlockSize sample_wopts)) ([], []) sample_log)) = Inr (body, t)"
    using sample_sealed sample_blocks by metis
  show ?thesis using Encode_succeeds[OF steady_eager fair_eager sample_normal _ sample_log_ok b] by (auto simp: sample_count)
qed

text \<open>C36: the sealing pipeline comes to rest: every step that is not a cancellation uses up
  work, a pipeline that is not at rest can take a step that does, and running it down from any
  state ends at rest after steps of the pipeline only, so that no wait for it lasts for ever.\<close>

theorem pipeline_comes_to_rest:
  "(\<forall>w'. bg cancels S zenc xxh w w' \<longrightarrow> load w' < load w \<or> (\<exists>err. w' = wr_setFirstErr err w))
   \<and> (\<not> quiescent w \<longrightarrow> (\<exists>w'. bg cancels S zenc xxh w w' \<and> load w' < load w))
   \<and> (bg cancels S zenc xxh)\<^sup>*\<^sup>* w (run_down S zenc xxh w) \<and> quiescent (run_down S zenc xxh w)
   \<and> finishPipeline (eager S zenc xxh) w \<noteq> None"
proof -
  have "\<exists>w'. bg cancels S zenc xxh w w' \<and> load w' < load w" if "\<not> quiescent w"
    using that rest_step_bg rest_step_None[of S zenc xxh w] by (cases "rest_step S zenc xxh w") blast+
  moreover have "quiescent ((run_down S zenc xxh v)\<lparr>wr_tick := n\<rparr>)" for n v
    using run_down_bg[of cancels S zenc xxh v] by (simp add: quiescent_def)
  then have "finishPipeline (eager S zenc xxh) w \<noteq> None"
    by (simp add: finishPipeline_def wait_def eager_def Let_def)
  ultimately show ?thesis using bg_load run_down_bg by blast
qed

theorem pipeline_comes_to_rest_witness:
  "\<exists>w :: (memoryTxn, MemorySink) Writer. \<not> quiescent (w\<lparr>wr_sealJobs := [empty_buffer]\<rparr>)
     \<and> (\<exists>w'. bg False memory_sink (\<lambda>x. x) (\<lambda>_. 0) (w\<lparr>wr_sealJobs := [empty_buffer]\<rparr>) w' \<and> load w' < load (w\<lparr>wr_sealJobs := [empty_buffer]\<rparr>))"
proof -
  have "wo_SealParallelism sample_wopts = 1" by (simp add: sample_wopts_def)
  then obtain w :: "(memoryTxn, MemorySink) Writer"
    where w: "SegWriter_New 1 (Inr 0) 0 sample_wopts (Some (NewMemorySink ''m'')) = Inr w" "wr_workers w = 1"
    by (auto simp: SegWriter_New_def sample_normal sample_count)
  then have "\<not> quiescent (w\<lparr>wr_sealJobs := [empty_buffer]\<rparr>)" by (simp add: quiescent_def)
  then show ?thesis using pipeline_comes_to_rest[of False memory_sink "\<lambda>x. x" "\<lambda>_. 0"] by blast
qed



text \<open>The exception is real: the number of buffers that is derived from the largest integer wraps
  around to a negative one.\<close>

lemma writer_options_overflow:
  "SegWriter_New 1 (Inr 0) 0 (sample_wopts\<lparr>wo_SealParallelism := 9223372036854775807, wo_BlockBufferCount := 0\<rparr>)
     (Some (NewMemorySink ''m'')) = Inl [GoPanic]"
  by (simp add: SegWriter_New_def SegWriter_normalizeOptions_def sample_wopts_def MaxRawBlockSize_def map_err_def isZero16_def
      Codec_Validate_def HashAlgo_Validate_def go_int_def)

end
