(* ===== verification/Memory_Catalog.thy ===== *)
theory Memory_Catalog
  imports Partition_Meta
begin

text \<open>
  The in-process catalog (\<^verbatim>\<open>internal/catalog/memory.go\<close>). The mutex makes every operation on the
  catalog atomic, so an operation is a function from the catalog to its result and the catalog
  afterwards. \<^verbatim>\<open>mc_id\<close> stands for the catalog's address, which snapshots are compared by.
\<close>


section \<open>State\<close>

record memoryPartition =
  mp_state :: PartitionHead
  mp_writerID :: bytes16
  mp_headVersion :: u64
  mp_segments :: "SegmentRef list"

record MemoryCatalog =
  mc_id :: nat
  mc_streamID :: string
  mc_partitions :: "u32 \<rightharpoonup> memoryPartition"
  mc_retention :: "u32 \<rightharpoonup> RetentionRequest"

record memoryPartitionSnapshot =
  sn_catalog :: nat
  sn_partition :: u32
  sn_version :: u64
  sn_head :: PartitionHead

record memoryWriterSession =
  ms_partition :: u32
  ms_writerID :: bytes16
  ms_writerEpoch :: u64
  ms_headVersion :: u64
  ms_state :: PartitionHead

definition NewMemoryCatalog :: "nat \<Rightarrow> MemoryCatalog" where
  "NewMemoryCatalog addr =
     \<lparr>mc_id = addr, mc_streamID = [], mc_partitions = Map.empty, mc_retention = Map.empty\<rparr>"

definition new_memoryPartition :: "string \<Rightarrow> u32 \<Rightarrow> memoryPartition" where
  "new_memoryPartition streamID part =
     \<lparr>mp_state = zero_PartitionHead streamID part, mp_writerID = 0, mp_headVersion = 0,
      mp_segments = []\<rparr>"

abbreviation set_partition :: "u32 \<Rightarrow> memoryPartition \<Rightarrow> MemoryCatalog \<Rightarrow> MemoryCatalog" where
  "set_partition part data c \<equiv> c\<lparr>mc_partitions := (mc_partitions c)(part \<mapsto> data)\<rparr>"

text \<open>The partition and the catalog that holds it, created empty when it was not there.\<close>

definition getOrCreateLocked :: "MemoryCatalog \<Rightarrow> u32 \<Rightarrow> memoryPartition \<times> MemoryCatalog" where
  "getOrCreateLocked c part =
     (case mc_partitions c part of
        Some data \<Rightarrow> (data, c)
      | None \<Rightarrow> let data = new_memoryPartition (mc_streamID c) part
                in (data, set_partition part data c))"


section \<open>Lookups in a slice of segments\<close>

definition firstSegmentAtOrAfter :: "SegmentRef list \<Rightarrow> u64 \<Rightarrow> nat" where
  "firstSegmentAtOrAfter segments lsn = search_list (\<lambda>s. sr_LastLSN s \<ge> lsn) segments"

definition firstSegmentAtOrAfterTimestamp :: "SegmentRef list \<Rightarrow> i64 \<Rightarrow> nat" where
  "firstSegmentAtOrAfterTimestamp segments ts =
     search_list (\<lambda>s. sint (sr_MaxTimestampMS s) \<ge> sint ts) segments"

definition idempotentRetry :: "memoryPartition \<Rightarrow> u64 \<Rightarrow> SegmentRef \<Rightarrow> PartitionHead option" where
  "idempotentRetry data expectedNextLSN segment =
     (if expectedNextLSN \<noteq> sr_BaseLSN segment then None
      else let i = firstSegmentAtOrAfter (mp_segments data) (sr_BaseLSN segment)
      in if i = length (mp_segments data) then None
      else if mp_segments data ! i \<noteq> segment then None
      else Some (mp_state data))"

fun ensureUniqueSegment :: "SegmentRef list \<Rightarrow> SegmentRef \<Rightarrow> unit res" where
  "ensureUniqueSegment [] segment = Inr ()"
| "ensureUniqueSegment (existing # rest) segment =
     (if sr_SegmentUUID existing = sr_SegmentUUID segment then Inl [ErrConflict]
      else if sr_URI existing = sr_URI segment then Inl [ErrConflict]
      else ensureUniqueSegment rest segment)"


section \<open>Operations\<close>

definition InitializePartition ::
  "ctx \<Rightarrow> u32 \<Rightarrow> u64 \<Rightarrow> MemoryCatalog \<Rightarrow> (PartitionHead \<times> bool) res \<times> MemoryCatalog" where
  "InitializePartition ctx part next_lsn c =
     (case ctx of Some err \<Rightarrow> (Inl err, c)
      | None \<Rightarrow>
        if next_lsn = MaxUint64 then (Inl [ErrInvalidRequest], c)
        else (case mc_partitions c part of
          Some data \<Rightarrow> (Inr (mp_state data, False), c)
        | None \<Rightarrow>
          let state = (zero_PartitionHead (mc_streamID c) part)
                        \<lparr>pt_NextLSN := next_lsn, pt_OldestLSN := next_lsn\<rparr>
          in (Inr (state, True),
              set_partition part \<lparr>mp_state = state, mp_writerID = 0, mp_headVersion = 1,
                                  mp_segments = []\<rparr> c)))"

definition acquireWriter ::
  "ctx \<Rightarrow> u32 \<Rightarrow> bytes16 \<Rightarrow> MemoryCatalog \<Rightarrow> (PartitionHead \<times> u64 \<times> u64) res \<times> MemoryCatalog" where
  "acquireWriter ctx part writerID c =
     (case ctx of Some err \<Rightarrow> (Inl err, c)
      | None \<Rightarrow> (case ValidateWriterID writerID of Inl err \<Rightarrow> (Inl err, c)
      | Inr _ \<Rightarrow>
        let (data, c) = getOrCreateLocked c part;
            state = (mp_state data)\<lparr>pt_StreamID := mc_streamID c,
                                    pt_WriterEpoch := pt_WriterEpoch (mp_state data) + 1\<rparr>;
            data = data\<lparr>mp_state := state, mp_writerID := writerID,
                        mp_headVersion := mp_headVersion data + 1\<rparr>
        in (Inr (state, pt_WriterEpoch state, mp_headVersion data), set_partition part data c)))"

definition OpenWriter ::
  "ctx \<Rightarrow> u32 \<Rightarrow> bytes16 \<Rightarrow> MemoryCatalog \<Rightarrow> memoryWriterSession res \<times> MemoryCatalog" where
  "OpenWriter ctx part writerID c =
     (let (r, c') = acquireWriter ctx part writerID c
      in (bindE r (\<lambda>(state, epoch, headVersion).
            Inr \<lparr>ms_partition = part, ms_writerID = writerID, ms_writerEpoch = epoch,
                 ms_headVersion = headVersion, ms_state = state\<rparr>), c'))"

definition LoadPartition :: "ctx \<Rightarrow> u32 \<Rightarrow> MemoryCatalog \<Rightarrow> PartitionHead res" where
  "LoadPartition ctx part c =
     (case ctx of Some err \<Rightarrow> Inl err
      | None \<Rightarrow> (case mc_partitions c part of
          None \<Rightarrow> Inr (zero_PartitionHead (mc_streamID c) part)
        | Some data \<Rightarrow> Inr (mp_state data)))"

definition snapshot_of :: "MemoryCatalog \<Rightarrow> u32 \<Rightarrow> memoryPartitionSnapshot" where
  "snapshot_of c part =
     (let (head, version) =
            (case mc_partitions c part of
               Some data \<Rightarrow> (mp_state data, mp_headVersion data)
             | None \<Rightarrow> (zero_PartitionHead (mc_streamID c) part, 0))
      in \<lparr>sn_catalog = mc_id c, sn_partition = part, sn_version = version, sn_head = head\<rparr>)"

definition LoadPartitionSnapshot :: "ctx \<Rightarrow> u32 \<Rightarrow> MemoryCatalog \<Rightarrow> memoryPartitionSnapshot res" where
  "LoadPartitionSnapshot ctx part c =
     (case ctx of Some err \<Rightarrow> Inl err | None \<Rightarrow> Inr (snapshot_of c part))"

text \<open>
  \<open>previous\<close> is \<open>None\<close> when the caller's snapshot is nil or is not one of this kind.
\<close>

definition RefreshPartitionSnapshot ::
  "ctx \<Rightarrow> u32 \<Rightarrow> memoryPartitionSnapshot option \<Rightarrow> MemoryCatalog
     \<Rightarrow> (memoryPartitionSnapshot \<times> bool) res" where
  "RefreshPartitionSnapshot ctx part previous c =
     (case ctx of Some err \<Rightarrow> Inl err
      | None \<Rightarrow> (case previous of None \<Rightarrow> Inl [ErrInvalidRequest]
      | Some prior \<Rightarrow>
        if sn_catalog prior \<noteq> mc_id c \<or> sn_partition prior \<noteq> part then Inl [ErrInvalidRequest]
        else if sn_version (snapshot_of c part) = sn_version prior then Inr (prior, False)
        else Inr (snapshot_of c part, True)))"

definition RequestRetention ::
  "ctx \<Rightarrow> u32 \<Rightarrow> RetentionRequest \<Rightarrow> MemoryCatalog \<Rightarrow> RetentionRequest res \<times> MemoryCatalog" where
  "RequestRetention ctx part request c =
     (case ctx of Some err \<Rightarrow> (Inl err, c)
      | None \<Rightarrow> (case RetentionRequest_Validate request of Inl err \<Rightarrow> (Inl err, c)
      | Inr _ \<Rightarrow>
        let store = (Inr request, c\<lparr>mc_retention := (mc_retention c)(part \<mapsto> request)\<rparr>)
        in (case mc_retention c part of
          None \<Rightarrow> store
        | Some current \<Rightarrow>
          if rq_PolicyVersion request = rq_PolicyVersion current
             \<and> rq_BeforeLSN request = rq_BeforeLSN current then (Inr current, c)
          else if rq_PolicyVersion request \<le> rq_PolicyVersion current
            then (Inl [ErrRetentionRegression], c)
          else if rq_BeforeLSN request < rq_BeforeLSN current
            then (Inl [ErrRetentionRegression], c)
          else store)))"

definition LoadRetentionRequest :: "ctx \<Rightarrow> u32 \<Rightarrow> MemoryCatalog \<Rightarrow> RetentionRequest option res" where
  "LoadRetentionRequest ctx part c =
     (case ctx of Some err \<Rightarrow> Inl err | None \<Rightarrow> Inr (mc_retention c part))"

text \<open>The segments retention keeps and the oldest log sequence number afterwards.\<close>

definition retain_from :: "u64 \<Rightarrow> PartitionHead \<Rightarrow> SegmentRef list \<Rightarrow> u64 \<times> SegmentRef list" where
  "retain_from target state segments =
     (if target > pt_OldestLSN state \<and> length segments > 0 then
        let start = firstSegmentAtOrAfter segments target
        in if start = length segments then (pt_NextLSN state, [])
           else (sr_BaseLSN (segments ! start), drop start segments)
      else (pt_OldestLSN state, segments))"

definition applyPendingRetention ::
  "ctx \<Rightarrow> u32 \<Rightarrow> bytes16 \<Rightarrow> u64 \<Rightarrow> MemoryCatalog
     \<Rightarrow> (RetentionApplyResult \<times> u64) res \<times> MemoryCatalog" where
  "applyPendingRetention ctx part writerID writerEpoch c =
     (case ctx of Some err \<Rightarrow> (Inl err, c)
      | None \<Rightarrow>
        let (data, c) = getOrCreateLocked c part; state = mp_state data
        in if pt_WriterEpoch state \<noteq> writerEpoch \<or> mp_writerID data \<noteq> writerID
          then (Inl [ErrStaleWriter], c)
        else (case mc_retention c part of
          None \<Rightarrow> (Inr (\<lparr>ra_Head = state, ra_Request = zero_RetentionRequest, ra_Applied = False\<rparr>,
                         mp_headVersion data), c)
        | Some request \<Rightarrow>
          if rq_PolicyVersion request \<le> pt_AppliedRetentionVersion state
            then (Inr (\<lparr>ra_Head = state, ra_Request = request, ra_Applied = False\<rparr>,
                       mp_headVersion data), c)
          else if rq_BeforeLSN request < pt_AppliedRetentionLSN state
            then (Inl [ErrRetentionRegression], c)
          else let target = (if rq_BeforeLSN request > pt_NextLSN state then pt_NextLSN state
                             else rq_BeforeLSN request);
                   (oldest, segments) = retain_from target state (mp_segments data);
                   state = state\<lparr>pt_OldestLSN := oldest, pt_AppliedRetentionLSN := target,
                                 pt_AppliedRetentionVersion := rq_PolicyVersion request,
                                 pt_ReachableSegmentCount := of_nat (length segments)\<rparr>;
                   data = data\<lparr>mp_state := state, mp_headVersion := mp_headVersion data + 1,
                               mp_segments := segments\<rparr>
          in (Inr (\<lparr>ra_Head = state, ra_Request = request, ra_Applied = True\<rparr>, mp_headVersion data),
              set_partition part data c)))"

definition appendSegment ::
  "ctx \<Rightarrow> u32 \<Rightarrow> bytes16 \<Rightarrow> u64 \<Rightarrow> u64 \<Rightarrow> SegmentRef \<Rightarrow> bool \<Rightarrow> MemoryCatalog
     \<Rightarrow> (PartitionHead \<times> u64) res \<times> MemoryCatalog" where
  "appendSegment ctx part writerID writerEpoch expectedNextLSN segment knownRetry c =
     (case ctx of Some err \<Rightarrow> (Inl err, c)
      | None \<Rightarrow>
        (case ValidateAppendSegment (mc_streamID c) part expectedNextLSN writerEpoch segment of
          Inl err \<Rightarrow> (Inl err, c)
        | Inr _ \<Rightarrow>
          let (data, c) = getOrCreateLocked c part; state = mp_state data
          in if sr_WriterTag segment \<noteq> writerID then (Inl [ErrInvalidRequest], c)
          else (case idempotentRetry data expectedNextLSN segment of
            Some retry \<Rightarrow> (Inr (retry, mp_headVersion data), c)
          | None \<Rightarrow>
            if knownRetry \<and> sr_BaseLSN segment < pt_OldestLSN state
              then (Inl [ErrCommitIndeterminate], c)
            else if pt_WriterEpoch state = 0 then (Inl [ErrStaleWriter], c)
            else if writerEpoch < pt_WriterEpoch state then (Inl [ErrStaleWriter], c)
            else if writerEpoch > pt_WriterEpoch state then (Inl [ErrStaleWriter], c)
            else if writerID \<noteq> mp_writerID data then (Inl [ErrStaleWriter], c)
            else if expectedNextLSN \<noteq> pt_NextLSN state then (Inl [ErrConflict], c)
            else if sr_BaseLSN segment \<noteq> pt_NextLSN state then (Inl [ErrConflict], c)
            else if (case PartitionHead_Last state of None \<Rightarrow> False
                     | Some prev \<Rightarrow> sint (sr_MinTimestampMS segment) < sint (sr_MaxTimestampMS prev))
              then (Inl [ErrTimestampOrder], c)
            else (case ensureUniqueSegment (mp_segments data) segment of
              Inl err \<Rightarrow> (Inl err, c)
            | Inr _ \<Rightarrow>
              let state' = state\<lparr>pt_NextLSN := SegmentRef_NextLSN segment,
                     pt_OldestLSN := (if \<not> pt_HasLastSegment state then sr_BaseLSN segment
                                      else pt_OldestLSN state),
                     pt_LastSegment := segment, pt_HasLastSegment := True,
                     pt_SegmentCount := pt_SegmentCount state + 1,
                     pt_ReachableSegmentCount := pt_ReachableSegmentCount state + 1\<rparr>;
                  data = data\<lparr>mp_state := state', mp_headVersion := mp_headVersion data + 1,
                              mp_segments := mp_segments data @ [segment]\<rparr>
              in (Inr (state', mp_headVersion data), set_partition part data c)))))"

definition FindSegment :: "ctx \<Rightarrow> u32 \<Rightarrow> u64 \<Rightarrow> MemoryCatalog \<Rightarrow> SegmentRef option res" where
  "FindSegment ctx part lsn c =
     (case ctx of Some err \<Rightarrow> Inl err
      | None \<Rightarrow> (case mc_partitions c part of
          None \<Rightarrow> Inr None
        | Some data \<Rightarrow>
          let i = firstSegmentAtOrAfter (mp_segments data) lsn
          in if i = length (mp_segments data) then Inr None
          else let segment = mp_segments data ! i
          in if lsn < sr_BaseLSN segment \<or> lsn > sr_LastLSN segment then Inr None
          else Inr (Some segment)))"

definition LookupTimestamp ::
  "ctx \<Rightarrow> TimestampLookupRequest \<Rightarrow> MemoryCatalog \<Rightarrow> TimestampLookupResult res" where
  "LookupTimestamp ctx req c =
     (case ctx of Some err \<Rightarrow> Inl err
      | None \<Rightarrow> (case mc_partitions c (tq_Partition req) of
          None \<Rightarrow> Inr \<lparr>tr_Head = zero_PartitionHead (mc_streamID c) (tq_Partition req),
                       tr_Segment = zero_SegmentRef, tr_Found = False\<rparr>
        | Some data \<Rightarrow>
          let result = \<lparr>tr_Head = mp_state data, tr_Segment = zero_SegmentRef, tr_Found = False\<rparr>;
              i = firstSegmentAtOrAfterTimestamp (mp_segments data) (tq_TimestampMS req)
          in if i = length (mp_segments data) then Inr result
          else Inr (result\<lparr>tr_Segment := mp_segments data ! i, tr_Found := True\<rparr>)))"

definition ListSegments :: "ctx \<Rightarrow> ListSegmentsRequest \<Rightarrow> MemoryCatalog \<Rightarrow> SegmentPage res" where
  "ListSegments ctx req c =
     (case ctx of Some err \<Rightarrow> Inl err
      | None \<Rightarrow> (case mc_partitions c (ls_Partition req) of
          None \<Rightarrow> Inr empty_SegmentPage
        | Some data \<Rightarrow>
          let limit = normalizedLimit req; segments = mp_segments data;
              start = firstSegmentAtOrAfter segments (ls_FromLSN req)
          in if start = length segments then Inr empty_SegmentPage
          else let stop = (if start + limit > length segments then length segments
                           else start + limit);
                   more = (stop < length segments)
          in Inr \<lparr>pg_Segments = subslice start stop segments,
                  pg_NextLSN = (if more then sr_BaseLSN (segments ! stop) else 0),
                  pg_HasMore = more\<rparr>))"


section \<open>Writer sessions\<close>

definition Session_AppendSegment ::
  "ctx \<Rightarrow> SegmentRef \<Rightarrow> memoryWriterSession \<Rightarrow> MemoryCatalog
     \<Rightarrow> PartitionHead res \<times> memoryWriterSession \<times> MemoryCatalog" where
  "Session_AppendSegment ctx segment s c =
     (let (expectedNextLSN, knownRetry) =
            (case PartitionHead_Last (ms_state s) of
               Some prev \<Rightarrow>
                 if segment = prev then (sr_BaseLSN segment, True)
                 else if sr_BaseLSN segment = sr_BaseLSN prev then (sr_BaseLSN segment, False)
                 else (pt_NextLSN (ms_state s), False)
             | None \<Rightarrow> (pt_NextLSN (ms_state s), False));
          (r, c') = appendSegment ctx (ms_partition s) (ms_writerID s) (ms_writerEpoch s)
                      expectedNextLSN segment knownRetry c
      in case r of
           Inl err \<Rightarrow> (Inl err, s, c')
         | Inr (state, headVersion) \<Rightarrow>
             let state = (if knownRetry then ms_state s else state)
             in (Inr state, s\<lparr>ms_state := state, ms_headVersion := headVersion\<rparr>, c'))"

definition Session_ApplyPendingRetention ::
  "ctx \<Rightarrow> memoryWriterSession \<Rightarrow> MemoryCatalog
     \<Rightarrow> RetentionApplyResult res \<times> memoryWriterSession \<times> MemoryCatalog" where
  "Session_ApplyPendingRetention ctx s c =
     (let (r, c') = applyPendingRetention ctx (ms_partition s) (ms_writerID s) (ms_writerEpoch s) c
      in case r of
           Inl err \<Rightarrow> (Inl err, s, c')
         | Inr (result, headVersion) \<Rightarrow>
             (Inr result, s\<lparr>ms_state := ra_Head result, ms_headVersion := headVersion\<rparr>, c'))"

end
