(* ===== verification/Catalog_Spec.thy ===== *)
theory Catalog_Spec
  imports Partition_Meta
begin

text \<open>
  What a catalog promises its readers (the \<^verbatim>\<open>Reader\<close> interface of
  \<^verbatim>\<open>internal/catalog/types.go\<close>), stated over the list of retained segments: lookups by log
  sequence number and by time, and pages. The locale is the interface; the lemmas a reader of the
  log relies on are proved once in it and hold of every catalog that interprets it.
\<close>


section \<open>The list a catalog stands for\<close>

definition find_in :: "SegmentRef list \<Rightarrow> nat \<Rightarrow> SegmentRef option" where
  "find_in segs l = List.find (\<lambda>s. seg_lo s \<le> l \<and> l < seg_hi s) segs"

definition find_ts_in :: "SegmentRef list \<Rightarrow> int \<Rightarrow> SegmentRef option" where
  "find_ts_in segs t = List.find (\<lambda>s. t \<le> sint (sr_MaxTimestampMS s)) segs"

definition page_of :: "SegmentRef list \<Rightarrow> nat \<Rightarrow> nat \<Rightarrow> SegmentPage" where
  "page_of segs pos limit =
     (let rest = filter (\<lambda>s. pos < seg_hi s) segs
      in \<lparr>pg_Segments = take limit rest,
          pg_NextLSN = (if limit < length rest then sr_BaseLSN (rest ! limit) else 0),
          pg_HasMore = (limit < length rest)\<rparr>)"

text \<open>A reader that follows pages until one has no more, giving up after \<open>fuel\<close> requests.\<close>

fun follow_pages :: "(u64 \<Rightarrow> SegmentPage res) \<Rightarrow> nat \<Rightarrow> u64 \<Rightarrow> SegmentRef list res option" where
  "follow_pages list_from 0 pos = None"
| "follow_pages list_from (Suc fuel) pos =
     (case list_from pos of
        Inl e \<Rightarrow> Some (Inl e)
      | Inr page \<Rightarrow>
          if \<not> pg_HasMore page then Some (Inr (pg_Segments page))
          else map_option (\<lambda>res. bindE res (\<lambda>rest. Inr (pg_Segments page @ rest)))
                 (follow_pages list_from fuel (pg_NextLSN page)))"

lemma find_in_Some:
  assumes "tiles seg_lo seg_hi a segs b" "list_all seg_ok segs"
  shows "find_in segs l = Some s \<longleftrightarrow> s \<in> set segs \<and> seg_lo s \<le> l \<and> l < seg_hi s"
  unfolding find_in_def by (rule seg.find_iff[OF assms])

lemma find_in_None:
  assumes "tiles seg_lo seg_hi a segs b" "list_all seg_ok segs"
  shows "find_in segs l = None \<longleftrightarrow> l < a \<or> b \<le> l"
  unfolding find_in_def by (rule seg.find_outside[OF assms])


section \<open>The interface\<close>

locale catalog_reads =
  fixes segs_of :: "'c \<Rightarrow> SegmentRef list"
    and oldest_of next_of :: "'c \<Rightarrow> u64"
    and find_seg :: "'c \<Rightarrow> u64 \<Rightarrow> SegmentRef option res"
    and list_segs :: "'c \<Rightarrow> ListSegmentsRequest \<Rightarrow> SegmentPage res"
    and part_of :: "'c \<Rightarrow> u32"
    and ok :: "'c \<Rightarrow> bool"
  assumes valid: "ok c \<Longrightarrow> list_all seg_ok (segs_of c)"
    and tiled: "ok c \<Longrightarrow> seg_tiles (oldest_of c) (segs_of c) (next_of c)"
    and find_seg: "ok c \<Longrightarrow> find_seg c l = Inr (find_in (segs_of c) (unat l))"
    and list_segs: "ok c \<Longrightarrow> ls_Partition req = part_of c \<Longrightarrow>
      list_segs c req = Inr (page_of (segs_of c) (unat (ls_FromLSN req)) (normalizedLimit req))"
begin

lemma find_retained:
  assumes "ok c" "oldest_of c \<le> l" "l < next_of c"
  shows "\<exists>s. find_seg c l = Inr (Some s) \<and> s \<in> set (segs_of c) \<and> sr_BaseLSN s \<le> l \<and> l \<le> sr_LastLSN s"
proof -
  note T = tiled[OF assms(1)] valid[OF assms(1)]
  have "find_in (segs_of c) (unat l) \<noteq> None"
    using find_in_None[OF T] assms(2,3) by (auto simp: word_le_nat_alt word_less_nat_alt)
  then obtain s where s: "find_in (segs_of c) (unat l) = Some s" by auto
  then have "s \<in> set (segs_of c)" "seg_lo s \<le> unat l" "unat l < seg_hi s"
    using find_in_Some[OF T] by auto
  with s show ?thesis using find_seg[OF assms(1)]
    by (auto simp: seg_lo_def seg_hi_def word_le_nat_alt less_Suc_eq_le)
qed

lemma find_outside:
  assumes "ok c" "l < oldest_of c \<or> next_of c \<le> l"
  shows "find_seg c l = Inr None"
  using find_seg[OF assms(1)] find_in_None[OF tiled[OF assms(1)] valid[OF assms(1)]] assms(2)
  by (auto simp: word_le_nat_alt word_less_nat_alt)

text \<open>
  Following pages from any position returns every segment from there on, each once and in order,
  in at most as many requests as there are such segments, and one more.
\<close>

lemma follow_all:
  assumes "ok c" "length (filter (\<lambda>s. unat pos < seg_hi s) (segs_of c)) < fuel"
  shows "follow_pages (\<lambda>l. list_segs c \<lparr>ls_Partition = part_of c, ls_FromLSN = l, ls_Limit = limit\<rparr>) fuel pos
    = Some (Inr (filter (\<lambda>s. unat pos < seg_hi s) (segs_of c)))"
  using assms(2)
proof (induction fuel arbitrary: pos)
  case (Suc fuel)
  let ?L = "\<lambda>l. list_segs c \<lparr>ls_Partition = part_of c, ls_FromLSN = l, ls_Limit = limit\<rparr>"
  let ?n = "normalizedLimit \<lparr>ls_Partition = part_of c, ls_FromLSN = pos, ls_Limit = limit\<rparr>"
  let ?rest = "filter (\<lambda>s. unat pos < seg_hi s) (segs_of c)"
  have page: "?L pos = Inr (page_of (segs_of c) (unat pos) ?n)"
    using list_segs[OF assms(1)] by simp
  show ?case
  proof (cases "?n < length ?rest")
    case False
    then show ?thesis by (simp add: page page_of_def Let_def)
  next
    case True
    let ?next = "sr_BaseLSN (?rest ! ?n)"
    have "filter (\<lambda>s. unat ?next < seg_hi s) (segs_of c) = drop ?n ?rest"
      using seg.filter_beyond[OF tiled[OF assms(1)] valid[OF assms(1)] True] by (simp add: seg_lo_def)
    moreover have "0 < ?n" using normalizedLimit_pos by blast
    ultimately have "follow_pages ?L fuel ?next = Some (Inr (drop ?n ?rest))"
      using Suc.IH[of ?next] Suc.prems True by simp
    then show ?thesis using True by (simp add: page page_of_def Let_def)
  qed
qed simp

end

end
