(* ===== verification/Memory_Catalog_Inv.thy ===== *)
theory Memory_Catalog_Inv
  imports Memory_Catalog Catalog_Spec
begin

text \<open>
  What the in-process catalog keeps true, whoever calls it and in whatever order: the segments of
  a partition tile its retained range, are ordered in time, unique, and agree with the head. The
  lookups, paging, fencing and retention of the catalog are derived from that invariant.
\<close>


section \<open>Invariant\<close>

definition part_inv :: "string \<Rightarrow> u32 \<Rightarrow> memoryPartition \<Rightarrow> bool" where
  "part_inv stream part data \<longleftrightarrow>
     (let st = mp_state data; segs = mp_segments data
      in pt_StreamID st = stream \<and> pt_Partition st = part
       \<and> list_all (\<lambda>s. seg_ok s \<and> sr_StreamID s = stream \<and> sr_Partition s = part) segs
       \<and> seg_tiles (pt_OldestLSN st) segs (pt_NextLSN st)
       \<and> ts_ordered segs
       \<and> distinct (map sr_SegmentUUID segs) \<and> distinct (map sr_URI segs)
       \<and> pt_ReachableSegmentCount st = of_nat (length segs)
       \<and> (segs \<noteq> [] \<longrightarrow> pt_HasLastSegment st \<and> pt_LastSegment st = last segs)
       \<and> (pt_HasLastSegment st \<longrightarrow>
            seg_ok (pt_LastSegment st) \<and> SegmentRef_NextLSN (pt_LastSegment st) = pt_NextLSN st)
       \<and> pt_AppliedRetentionLSN st \<le> pt_NextLSN st)"

definition cat_inv :: "MemoryCatalog \<Rightarrow> bool" where
  "cat_inv c \<longleftrightarrow> (\<forall>part data. mc_partitions c part = Some data \<longrightarrow> part_inv (mc_streamID c) part data)"

lemma part_invD:
  assumes "part_inv stream part data"
  shows "list_all seg_ok (mp_segments data)"
    "list_all (\<lambda>s. sr_StreamID s = stream \<and> sr_Partition s = part) (mp_segments data)"
    "seg_tiles (pt_OldestLSN (mp_state data)) (mp_segments data) (pt_NextLSN (mp_state data))"
    "ts_ordered (mp_segments data)"
    "pt_ReachableSegmentCount (mp_state data) = of_nat (length (mp_segments data))"
    "mp_segments data \<noteq> [] \<Longrightarrow> pt_HasLastSegment (mp_state data)"
    "mp_segments data \<noteq> [] \<Longrightarrow> pt_LastSegment (mp_state data) = last (mp_segments data)"
    "pt_AppliedRetentionLSN (mp_state data) \<le> pt_NextLSN (mp_state data)"
  using assms by (auto simp: part_inv_def Let_def list_all_iff)

lemma part_inv_new: "part_inv stream part (new_memoryPartition stream part)"
  by (simp add: part_inv_def new_memoryPartition_def zero_PartitionHead_def ts_ordered_def)

lemma cat_inv_get:
  assumes "cat_inv c" "getOrCreateLocked c part = (data, c')"
  shows "part_inv (mc_streamID c) part data" "cat_inv c'" "mc_partitions c' part = Some data"
    "mc_streamID c' = mc_streamID c" "mc_retention c' = mc_retention c"
  using assms part_inv_new
  by (auto simp: getOrCreateLocked_def cat_inv_def Let_def split: option.splits if_splits)

lemma cat_inv_set:
  "cat_inv c \<Longrightarrow> part_inv (mc_streamID c) part data \<Longrightarrow> cat_inv (set_partition part data c)"
  by (auto simp: cat_inv_def)


section \<open>Searches\<close>

lemma firstSegmentAtOrAfter_hi:
  "firstSegmentAtOrAfter segs lsn = search_list (\<lambda>s. unat lsn < seg_hi s) segs"
  by (simp add: firstSegmentAtOrAfter_def LastLSN_ge_iff)

lemma drop_firstSegment:
  assumes "tiles seg_lo seg_hi a segs b" "list_all seg_ok segs"
  shows "drop (firstSegmentAtOrAfter segs lsn) segs = filter (\<lambda>s. unat lsn < seg_hi s) segs"
  unfolding firstSegmentAtOrAfter_hi
  by (simp only: drop_search_list[OF seg.tiles_mono[OF assms]] seg.tiles_filter[OF assms])

lemma firstSegment_le: "firstSegmentAtOrAfter segs lsn \<le> length segs"
  by (simp add: firstSegmentAtOrAfter_def search_list_le)

lemma ensureUniqueSegment_Inr:
  "ensureUniqueSegment segs s = Inr u \<longleftrightarrow>
     sr_SegmentUUID s \<notin> sr_SegmentUUID ` set segs \<and> sr_URI s \<notin> sr_URI ` set segs"
  by (induction segs) auto


section \<open>Retention\<close>

lemma retain_from_spec:
  assumes inv: "part_inv stream part data" and target: "target \<le> pt_NextLSN (mp_state data)"
    and r: "retain_from target (mp_state data) (mp_segments data) = (oldest, segs)"
  shows "segs = filter (\<lambda>s. unat target < seg_hi s) (mp_segments data)"
    and "seg_tiles oldest segs (pt_NextLSN (mp_state data))"
    and "pt_OldestLSN (mp_state data) \<le> oldest"
    and "oldest \<le> max (pt_OldestLSN (mp_state data)) target"
proof -
  let ?st = "mp_state data" and ?segs = "mp_segments data"
  let ?i = "firstSegmentAtOrAfter ?segs target"
  note I = part_invD[OF inv]
  show keep: "segs = filter (\<lambda>s. unat target < seg_hi s) ?segs"
  proof (cases "target > pt_OldestLSN ?st \<and> ?segs \<noteq> []")
    case True
    then show ?thesis using r drop_firstSegment[OF I(3,1), of target]
      by (auto simp: retain_from_def Let_def split: if_splits)
  next
    case False
    have "unat target < seg_hi s" if "s \<in> set ?segs" for s
    proof -
      have "pt_OldestLSN ?st \<ge> target" using False that by auto
      then show ?thesis using seg.tiles_bounds[OF I(3,1) that] by (auto simp: word_le_nat_alt)
    qed
    then have "filter (\<lambda>s. unat target < seg_hi s) ?segs = ?segs" by (simp add: filter_id_conv)
    moreover have "segs = ?segs" using r False by (auto simp: retain_from_def)
    ultimately show ?thesis by simp
  qed
  have "(if target > pt_OldestLSN ?st \<and> ?segs \<noteq> [] then
           if ?i = length ?segs then oldest = pt_NextLSN ?st else oldest = sr_BaseLSN (?segs ! ?i)
         else oldest = pt_OldestLSN ?st)"
    using r by (auto simp: retain_from_def Let_def split: if_splits)
  then consider (keep) "oldest = pt_OldestLSN ?st" "segs = ?segs"
    | (all) "target > pt_OldestLSN ?st" "?i = length ?segs" "oldest = pt_NextLSN ?st" "segs = []"
    | (cut) "target > pt_OldestLSN ?st" "?i < length ?segs" "oldest = sr_BaseLSN (?segs ! ?i)"
        "segs = drop ?i ?segs"
    using r firstSegment_le[of ?segs target]
    by (fastforce simp: retain_from_def Let_def split: if_splits)
  then have "seg_tiles oldest segs (pt_NextLSN ?st) \<and> pt_OldestLSN ?st \<le> oldest
      \<and> oldest \<le> max (pt_OldestLSN ?st) target"
  proof cases
    case keep
    then show ?thesis using I(3) by simp
  next
    case all
    have "\<not> unat target < unat (pt_NextLSN ?st)"
      using all(1,2) seg.search_hit(1)[OF I(3,1), of "unat target"]
      by (auto simp: firstSegmentAtOrAfter_hi word_less_nat_alt)
    then show ?thesis using all target seg.tiles_le[OF I(3,1)]
      by (auto simp: word_le_nat_alt max_def)
  next
    case cut
    have "seg_tiles (pt_OldestLSN ?st) (take ?i ?segs @ drop ?i ?segs) (pt_NextLSN ?st)" using I(3) by simp
    then have "tiles seg_lo seg_hi (seg_lo (?segs ! ?i)) (drop ?i ?segs) (unat (pt_NextLSN ?st))"
      unfolding tiles_append using cut(2) by (auto simp: Cons_nth_drop_Suc[symmetric])
    moreover have "seg_lo (?segs ! ?i) \<le> unat target"
    proof (cases "unat target < unat (pt_NextLSN ?st)")
      case True
      then show ?thesis using seg.search_hit(2)[OF I(3,1), of "unat target"] cut(1)
        by (simp add: firstSegmentAtOrAfter_hi word_less_nat_alt)
    next
      case False
      then show ?thesis using seg.search_beyond[OF I(3,1), of "unat target"] cut(2)
        by (simp add: firstSegmentAtOrAfter_hi)
    qed
    moreover have "unat (pt_OldestLSN ?st) \<le> seg_lo (?segs ! ?i)"
      using seg.tiles_bounds[OF I(3,1) nth_mem[OF cut(2)]] by simp
    ultimately show ?thesis using cut(1,3,4) by (auto simp: seg_lo_def word_le_nat_alt max_def)
  qed
  then show "seg_tiles oldest segs (pt_NextLSN ?st)" "pt_OldestLSN ?st \<le> oldest"
    "oldest \<le> max (pt_OldestLSN ?st) target" by auto
qed


section \<open>Every operation keeps the invariant\<close>

lemma InitializePartition_inv:
  "cat_inv c \<Longrightarrow> cat_inv (snd (InitializePartition ctx part lsn c))"
  by (auto simp: InitializePartition_def Let_def cat_inv_def part_inv_def zero_PartitionHead_def
      ts_ordered_def split: option.splits)

lemma part_inv_writer:
  "part_inv stream part data \<Longrightarrow>
     part_inv stream part (data\<lparr>mp_state := (mp_state data)\<lparr>pt_StreamID := stream, pt_WriterEpoch := e\<rparr>,
       mp_writerID := w, mp_headVersion := v\<rparr>)"
  by (simp add: part_inv_def Let_def)

lemma acquireWriter_inv: "cat_inv c \<Longrightarrow> cat_inv (snd (acquireWriter ctx part writerID c))"
proof -
  assume inv: "cat_inv c"
  obtain data c' where g: "getOrCreateLocked c part = (data, c')" by fastforce
  note G = cat_inv_get[OF inv g]
  show ?thesis
    using inv cat_inv_set[OF G(2), of part] part_inv_writer[OF G(1)] G(4)
    by (auto simp: acquireWriter_def Let_def g split: option.splits sum.splits)
qed

lemma RequestRetention_inv: "cat_inv c \<Longrightarrow> cat_inv (snd (RequestRetention ctx part request c))"
  by (auto simp: RequestRetention_def Let_def cat_inv_def split: option.splits sum.splits)

lemma filter_last:
  "filter P xs \<noteq> [] \<Longrightarrow> (\<And>x. x \<in> set xs \<Longrightarrow> P x \<Longrightarrow> P (last xs)) \<Longrightarrow> last (filter P xs) = last xs"
proof (induction xs rule: rev_induct)
  case (snoc x xs)
  then show ?case by (cases "P x") (fastforce simp: filter_empty_conv)+
qed simp

lemma part_inv_retain:
  assumes inv: "part_inv stream part data" and target: "target \<le> pt_NextLSN (mp_state data)"
    and r: "retain_from target (mp_state data) (mp_segments data) = (oldest, segs)"
  shows "part_inv stream part (data\<lparr>mp_state := (mp_state data)\<lparr>pt_OldestLSN := oldest,
      pt_AppliedRetentionLSN := target, pt_AppliedRetentionVersion := ver,
      pt_ReachableSegmentCount := of_nat (length segs)\<rparr>, mp_headVersion := v, mp_segments := segs\<rparr>)"
proof -
  let ?all = "mp_segments data"
  note I = part_invD[OF inv] and R = retain_from_spec[OF inv target r]
  have last: "last segs = last ?all" if "segs \<noteq> []"
  proof -
    have "unat target < seg_hi (last ?all)" if "x \<in> set ?all" "unat target < seg_hi x" for x
    proof -
      have "?all \<noteq> []" using that by auto
      then have "seg_hi (last ?all) = unat (pt_NextLSN (mp_state data))" using tiles_last[OF I(3)] by simp
      then show ?thesis using seg.tiles_bounds[OF I(3,1) that(1)] that(2) by simp
    qed
    then show ?thesis using that unfolding R(1) by (intro filter_last) auto
  qed
  have ne: "?all \<noteq> []" if "segs \<noteq> []" using that R(1) by auto
  have "ts_ordered segs" using I(4) unfolding R(1) ts_ordered_def by (rule sorted_wrt_filter)
  moreover have "distinct (map sr_SegmentUUID segs)" "distinct (map sr_URI segs)"
    using inv unfolding R(1) by (auto simp: part_inv_def Let_def distinct_map_filter)
  ultimately show ?thesis
    using inv R(1,2) last ne target by (auto simp: part_inv_def Let_def list_all_iff)
qed

lemma applyPendingRetention_inv:
  "cat_inv c \<Longrightarrow> cat_inv (snd (applyPendingRetention ctx part writerID epoch c))"
proof -
  assume inv: "cat_inv c"
  obtain data c' where g: "getOrCreateLocked c part = (data, c')" by fastforce
  note G = cat_inv_get[OF inv g]
  have retain: "part_inv (mc_streamID c') part (data\<lparr>mp_state := (mp_state data)\<lparr>pt_OldestLSN := oldest,
      pt_AppliedRetentionLSN := target, pt_AppliedRetentionVersion := ver,
      pt_ReachableSegmentCount := of_nat (length segs)\<rparr>, mp_headVersion := v, mp_segments := segs\<rparr>)"
    if "target \<le> pt_NextLSN (mp_state data)"
      "retain_from target (mp_state data) (mp_segments data) = (oldest, segs)" for target oldest segs ver v
    using part_inv_retain[OF G(1) that] G(4) by simp
  show ?thesis
    using inv G(2) by (auto simp: applyPendingRetention_def Let_def g not_less
        split: option.splits prod.splits intro!: cat_inv_set retain)
qed

text \<open>The partition after a successful append of \<open>s\<close>.\<close>

definition with_segment :: "SegmentRef \<Rightarrow> memoryPartition \<Rightarrow> memoryPartition" where
  "with_segment s data =
     data\<lparr>mp_state := (mp_state data)\<lparr>pt_NextLSN := SegmentRef_NextLSN s,
       pt_OldestLSN := (if \<not> pt_HasLastSegment (mp_state data) then sr_BaseLSN s
                        else pt_OldestLSN (mp_state data)),
       pt_LastSegment := s, pt_HasLastSegment := True,
       pt_SegmentCount := pt_SegmentCount (mp_state data) + 1,
       pt_ReachableSegmentCount := pt_ReachableSegmentCount (mp_state data) + 1\<rparr>,
       mp_headVersion := mp_headVersion data + 1, mp_segments := mp_segments data @ [s]\<rparr>"

lemma part_inv_append:
  assumes inv: "part_inv stream part data" and ok: "seg_ok s" "sr_StreamID s = stream" "sr_Partition s = part"
    and base: "sr_BaseLSN s = pt_NextLSN (mp_state data)"
    and ts: "\<And>p. PartitionHead_Last (mp_state data) = Some p \<Longrightarrow>
               sint (sr_MaxTimestampMS p) \<le> sint (sr_MinTimestampMS s)"
    and uniq: "ensureUniqueSegment (mp_segments data) s = Inr ()"
  shows "part_inv stream part (with_segment s data)"
proof -
  let ?st = "mp_state data" and ?segs = "mp_segments data"
  note I = part_invD[OF inv]
  have old: "(if \<not> pt_HasLastSegment ?st then sr_BaseLSN s else pt_OldestLSN ?st) = pt_OldestLSN ?st"
  proof (cases "pt_HasLastSegment ?st")
    case False
    then have "?segs = []" using I(6) by auto
    then show ?thesis using I(3) base False by (simp add: word_unat_eq_iff)
  qed simp
  have tile: "seg_tiles (pt_OldestLSN ?st) (?segs @ [s]) (SegmentRef_NextLSN s)"
    using I(3) base unat_NextLSN[OF ok(1)] by (simp add: tiles_snoc seg_lo_def)
  have "ts_ordered (?segs @ [s])"
    using ts I(6,7) by (intro ts_ordered_snoc[OF I(4,1)]) (simp add: PartitionHead_Last_def)
  moreover have "pt_AppliedRetentionLSN ?st \<le> SegmentRef_NextLSN s"
    using I(8) base seg_okD(1,2)[OF ok(1)] lsn_less_succ[of "sr_LastLSN s"]
    by (simp add: SegmentRef_NextLSN_def)
  ultimately show ?thesis
    using inv ok tile uniq unfolding with_segment_def old
    by (auto simp: part_inv_def Let_def list_all_iff ensureUniqueSegment_Inr)
qed

lemma ValidateAppendSegment_Inr:
  "ValidateAppendSegment stream part expected epoch s = Inr u \<longleftrightarrow>
     stream = sr_StreamID s \<and> part = sr_Partition s \<and> epoch = sr_WriterEpoch s
     \<and> expected = sr_BaseLSN s \<and> seg_ok s"
  by (cases "SegmentRef_Validate s") (auto simp: ValidateAppendSegment_def)

text \<open>The three ways an append can end.\<close>

lemma appendSegment_cases:
  assumes "appendSegment ctx part writerID epoch expected s known c = (r, c')"
  obtains (fail) e where "r = Inl e" "c' = c \<or> c' = snd (getOrCreateLocked c part)"
  | (retry) data where "getOrCreateLocked c part = (data, c')"
      "idempotentRetry data expected s = Some (mp_state data)"
      "r = Inr (mp_state data, mp_headVersion data)"
  | (commit) data c1 where "getOrCreateLocked c part = (data, c1)"
      "ValidateAppendSegment (mc_streamID c) part expected epoch s = Inr ()"
      "sr_WriterTag s = writerID" "writerID = mp_writerID data"
      "epoch = pt_WriterEpoch (mp_state data)" "epoch \<noteq> 0"
      "sr_BaseLSN s = pt_NextLSN (mp_state data)"
      "\<And>p. PartitionHead_Last (mp_state data) = Some p \<Longrightarrow>
         sint (sr_MaxTimestampMS p) \<le> sint (sr_MinTimestampMS s)"
      "ensureUniqueSegment (mp_segments data) s = Inr ()"
      "c' = set_partition part (with_segment s data) c1"
      "r = Inr (mp_state (with_segment s data), mp_headVersion data + 1)"
proof -
  obtain data c1 where g: "getOrCreateLocked c part = (data, c1)" by fastforce
  note defs = appendSegment_def Let_def g not_less
  have retry_head: "h = mp_state data" if "idempotentRetry data expected s = Some h" for h
    using that by (auto simp: idempotentRetry_def Let_def split: if_splits)
  show thesis
  proof (cases "ctx = None \<and> ValidateAppendSegment (mc_streamID c) part expected epoch s = Inr ()
      \<and> sr_WriterTag s = writerID")
    case False
    then show ?thesis using assms fail
      by (auto simp: defs split: option.splits sum.splits if_splits)
  next
    case True
    show ?thesis
    proof (cases "idempotentRetry data expected s")
      case (Some h)
      then show ?thesis using assms True retry[of data] retry_head g by (auto simp: defs)
    next
      case None
      have eq: "(r, c') = appendSegment ctx part writerID epoch expected s known c" using assms by simp
      have W: "(Inr (mp_state (with_segment s data), mp_headVersion data + 1) :: _ res,
          set_partition part (with_segment s data) c1) = (r, c')"
        if "\<not> (known \<and> sr_BaseLSN s < pt_OldestLSN (mp_state data))" "pt_WriterEpoch (mp_state data) \<noteq> 0"
          "epoch = pt_WriterEpoch (mp_state data)" "writerID = mp_writerID data"
          "expected = pt_NextLSN (mp_state data)" "sr_BaseLSN s = pt_NextLSN (mp_state data)"
          "\<not> (case PartitionHead_Last (mp_state data) of None \<Rightarrow> False
             | Some p \<Rightarrow> sint (sr_MinTimestampMS s) < sint (sr_MaxTimestampMS p))"
          "ensureUniqueSegment (mp_segments data) s = Inr ()"
        unfolding eq using that True None by (simp add: appendSegment_def Let_def g with_segment_def)
      have F: "\<exists>e. r = Inl e \<and> c' = c1"
        if "known \<and> sr_BaseLSN s < pt_OldestLSN (mp_state data) \<or> pt_WriterEpoch (mp_state data) = 0
          \<or> epoch \<noteq> pt_WriterEpoch (mp_state data) \<or> writerID \<noteq> mp_writerID data
          \<or> expected \<noteq> pt_NextLSN (mp_state data) \<or> sr_BaseLSN s \<noteq> pt_NextLSN (mp_state data)
          \<or> (case PartitionHead_Last (mp_state data) of None \<Rightarrow> False
              | Some p \<Rightarrow> sint (sr_MinTimestampMS s) < sint (sr_MaxTimestampMS p))
          \<or> ensureUniqueSegment (mp_segments data) s \<noteq> Inr ()"
        using eq that True None
        by (cases "ensureUniqueSegment (mp_segments data) s")
          (auto simp: appendSegment_def Let_def g split: if_splits)
      show ?thesis
      proof (cases "\<exists>e. r = Inl e \<and> c' = c1")
        case True
        then show ?thesis using fail g by auto
      next
        case False
        then show ?thesis using F W True by (intro commit[OF g]) (fastforce simp: not_less split: option.splits)+
      qed
    qed
  qed
qed

lemma appendSegment_inv:
  "cat_inv c \<Longrightarrow> cat_inv (snd (appendSegment ctx part writerID epoch expected s known c))"
proof -
  assume inv: "cat_inv c"
  obtain r c' where a: "appendSegment ctx part writerID epoch expected s known c = (r, c')" by fastforce
  from a have "cat_inv c'"
  proof (cases rule: appendSegment_cases)
    case (fail e)
    then show ?thesis using inv cat_inv_get(2)[OF inv, of part] by (cases "getOrCreateLocked c part") auto
  next
    case (retry data)
    then show ?thesis using cat_inv_get(2)[OF inv] by blast
  next
    case (commit data c1)
    note G = cat_inv_get[OF inv commit(1)]
    show ?thesis
      unfolding commit(10) using commit(2,7-9) G
      by (intro cat_inv_set part_inv_append) (auto simp: ValidateAppendSegment_Inr)
  qed
  with a show ?thesis by simp
qed


section \<open>Reachable catalogs\<close>

text \<open>
  A step is one call by any client, with any context and any arguments: sessions that are stale,
  forged or retried included.
\<close>

inductive mem_step :: "MemoryCatalog \<Rightarrow> MemoryCatalog \<Rightarrow> bool" where
  initialize: "mem_step c (snd (InitializePartition ctx part lsn c))"
| open_writer: "mem_step c (snd (OpenWriter ctx part writerID c))"
| request: "mem_step c (snd (RequestRetention ctx part req c))"
| retain: "mem_step c (snd (applyPendingRetention ctx part writerID epoch c))"
| append: "mem_step c (snd (appendSegment ctx part writerID epoch expected s known c))"

inductive mem_reach :: "MemoryCatalog \<Rightarrow> bool" where
  start: "mem_reach (NewMemoryCatalog addr)"
| step: "mem_reach c \<Longrightarrow> mem_step c c' \<Longrightarrow> mem_reach c'"

inductive_cases mem_stepE: "mem_step c c'"

lemma OpenWriter_acquire: "snd (OpenWriter ctx part writerID c) = snd (acquireWriter ctx part writerID c)"
  by (simp add: OpenWriter_def Let_def split: prod.splits)

lemma mem_step_inv: "mem_step c c' \<Longrightarrow> cat_inv c \<Longrightarrow> cat_inv c'"
  by (induction rule: mem_step.induct)
    (auto simp: OpenWriter_acquire intro: InitializePartition_inv acquireWriter_inv RequestRetention_inv
      applyPendingRetention_inv appendSegment_inv)

lemma mem_reach_inv: "mem_reach c \<Longrightarrow> cat_inv c"
proof (induction rule: mem_reach.induct)
  case (start addr)
  show ?case by (simp add: NewMemoryCatalog_def cat_inv_def)
next
  case (step c c')
  then show ?case by (blast intro: mem_step_inv)
qed


section \<open>The catalog interface\<close>

text \<open>A partition of a catalog as a reader sees it: absent partitions are empty.\<close>

definition view :: "MemoryCatalog \<times> u32 \<Rightarrow> memoryPartition" where
  "view = (\<lambda>(c, part). case mc_partitions c part of
     Some data \<Rightarrow> data | None \<Rightarrow> new_memoryPartition (mc_streamID c) part)"

lemma view_inv: "cat_inv c \<Longrightarrow> part_inv (mc_streamID c) part (view (c, part))"
  by (auto simp: view_def cat_inv_def part_inv_new split: option.splits)

lemma FindSegment_view:
  assumes "cat_inv c"
  shows "FindSegment None part l c = Inr (find_in (mp_segments (view (c, part))) (unat l))"
proof (cases "mc_partitions c part")
  case None
  then show ?thesis by (simp add: FindSegment_def view_def new_memoryPartition_def find_in_def)
next
  case (Some data)
  let ?segs = "mp_segments data" and ?i = "firstSegmentAtOrAfter (mp_segments data) l"
  have "part_inv (mc_streamID c) part data" using assms Some by (simp add: cat_inv_def)
  note T = part_invD(3,1)[OF this]
  have v: "view (c, part) = data" using Some by (simp add: view_def)
  show ?thesis
  proof (cases "?i < length ?segs \<and> seg_lo (?segs ! ?i) \<le> unat l")
    case True
    have "unat l < seg_hi (?segs ! ?i)" using search_list_hit True by (auto simp: firstSegmentAtOrAfter_hi)
    then have "find_in ?segs (unat l) = Some (?segs ! ?i)" using find_in_Some[OF T] True by auto
    moreover have "\<not> l < sr_BaseLSN (?segs ! ?i)" "\<not> sr_LastLSN (?segs ! ?i) < l"
      using True \<open>unat l < seg_hi (?segs ! ?i)\<close>
      by (auto simp: seg_lo_def seg_hi_def word_less_nat_alt)
    ultimately show ?thesis using True Some v by (simp add: FindSegment_def)
  next
    case False
    have "find_in ?segs (unat l) = None"
    proof (rule ccontr)
      assume "find_in ?segs (unat l) \<noteq> None"
      then have "unat (pt_OldestLSN (mp_state data)) \<le> unat l" "unat l < unat (pt_NextLSN (mp_state data))"
        using find_in_None[OF T] by auto
      then show False using seg.search_hit(1,2)[OF T] False by (auto simp: firstSegmentAtOrAfter_hi)
    qed
    then show ?thesis using False Some v firstSegment_le[of ?segs l]
      by (auto simp: FindSegment_def Let_def seg_lo_def word_less_nat_alt)
  qed
qed

lemma ListSegments_view:
  assumes "cat_inv c" "ls_Partition req = part"
  shows "ListSegments None req c
    = Inr (page_of (mp_segments (view (c, part))) (unat (ls_FromLSN req)) (normalizedLimit req))"
proof (cases "mc_partitions c part")
  case None
  then show ?thesis using assms(2)
    by (simp add: ListSegments_def view_def new_memoryPartition_def page_of_def empty_SegmentPage_def)
next
  case (Some data)
  let ?segs = "mp_segments data" and ?i = "firstSegmentAtOrAfter (mp_segments data) (ls_FromLSN req)"
  let ?n = "normalizedLimit req"
  have "part_inv (mc_streamID c) part data" using assms(1) Some by (simp add: cat_inv_def)
  note T = part_invD(3,1)[OF this]
  have rest: "filter (\<lambda>s. unat (ls_FromLSN req) < seg_hi s) ?segs = drop ?i ?segs"
    by (rule drop_firstSegment[OF T, symmetric])
  have v: "view (c, part) = data" using Some by (simp add: view_def)
  show ?thesis
    using Some v assms(2) firstSegment_le[of ?segs "ls_FromLSN req"]
    by (auto simp: ListSegments_def page_of_def rest Let_def empty_SegmentPage_def subslice_def min_def)
qed

lemma LookupTimestamp_view:
  assumes "cat_inv c"
  shows "LookupTimestamp None req c =
    Inr (case find_ts_in (mp_segments (view (c, tq_Partition req))) (sint (tq_TimestampMS req)) of
           None \<Rightarrow> \<lparr>tr_Head = mp_state (view (c, tq_Partition req)), tr_Segment = zero_SegmentRef, tr_Found = False\<rparr>
         | Some s \<Rightarrow> \<lparr>tr_Head = mp_state (view (c, tq_Partition req)), tr_Segment = s, tr_Found = True\<rparr>)"
proof (cases "mc_partitions c (tq_Partition req)")
  case None
  then show ?thesis by (simp add: LookupTimestamp_def view_def new_memoryPartition_def find_ts_in_def)
next
  case (Some data)
  let ?P = "\<lambda>s. sint (tq_TimestampMS req) \<le> sint (sr_MaxTimestampMS s)"
  let ?segs = "mp_segments data"
  have "part_inv (mc_streamID c) (tq_Partition req) data" using assms Some by (simp add: cat_inv_def)
  note I = part_invD(4,1)[OF this]
  have i: "firstSegmentAtOrAfterTimestamp ?segs (tq_TimestampMS req) = length (takeWhile (\<lambda>x. \<not> ?P x) ?segs)"
    unfolding firstSegmentAtOrAfterTimestamp_def by (rule search_list_takeWhile[OF ts_ordered_mono[OF I]])
  have "find_ts_in ?segs (sint (tq_TimestampMS req)) =
      (if length (takeWhile (\<lambda>x. \<not> ?P x) ?segs) = length ?segs then None
       else Some (?segs ! length (takeWhile (\<lambda>x. \<not> ?P x) ?segs)))"
    unfolding find_ts_in_def by (rule find_takeWhile)
  then show ?thesis using Some i by (simp add: LookupTimestamp_def view_def Let_def)
qed

interpretation mem: catalog_reads
  "\<lambda>v. mp_segments (view v)" "\<lambda>v. pt_OldestLSN (mp_state (view v))" "\<lambda>v. pt_NextLSN (mp_state (view v))"
  "\<lambda>(c, part) l. FindSegment None part l c" "\<lambda>(c, part) req. ListSegments None req c" snd
  "\<lambda>(c, part). cat_inv c"
proof unfold_locales
  fix v :: "MemoryCatalog \<times> u32" and l req
  obtain c part where v: "v = (c, part)" by fastforce
  assume ok: "case v of (c, part) \<Rightarrow> cat_inv c"
  note I = view_inv[of c part] part_invD[OF view_inv[of c part]]
  show "list_all seg_ok (mp_segments (view v))"
    "seg_tiles (pt_OldestLSN (mp_state (view v))) (mp_segments (view v)) (pt_NextLSN (mp_state (view v)))"
    "(case v of (c, part) \<Rightarrow> \<lambda>l. FindSegment None part l c) l = Inr (find_in (mp_segments (view v)) (unat l))"
    using ok v I by (auto simp: FindSegment_view)
  show "(case v of (c, part) \<Rightarrow> \<lambda>req. ListSegments None req c) req
      = Inr (page_of (mp_segments (view v)) (unat (ls_FromLSN req)) (normalizedLimit req))"
    if "ls_Partition req = snd v"
    using that ok v by (simp add: ListSegments_view)
qed


section \<open>A concrete run\<close>

definition sample_seg :: "u64 \<Rightarrow> u64 \<Rightarrow> SegmentRef" where
  "sample_seg base lst =
     zero_SegmentRef\<lparr>sr_URI := ''s'' @ decimal (unat base), sr_Partition := 3, sr_WriterEpoch := 1, sr_SegmentUUID := ucast base + 1,
       sr_WriterTag := 7, sr_BaseLSN := base, sr_LastLSN := lst, sr_RecordCount := ucast (lst - base + 1),
       sr_MinTimestampMS := base, sr_MaxTimestampMS := lst, sr_BlockCount := 1, sr_SizeBytes := 500,
       sr_BlockIndexLength := 128\<rparr>"

definition sample_cat0 :: MemoryCatalog where
  "sample_cat0 = snd (OpenWriter None 3 7 (NewMemoryCatalog 0))"

definition sample_cat1 :: MemoryCatalog where
  "sample_cat1 = snd (appendSegment None 3 7 1 0 (sample_seg 0 4) False sample_cat0)"

definition sample_cat2 :: MemoryCatalog where
  "sample_cat2 = snd (appendSegment None 3 7 1 5 (sample_seg 5 9) False sample_cat1)"

lemma sample_reach: "mem_reach sample_cat2" "mem_reach sample_cat1"
proof -
  have "mem_reach sample_cat0"
    unfolding sample_cat0_def by (rule mem_reach.step[OF mem_reach.start mem_step.open_writer])
  then show 1: "mem_reach sample_cat1"
    unfolding sample_cat1_def by (rule mem_reach.step[OF _ mem_step.append])
  then show "mem_reach sample_cat2"
    unfolding sample_cat2_def by (rule mem_reach.step[OF _ mem_step.append])
qed

lemma sample_view:
  "mp_segments (view (sample_cat2, 3)) = [sample_seg 0 4, sample_seg 5 9]"
  "pt_OldestLSN (mp_state (view (sample_cat2, 3))) = 0"
  "pt_NextLSN (mp_state (view (sample_cat2, 3))) = 10"
  by code_simp+


section \<open>Retries\<close>

lemma idempotentRetry_member:
  assumes "part_inv stream part data" "s \<in> set (mp_segments data)"
  shows "idempotentRetry data (sr_BaseLSN s) s = Some (mp_state data)"
proof -
  let ?segs = "mp_segments data" and ?i = "firstSegmentAtOrAfter (mp_segments data) (sr_BaseLSN s)"
  note T = part_invD(3,1)[OF assms(1)]
  obtain j where j: "j < length ?segs" "?segs ! j = s" using assms(2) by (auto simp: in_set_conv_nth)
  note B = seg.tiles_bounds[OF T assms(2)]
  have h: "unat (pt_OldestLSN (mp_state data)) \<le> seg_lo s" "seg_lo s < unat (pt_NextLSN (mp_state data))"
    using B by auto
  have "?i < length ?segs \<and> seg_lo (?segs ! ?i) \<le> seg_lo s \<and> seg_lo s < seg_hi (?segs ! ?i)"
    using seg.search_hit[OF T h] by (simp add: firstSegmentAtOrAfter_hi seg_lo_def)
  then have "?i = j" using seg.unique_index[OF T, of ?i j "seg_lo s"] j B by auto
  then show ?thesis using j by (simp add: idempotentRetry_def)
qed

lemma appendSegment_again:
  assumes inv: "cat_inv c" and a: "appendSegment None part writerID epoch expected s known c = (Inr (h, v), c')"
  shows "appendSegment None part writerID epoch expected s known' c' = (Inr (h, v), c')"
proof -
  have val: "ValidateAppendSegment (mc_streamID c) part expected epoch s = Inr ()"
    and tag: "sr_WriterTag s = writerID"
    using a by (auto simp: appendSegment_def Let_def split: sum.splits prod.splits if_splits)
  have "cat_inv c'" using appendSegment_inv[OF inv, of None part writerID epoch expected s known] a by simp
  obtain data where d: "mc_partitions c' part = Some data" "h = mp_state data" "v = mp_headVersion data"
      "s \<in> set (mp_segments data)" "mc_streamID c' = mc_streamID c"
    using a
  proof (cases rule: appendSegment_cases)
    case (retry data)
    have "s \<in> set (mp_segments data)"
      using retry(2) firstSegment_le[of "mp_segments data" "sr_BaseLSN s"]
      by (auto simp: idempotentRetry_def Let_def le_less in_set_conv_nth split: if_splits)
    then show ?thesis using that retry cat_inv_get[OF inv retry(1)] by auto
  next
    case (commit data c1)
    then show ?thesis using that[of "with_segment s data"] cat_inv_get[OF inv commit(1)]
      by (auto simp: with_segment_def)
  qed auto
  have "part_inv (mc_streamID c') part data" using \<open>cat_inv c'\<close> d(1) by (simp add: cat_inv_def)
  from idempotentRetry_member[OF this d(4)] have "idempotentRetry data expected s = Some (mp_state data)"
    using val by (simp add: ValidateAppendSegment_Inr)
  then show ?thesis
    using val tag d by (simp add: appendSegment_def getOrCreateLocked_def Let_def)
qed

lemma applyPendingRetention_applied:
  assumes inv: "cat_inv c" and a: "applyPendingRetention None part writerID epoch c = (Inr (res, v), c')"
    and applied: "ra_Applied res"
  shows "mp_segments (view (c', part))
      = filter (\<lambda>s. unat (rq_BeforeLSN (ra_Request res)) < seg_hi s) (mp_segments (view (c, part)))
    \<and> pt_OldestLSN (mp_state (view (c, part))) \<le> pt_OldestLSN (mp_state (view (c', part)))
    \<and> pt_NextLSN (mp_state (view (c', part))) = pt_NextLSN (mp_state (view (c, part)))
    \<and> ra_Head res = mp_state (view (c', part))"
proof -
  obtain data c1 where g: "getOrCreateLocked c part = (data, c1)" by fastforce
  note G = cat_inv_get[OF inv g] and I = part_invD[OF cat_inv_get(1)[OF inv g]]
  have v: "view (c, part) = data"
    using g by (auto simp: getOrCreateLocked_def view_def Let_def split: option.splits)
  let ?st = "mp_state data"
  obtain req oldest segs target where req: "ra_Request res = req"
    and target: "target = (if rq_BeforeLSN req > pt_NextLSN ?st then pt_NextLSN ?st else rq_BeforeLSN req)"
    and r: "retain_from target ?st (mp_segments data) = (oldest, segs)"
    and c': "view (c', part) = data\<lparr>mp_state := ?st\<lparr>pt_OldestLSN := oldest, pt_AppliedRetentionLSN := target,
        pt_AppliedRetentionVersion := rq_PolicyVersion req,
        pt_ReachableSegmentCount := of_nat (length segs)\<rparr>,
        mp_headVersion := mp_headVersion data + 1, mp_segments := segs\<rparr>"
    and h: "ra_Head res = mp_state (view (c', part))"
    using a applied
    by (auto simp: applyPendingRetention_def g Let_def view_def split: if_splits option.splits prod.splits)
  have le: "target \<le> pt_NextLSN ?st" unfolding target by auto
  note R = retain_from_spec[OF G(1) le r]
  have "unat target < seg_hi s \<longleftrightarrow> unat (rq_BeforeLSN req) < seg_hi s" if "s \<in> set (mp_segments data)" for s
    using seg.tiles_bounds[OF I(3,1) that] unfolding target by (auto simp: word_less_nat_alt)
  then have "segs = filter (\<lambda>s. unat (rq_BeforeLSN req) < seg_hi s) (mp_segments data)"
    unfolding R(1) by (auto intro: filter_cong)
  then show ?thesis using R(3) h by (simp add: v c' req)
qed


section \<open>Properties\<close>

text \<open>C7: whatever clients do, in every reachable in-process catalog the segments of a partition
  cover every log sequence number from the head's oldest to just before its next exactly once and
  in order, their timestamps never step back, their identifiers are distinct, and the head's count
  and last segment agree with them.\<close>

theorem memory_catalog_invariant:
  assumes "mem_reach c" "mc_partitions c part = Some data"
  shows "concat (map (\<lambda>s. [seg_lo s..<seg_hi s]) (mp_segments data))
          = [unat (pt_OldestLSN (mp_state data))..<unat (pt_NextLSN (mp_state data))]
    \<and> sorted_wrt (\<lambda>x y. sint (sr_MaxTimestampMS x) \<le> sint (sr_MinTimestampMS y)) (mp_segments data)
    \<and> distinct (map sr_SegmentUUID (mp_segments data)) \<and> distinct (map sr_URI (mp_segments data))
    \<and> pt_ReachableSegmentCount (mp_state data) = of_nat (length (mp_segments data))
    \<and> (mp_segments data \<noteq> [] \<longrightarrow> pt_LastSegment (mp_state data) = last (mp_segments data))
    \<and> pt_AppliedRetentionLSN (mp_state data) \<le> pt_NextLSN (mp_state data)"
proof -
  have inv: "part_inv (mc_streamID c) part data"
    using mem_reach_inv[OF assms(1)] assms(2) by (simp add: cat_inv_def)
  note I = part_invD[OF inv]
  show ?thesis
    using seg.tiles_points[OF I(3,1)] I(4,5,7,8) inv by (simp add: part_inv_def Let_def ts_ordered_def)
qed

theorem memory_catalog_invariant_witness:
  "concat (map (\<lambda>s. [seg_lo s..<seg_hi s]) [sample_seg 0 4, sample_seg 5 9]) = [0..<10]"
proof -
  have p: "mc_partitions sample_cat2 3 = Some (view (sample_cat2, 3))" by code_simp
  show ?thesis using memory_catalog_invariant[OF sample_reach(1) p] by (simp add: sample_view)
qed

text \<open>C8: in every reachable in-process catalog and for every partition, a lookup of a log sequence
  number never fails: it returns a segment exactly when that segment is retained and holds the
  number, it reports not found exactly when the number lies outside the range from the oldest to
  the next number of the head, and every number in that range is found.\<close>

theorem memory_FindSegment_correct:
  assumes "mem_reach c"
  shows "(FindSegment None part l c = Inr (Some s) \<longleftrightarrow>
      s \<in> set (mp_segments (view (c, part))) \<and> sr_BaseLSN s \<le> l \<and> l \<le> sr_LastLSN s)
    \<and> (FindSegment None part l c = Inr None \<longleftrightarrow>
      \<not> (pt_OldestLSN (mp_state (view (c, part))) \<le> l \<and> l < pt_NextLSN (mp_state (view (c, part)))))
    \<and> (\<exists>found. FindSegment None part l c = Inr found)"
proof -
  let ?d = "view (c, part)"
  have inv: "cat_inv c" by (rule mem_reach_inv[OF assms])
  have "part_inv (mc_streamID c) part ?d" by (rule view_inv[OF inv])
  note T = part_invD(3,1)[OF this]
  have f: "FindSegment None part l c = Inr (find_in (mp_segments ?d) (unat l))" by (simp add: FindSegment_view[OF inv])
  have "find_in (mp_segments ?d) (unat l) = Some s \<longleftrightarrow> s \<in> set (mp_segments ?d) \<and> sr_BaseLSN s \<le> l \<and> l \<le> sr_LastLSN s"
    by (auto simp: find_in_Some[OF T] seg_lo_def seg_hi_def word_le_nat_alt less_Suc_eq_le)
  moreover have "find_in (mp_segments ?d) (unat l) = None \<longleftrightarrow>
      \<not> (pt_OldestLSN (mp_state ?d) \<le> l \<and> l < pt_NextLSN (mp_state ?d))"
    by (auto simp: find_in_None[OF T] word_le_nat_alt word_less_nat_alt)
  ultimately show ?thesis using f by simp
qed

theorem memory_FindSegment_correct_witness:
  "FindSegment None 3 7 sample_cat2 = Inr (Some (sample_seg 5 9)) \<and> FindSegment None 3 10 sample_cat2 = Inr None"
proof -
  have "sr_BaseLSN (sample_seg 5 9) \<le> 7 \<and> 7 \<le> sr_LastLSN (sample_seg 5 9)" by code_simp
  moreover have "\<not> 10 < pt_NextLSN (mp_state (view (sample_cat2, 3)))" by code_simp
  ultimately show ?thesis
    using memory_FindSegment_correct[OF sample_reach(1), of 3 7 "sample_seg 5 9"]
      memory_FindSegment_correct[OF sample_reach(1), of 3 10 "sample_seg 5 9"] by (simp add: sample_view)
qed

text \<open>C9: a reader of the in-process catalog that follows pages from any position, with any page
  limit, receives every retained segment from that position on, once and in order; it needs at most
  one request more than there are such segments.\<close>

theorem memory_paging_complete:
  assumes "mem_reach c"
    and "length (filter (\<lambda>s. unat pos < seg_hi s) (mp_segments (view (c, part)))) < fuel"
  shows "follow_pages (\<lambda>l. ListSegments None \<lparr>ls_Partition = part, ls_FromLSN = l, ls_Limit = limit\<rparr> c) fuel pos
    = Some (Inr (filter (\<lambda>s. unat pos < seg_hi s) (mp_segments (view (c, part)))))"
  using mem.follow_all[of "(c, part)" pos fuel limit] mem_reach_inv[OF assms(1)] assms(2) by simp

theorem memory_paging_complete_witness:
  "follow_pages (\<lambda>l. ListSegments None \<lparr>ls_Partition = 3, ls_FromLSN = l, ls_Limit = 1\<rparr> sample_cat2) 3 6
    = Some (Inr [sample_seg 5 9])"
proof -
  have "filter (\<lambda>s. unat (6 :: u64) < seg_hi s) [sample_seg 0 4, sample_seg 5 9] = [sample_seg 5 9]"
    by code_simp
  then show ?thesis
    using memory_paging_complete[OF sample_reach(1), of 6 3 3 1] by (simp add: sample_view)
qed

text \<open>C10: a writer whose epoch or identity is not the current one cannot change what readers of the
  in-process catalog see: its append leaves every partition and every retention request as it was
  and succeeds only when the very segment is already committed, and its retention always fails, as
  stale when its context is not cancelled, and leaves them as they were, too.\<close>

theorem memory_stale_writer_fenced:
  assumes "cat_inv c"
    and "epoch \<noteq> pt_WriterEpoch (mp_state (view (c, part))) \<or> writerID \<noteq> mp_writerID (view (c, part))"
  shows "(appendSegment ctx part writerID epoch expected s known c = (r, c') \<longrightarrow>
        view (c', p) = view (c, p) \<and> mc_retention c' = mc_retention c
      \<and> (\<forall>h v. r = Inr (h, v) \<longrightarrow> s \<in> set (mp_segments (view (c, part)))))
    \<and> (applyPendingRetention ctx part writerID epoch c = (r', c'') \<longrightarrow>
        view (c'', p) = view (c, p) \<and> mc_retention c'' = mc_retention c
      \<and> r' = Inl (case ctx of None \<Rightarrow> [ErrStaleWriter] | Some err \<Rightarrow> err))"
proof (intro conjI impI)
  have get: "data = view (c, part) \<and> view (c1, p) = view (c, p) \<and> mc_retention c1 = mc_retention c"
    if "getOrCreateLocked c part = (data, c1)" for data c1 p
    using that by (auto simp: getOrCreateLocked_def view_def Let_def split: option.splits if_splits)
  { assume "appendSegment ctx part writerID epoch expected s known c = (r, c')"
    then have "view (c', p) = view (c, p) \<and> mc_retention c' = mc_retention c
      \<and> (\<forall>h v. r = Inr (h, v) \<longrightarrow> s \<in> set (mp_segments (view (c, part))))"
    proof (cases rule: appendSegment_cases)
      case (fail e)
      then show ?thesis using get by (cases "getOrCreateLocked c part") auto
    next
      case (retry data)
      have "s \<in> set (mp_segments data)"
        using retry(2) firstSegment_le[of "mp_segments data" "sr_BaseLSN s"]
        by (auto simp: idempotentRetry_def Let_def le_less in_set_conv_nth split: if_splits)
      then show ?thesis using get[OF retry(1)] by simp
    next
      case (commit data c1)
      then show ?thesis using assms(2) get[OF commit(1)] by auto
    qed }
  then show "view (c', p) = view (c, p)" "mc_retention c' = mc_retention c"
      "\<forall>h v. r = Inr (h, v) \<longrightarrow> s \<in> set (mp_segments (view (c, part)))"
    if "appendSegment ctx part writerID epoch expected s known c = (r, c')" using that by blast+
  obtain data c1 where g: "getOrCreateLocked c part = (data, c1)" by fastforce
  show "view (c'', p) = view (c, p)" "mc_retention c'' = mc_retention c" "r' = Inl (case ctx of None \<Rightarrow> [ErrStaleWriter] | Some err \<Rightarrow> err)"
    if "applyPendingRetention ctx part writerID epoch c = (r', c'')"
    using that assms(2) get[OF g, of p] g by (auto simp: applyPendingRetention_def split: option.splits)
qed

theorem memory_stale_writer_fenced_witness:
  "view (snd (appendSegment None 3 7 0 10 (sample_seg 10 11) False sample_cat2), 3) = view (sample_cat2, 3)
   \<and> fst (applyPendingRetention None 3 7 0 sample_cat2) = Inl [ErrStaleWriter]"
proof -
  obtain r c' where a: "appendSegment None 3 7 0 10 (sample_seg 10 11) False sample_cat2 = (r, c')"
    by fastforce
  obtain r' c'' where b: "applyPendingRetention None 3 7 0 sample_cat2 = (r', c'')" by fastforce
  have "0 \<noteq> pt_WriterEpoch (mp_state (view (sample_cat2, 3)))" by code_simp
  then show ?thesis
    using memory_stale_writer_fenced[OF mem_reach_inv[OF sample_reach(1)],
        of 0 3 7 None 10 "sample_seg 10 11" False r c' 3 r' c''] a b by simp
qed

text \<open>C11: an append to the in-process catalog that succeeded may be sent again: the second call,
  flagged as a retry or not, returns the same head and version and changes nothing.\<close>

theorem memory_append_idempotent:
  assumes "cat_inv c" "appendSegment None part writerID epoch expected s known c = (Inr (h, v), c')"
  shows "appendSegment None part writerID epoch expected s known' c' = (Inr (h, v), c')"
  by (rule appendSegment_again[OF assms])

theorem memory_append_idempotent_witness:
  "snd (appendSegment None 3 7 1 5 (sample_seg 5 9) True sample_cat2) = sample_cat2"
proof -
  obtain r where a: "appendSegment None 3 7 1 5 (sample_seg 5 9) False sample_cat1 = (r, sample_cat2)"
    unfolding sample_cat2_def by (metis prod.collapse)
  have "\<exists>h v. fst (appendSegment None 3 7 1 5 (sample_seg 5 9) False sample_cat1) = Inr (h, v)"
  proof (cases "fst (appendSegment None 3 7 1 5 (sample_seg 5 9) False sample_cat1)")
    case (Inl e)
    have "\<not> isl (fst (appendSegment None 3 7 1 5 (sample_seg 5 9) False sample_cat1))" by code_simp
    then show ?thesis using Inl by simp
  qed auto
  then obtain h v where "r = Inr (h, v)" using a by auto
  then show ?thesis
    using memory_append_idempotent[OF mem_reach_inv[OF sample_reach(2)], of 3 7 1 5 "sample_seg 5 9" False h v
        sample_cat2 True] a by simp
qed

text \<open>C12: applying a pending retention request to the in-process catalog keeps exactly the segments
  that still hold a log sequence number at or above the requested boundary; the oldest retained
  number never moves back and the next one never moves.\<close>

theorem memory_retention_exact:
  assumes "cat_inv c" "applyPendingRetention None part writerID epoch c = (Inr (res, v), c')" "ra_Applied res"
  shows "mp_segments (view (c', part))
      = filter (\<lambda>s. unat (rq_BeforeLSN (ra_Request res)) < seg_hi s) (mp_segments (view (c, part)))
    \<and> pt_OldestLSN (mp_state (view (c, part))) \<le> pt_OldestLSN (mp_state (view (c', part)))
    \<and> pt_NextLSN (mp_state (view (c', part))) = pt_NextLSN (mp_state (view (c, part)))
    \<and> ra_Head res = mp_state (view (c', part))"
  by (rule applyPendingRetention_applied[OF assms])

definition sample_cat3 :: MemoryCatalog where
  "sample_cat3 = snd (RequestRetention None 3
     \<lparr>rq_Version = 1, rq_PolicyVersion = 1, rq_BeforeLSN = 7, rq_CreatedUnixMS = 0\<rparr> sample_cat2)"

theorem memory_retention_exact_witness:
  "mp_segments (view (snd (applyPendingRetention None 3 7 1 sample_cat3), 3)) = [sample_seg 5 9]"
proof -
  have "cat_inv sample_cat3"
    unfolding sample_cat3_def by (intro RequestRetention_inv mem_reach_inv sample_reach)
  moreover have "case fst (applyPendingRetention None 3 7 1 sample_cat3) of Inl e \<Rightarrow> False
      | Inr (res, v) \<Rightarrow> ra_Applied res \<and> rq_BeforeLSN (ra_Request res) = 7" by code_simp
  moreover have "mp_segments (view (sample_cat3, 3)) = [sample_seg 0 4, sample_seg 5 9]" by code_simp
  moreover have "seg_hi (sample_seg 0 4) = 5" "seg_hi (sample_seg 5 9) = 10" by code_simp+
  ultimately show ?thesis
    using memory_retention_exact[of sample_cat3 3 7 1]
    by (cases "applyPendingRetention None 3 7 1 sample_cat3") (auto split: sum.splits)
qed

end
