(* ===== verification/Cat_Ranges.thy ===== *)
theory Cat_Ranges
  imports Cat_Format
begin

text \<open>
  What the validators of \<^verbatim>\<open>catformat/validate.go\<close> accept, read as intervals: each loop is
  a condition on the elements and on neighbours, so the entries of a valid page and the roots of a
  valid head tile the range the header claims, their times never step back, and the counts the
  headers carry are the true sums.
\<close>


section \<open>Neighbours\<close>

lemma successively_tiles:
  assumes "successively R xs" "\<And>x y. x \<in> set xs \<Longrightarrow> y \<in> set xs \<Longrightarrow> R x y \<Longrightarrow> hi x = lo y" "xs \<noteq> []"
  shows "tiles lo hi (lo (hd xs)) xs (hi (last xs))"
  using assms
proof (induction xs rule: induct_list012)
  case (3 x y xs)
  have eq: "lo y = hi x" using 3(3) 3(4)[of x y] by simp
  have "tiles lo hi (lo y) (y # xs) (hi (last (y # xs)))" using 3(2) 3(3,4) by simp
  with eq show ?case by simp
qed simp_all

lemma tiles_successively: "tiles lo hi a xs b \<Longrightarrow> successively (\<lambda>x y. hi x = lo y) xs"
proof (induction xs arbitrary: a)
  case (Cons x xs)
  then show ?case by (cases xs) auto
qed simp

lemma successively_ordered:
  fixes lo' hi' :: "'a \<Rightarrow> int"
  assumes "successively (\<lambda>x y. hi' x \<le> lo' y) xs" "\<And>x. x \<in> set xs \<Longrightarrow> lo' x \<le> hi' x"
  shows "sorted_wrt (\<lambda>x y. hi' x \<le> lo' y) xs"
  using assms
proof (induction xs)
  case (Cons x xs)
  then have IH: "sorted_wrt (\<lambda>x y. hi' x \<le> lo' y) xs" by (auto simp: successively_Cons)
  show ?case
  proof (cases xs)
    case (Cons y ys)
    have "hi' x \<le> lo' y" "lo' y \<le> hi' y" using Cons.prems Cons by auto
    moreover have "hi' y \<le> lo' z" if "z \<in> set ys" for z using IH Cons that by auto
    ultimately show ?thesis using IH Cons by fastforce
  qed simp
qed simp

lemma sorted_wrt_successively: "sorted_wrt R xs \<Longrightarrow> successively R xs"
  by (induction R xs rule: successively.induct) auto

lemma tiles_map: "tiles lo hi a (map f xs) b \<longleftrightarrow> tiles (lo \<circ> f) (hi \<circ> f) a xs b"
  by (induction xs arbitrary: a) auto

lemma successively_conj: "successively (\<lambda>x y. P x y \<and> Q x y) xs \<longleftrightarrow> successively P xs \<and> successively Q xs"
  by (induction xs rule: induct_list012) auto


section \<open>Entries as intervals\<close>

abbreviation leaf_ok :: "LeafEntry \<Rightarrow> bool" where
  "leaf_ok e \<equiv> validateLeafEntry e = Inr ()"

abbreviation ref_ok :: "IndexEntry \<Rightarrow> bool" where
  "ref_ok e \<equiv> validateIndexEntry e = Inr ()"

definition le_lo :: "LeafEntry \<Rightarrow> nat" where "le_lo e = unat (le_BaseLSN e)"
definition le_hi :: "LeafEntry \<Rightarrow> nat" where "le_hi e = unat (le_LastLSN e) + 1"
definition ie_lo :: "IndexEntry \<Rightarrow> nat" where "ie_lo e = unat (ie_SeqLo e)"
definition ie_hi :: "IndexEntry \<Rightarrow> nat" where "ie_hi e = unat (ie_SeqHi e) + 1"
definition rng_lo :: "rootRange \<Rightarrow> nat" where "rng_lo r = unat (rr_seqLo r)"
definition rng_hi :: "rootRange \<Rightarrow> nat" where "rng_hi r = unat (rr_seqHi r) + 1"

definition rng_ok :: "rootRange \<Rightarrow> bool" where
  "rng_ok r \<longleftrightarrow> rr_seqLo r \<le> rr_seqHi r \<and> rr_seqHi r \<le> MaxRecordLSN
     \<and> sint (rr_minTS r) \<le> sint (rr_maxTS r)"

lemma range_bounds [simp]:
  "rng_lo (leaf_range e) = le_lo e" "rng_hi (leaf_range e) = le_hi e"
  "rng_lo (ref_range r) = ie_lo r" "rng_hi (ref_range r) = ie_hi r"
  by (simp_all add: rng_lo_def rng_hi_def le_lo_def le_hi_def ie_lo_def ie_hi_def leaf_range_def ref_range_def)

lemma leaf_okD:
  assumes "leaf_ok e"
  shows "le_BaseLSN e \<le> le_LastLSN e" "le_LastLSN e \<le> MaxRecordLSN"
    "sint (le_MinTimestampMS e) \<le> sint (le_MaxTimestampMS e)" "le_WriterEpoch e \<noteq> 0"
    "le_SegmentUUID e \<noteq> 0" "le_WriterTag e \<noteq> 0" "rng_ok (leaf_range e)"
  using assms by (auto simp: validateLeafEntry_def Let_def rng_ok_def leaf_range_def not_less split: if_splits)

lemma ref_okD:
  assumes "ref_ok e"
  shows "ie_SeqLo e \<le> ie_SeqHi e" "ie_SeqHi e \<le> MaxRecordLSN" "ie_Level e \<le> MaxIndexLevel"
    "sint (ie_MinTimestampMS e) \<le> sint (ie_MaxTimestampMS e)" "ie_Generation e \<noteq> 0"
    "ie_PageID e \<noteq> 0" "rng_ok (ref_range e)"
  using assms by (auto simp: validateIndexEntry_def Let_def rng_ok_def ref_range_def not_less split: if_splits)

interpretation rng: intervals rng_lo rng_hi rng_ok
  by unfold_locales (simp add: rng_lo_def rng_hi_def rng_ok_def word_le_nat_alt)

interpretation lfi: intervals le_lo le_hi leaf_ok
  by unfold_locales (metis leaf_okD(7) range_bounds(1,2) rng.nonempty)

interpretation rfi: intervals ie_lo ie_hi ref_ok
  by unfold_locales (metis ref_okD(7) range_bounds(3,4) rng.nonempty)

text \<open>Contiguity as the validators test it, in the width of the code and in natural numbers.\<close>

lemma next_lsn_iff:
  "hi \<le> MaxRecordLSN \<Longrightarrow> hi \<noteq> MaxRecordLSN \<and> lo = hi + 1 \<longleftrightarrow> hi \<noteq> MaxRecordLSN \<and> unat lo = unat hi + 1"
  by (auto simp: unat_succ_lsn word_unat_eq_iff)


section \<open>Leaf pages\<close>

definition leaf_next :: "LeafEntry \<Rightarrow> LeafEntry \<Rightarrow> bool" where
  "leaf_next p e \<longleftrightarrow> le_LastLSN p \<noteq> MaxRecordLSN \<and> le_BaseLSN e = le_LastLSN p + 1
     \<and> sint (le_MaxTimestampMS p) \<le> sint (le_MinTimestampMS e) \<and> le_WriterEpoch p \<le> le_WriterEpoch e"

lemma validateLeafPage_loop_iff:
  "validateLeafPage_loop prev es = Inr ()
     \<longleftrightarrow> list_all leaf_ok es \<and> successively leaf_next (case prev of None \<Rightarrow> es | Some p \<Rightarrow> p # es)"
proof (induction prev es rule: validateLeafPage_loop.induct)
  case (2 prev e es)
  show ?case
  proof (cases prev)
    case None
    with 2 show ?thesis by (cases es) auto
  next
    case (Some p)
    with 2 show ?thesis by (auto simp: leaf_next_def not_less not_le)
  qed
qed (simp split: option.splits)

lemma leaf_next_touch: "leaf_ok p \<Longrightarrow> leaf_next p e \<Longrightarrow> le_hi p = le_lo e"
  using leaf_okD(2)[of p] by (simp add: leaf_next_def le_hi_def le_lo_def unat_succ_lsn)

definition leaf_ordered :: "LeafEntry list \<Rightarrow> bool" where
  "leaf_ordered es \<longleftrightarrow> sorted_wrt (\<lambda>x y. sint (le_MaxTimestampMS x) \<le> sint (le_MinTimestampMS y)) es"

lemma leaf_chain:
  assumes "list_all leaf_ok es" "successively leaf_next es" "es \<noteq> []"
  shows "tiles le_lo le_hi (le_lo (hd es)) es (le_hi (last es))" "leaf_ordered es"
proof -
  show "tiles le_lo le_hi (le_lo (hd es)) es (le_hi (last es))"
    using assms by (intro successively_tiles[where R = leaf_next]) (auto simp: list_all_iff leaf_next_touch)
  have "successively (\<lambda>x y. sint (le_MaxTimestampMS x) \<le> sint (le_MinTimestampMS y)) es"
    using assms(2) by (rule successively_mono) (simp add: leaf_next_def)
  then show "leaf_ordered es" unfolding leaf_ordered_def
    by (rule successively_ordered) (use assms(1) in \<open>auto simp: list_all_iff leaf_okD\<close>)
qed

lemma validateLeafPage_Inr:
  assumes "validateLeafPage page = Inr ()"
  shows "list_all leaf_ok (lp_Entries page)" "successively leaf_next (lp_Entries page)"
    "lp_Entries page \<noteq> []" "length (lp_Entries page) \<le> MaxLeafEntries"
    "tiles le_lo le_hi (unat (ph_SeqLo (lp_Header page))) (lp_Entries page) (unat (ph_SeqHi (lp_Header page)) + 1)"
    "leaf_ordered (lp_Entries page)"
    "unat (ph_EntryCount (lp_Header page)) = length (lp_Entries page)"
    "unat (ph_SegmentCount (lp_Header page)) = length (lp_Entries page)"
    "ph_MaxTimestampMS (lp_Header page) = le_MaxTimestampMS (last (lp_Entries page))"
    "ph_MinTimestampMS (lp_Header page) = le_MinTimestampMS (hd (lp_Entries page))"
    "ph_Level (lp_Header page) = 0" "validateCommonPageHeader (lp_Header page) = Inr ()"
proof -
  let ?es = "lp_Entries page" and ?h = "lp_Header page"
  note D = assms[unfolded validateLeafPage_def Let_def]
  show ok: "list_all leaf_ok ?es" and ch: "successively leaf_next ?es" and ne: "?es \<noteq> []"
    using D by (auto simp: validateLeafPage_loop_iff split: if_splits)
  show len: "length ?es \<le> MaxLeafEntries" "ph_Level ?h = 0" "validateCommonPageHeader ?h = Inr ()"
    using D by (auto split: if_splits)
  have "ph_SeqLo ?h = le_BaseLSN (hd ?es)" "ph_SeqHi ?h = le_LastLSN (last ?es)"
    using D by (auto split: if_splits)
  then show "tiles le_lo le_hi (unat (ph_SeqLo ?h)) ?es (unat (ph_SeqHi ?h) + 1)"
    using leaf_chain(1)[OF ok ch ne] by (simp add: le_lo_def le_hi_def)
  show "leaf_ordered ?es" by (rule leaf_chain(2)[OF ok ch ne])
  show "ph_MaxTimestampMS ?h = le_MaxTimestampMS (last ?es)" "ph_MinTimestampMS ?h = le_MinTimestampMS (hd ?es)"
    using D by (auto split: if_splits)
  have "ph_EntryCount ?h = of_nat (length ?es)" "ph_SegmentCount ?h = of_nat (length ?es)"
    using D by (auto split: if_splits)
  then show "unat (ph_EntryCount ?h) = length ?es" "unat (ph_SegmentCount ?h) = length ?es"
    using len by (simp_all add: MaxLeafEntries_def unsigned_of_nat take_bit_nat_eq_self)
qed


section \<open>Index pages\<close>

definition ref_next :: "IndexEntry \<Rightarrow> IndexEntry \<Rightarrow> bool" where
  "ref_next p e \<longleftrightarrow> ie_SeqHi p \<noteq> MaxRecordLSN \<and> ie_SeqLo e = ie_SeqHi p + 1
     \<and> sint (ie_MaxTimestampMS p) \<le> sint (ie_MinTimestampMS e)"

definition ref_count :: "IndexEntry list \<Rightarrow> nat" where
  "ref_count es = sum_list (map (\<lambda>e. unat (ie_SegmentCount e)) es)"

lemma ref_count_simps [simp]:
  "ref_count [] = 0" "ref_count (e # es) = unat (ie_SegmentCount e) + ref_count es"
  "ref_count (es @ fs) = ref_count es + ref_count fs"
  by (simp_all add: ref_count_def)

text \<open>The overflow test of the running counts.\<close>

lemma count_fits: "\<not> MaxUint64 - n < k \<longleftrightarrow> unat n + unat k < 18446744073709551616"
  using unat_u64_less[of n] by (auto simp: MaxUint64_def word_less_nat_alt)

lemma count_sum: "\<not> MaxUint64 - n < k \<Longrightarrow> unat (n + k) = unat n + unat k"
  by (simp add: count_fits unat_add_u64)

lemma validateIndexPage_loop_iff:
  "validateIndexPage_loop header n prev es = Inr m
     \<longleftrightarrow> list_all (\<lambda>e. ref_ok e \<and> ie_Level e + 1 = ph_Level header \<and> ie_Generation e \<le> ph_Generation header) es
       \<and> successively ref_next (case prev of None \<Rightarrow> es | Some p \<Rightarrow> p # es)
       \<and> unat m = unat n + ref_count es"
proof (induction header n prev es rule: validateIndexPage_loop.induct)
  case (1 header n prev)
  then show ?case by (auto simp: word_unat_eq_iff split: option.splits)
next
  case (2 header n prev e es)
  show ?case
  proof (cases "MaxUint64 - n < ie_SegmentCount e")
    case True
    then have "unat m \<noteq> unat n + ref_count (e # es)"
      using unat_u64_less[of m] count_fits[of n "ie_SegmentCount e"] by simp
    with True show ?thesis by simp
  next
    case False
    note s = count_sum[OF False]
    show ?thesis
    proof (cases prev)
      case None
      with None False 2(1) s show ?thesis by (auto simp: not_less not_le)
    next
      case (Some p)
      with False 2(2) s show ?thesis by (auto simp: ref_next_def not_less not_le)
    qed
  qed
qed

definition ref_ordered :: "IndexEntry list \<Rightarrow> bool" where
  "ref_ordered es \<longleftrightarrow> sorted_wrt (\<lambda>x y. sint (ie_MaxTimestampMS x) \<le> sint (ie_MinTimestampMS y)) es"

lemma ref_next_touch: "ref_ok p \<Longrightarrow> ref_next p e \<Longrightarrow> ie_hi p = ie_lo e"
  using ref_okD(2)[of p] by (simp add: ref_next_def ie_hi_def ie_lo_def unat_succ_lsn)

lemma ref_chain:
  assumes "list_all ref_ok es" "successively ref_next es" "es \<noteq> []"
  shows "tiles ie_lo ie_hi (ie_lo (hd es)) es (ie_hi (last es))" "ref_ordered es"
proof -
  show "tiles ie_lo ie_hi (ie_lo (hd es)) es (ie_hi (last es))"
    using assms by (intro successively_tiles[where R = ref_next]) (auto simp: list_all_iff ref_next_touch)
  have "successively (\<lambda>x y. sint (ie_MaxTimestampMS x) \<le> sint (ie_MinTimestampMS y)) es"
    using assms(2) by (rule successively_mono) (simp add: ref_next_def)
  then show "ref_ordered es" unfolding ref_ordered_def
    by (rule successively_ordered) (use assms(1) in \<open>auto simp: list_all_iff ref_okD\<close>)
qed

lemma validateIndexPage_Inr:
  assumes "validateIndexPage page = Inr ()"
  shows "list_all ref_ok (xp_Entries page)" "successively ref_next (xp_Entries page)"
    "xp_Entries page \<noteq> []" "length (xp_Entries page) \<le> MaxIndexEntries"
    "tiles ie_lo ie_hi (unat (ph_SeqLo (xp_Header page))) (xp_Entries page) (unat (ph_SeqHi (xp_Header page)) + 1)"
    "ref_ordered (xp_Entries page)"
    "unat (ph_EntryCount (xp_Header page)) = length (xp_Entries page)"
    "unat (ph_SegmentCount (xp_Header page)) = ref_count (xp_Entries page)"
    "ph_MaxTimestampMS (xp_Header page) = ie_MaxTimestampMS (last (xp_Entries page))"
    "ph_MinTimestampMS (xp_Header page) = ie_MinTimestampMS (hd (xp_Entries page))"
    "list_all (\<lambda>e. ie_Level e + 1 = ph_Level (xp_Header page)) (xp_Entries page)"
    "0 < ph_Level (xp_Header page)" "ph_Level (xp_Header page) \<le> MaxIndexLevel"
    "validateCommonPageHeader (xp_Header page) = Inr ()"
proof -
  let ?es = "xp_Entries page" and ?h = "xp_Header page"
  note D = assms[unfolded validateIndexPage_def Let_def]
  show ok: "list_all ref_ok ?es" and ch: "successively ref_next ?es" and ne: "?es \<noteq> []"
    using D by (auto simp: validateIndexPage_loop_iff list_all_iff split: if_splits)
  show len: "length ?es \<le> MaxIndexEntries" "ph_Level ?h \<le> MaxIndexLevel"
    "validateCommonPageHeader ?h = Inr ()" "0 < ph_Level ?h"
    using D by (auto simp: word_neq_0_conv split: if_splits)
  have "ph_SeqLo ?h = ie_SeqLo (hd ?es)" "ph_SeqHi ?h = ie_SeqHi (last ?es)"
    using D by (auto split: if_splits)
  then show "tiles ie_lo ie_hi (unat (ph_SeqLo ?h)) ?es (unat (ph_SeqHi ?h) + 1)"
    using ref_chain(1)[OF ok ch ne] by (simp add: ie_lo_def ie_hi_def)
  show "ref_ordered ?es" by (rule ref_chain(2)[OF ok ch ne])
  show "ph_MaxTimestampMS ?h = ie_MaxTimestampMS (last ?es)" "ph_MinTimestampMS ?h = ie_MinTimestampMS (hd ?es)"
    using D by (auto split: if_splits)
  show "list_all (\<lambda>e. ie_Level e + 1 = ph_Level ?h) ?es" "unat (ph_SegmentCount ?h) = ref_count ?es"
    using D by (auto simp: validateIndexPage_loop_iff list_all_iff split: if_splits)
  have "ph_EntryCount ?h = of_nat (length ?es)" using D by (auto split: if_splits)
  then show "unat (ph_EntryCount ?h) = length ?es"
    using len by (simp add: MaxIndexEntries_def unsigned_of_nat take_bit_nat_eq_self)
qed


section \<open>Heads\<close>

definition section_ref :: "HeadHeader \<Rightarrow> u8 \<Rightarrow> IndexEntry \<Rightarrow> bool" where
  "section_ref header level e \<longleftrightarrow>
     ref_ok e \<and> ie_Level e + 1 = level \<and> ie_Generation e \<le> hh_Generation header"

definition section_ok :: "HeadHeader \<Rightarrow> u8 \<Rightarrow> OpenIndexSection \<Rightarrow> bool" where
  "section_ok header level s \<longleftrightarrow>
     os_Level s = level \<and> length (os_Entries s) < unat (hh_IndexLimit header)
     \<and> list_all (section_ref header level) (os_Entries s)"

lemma validateSection_entries_iff:
  "validateSection_entries header level es = Inr () \<longleftrightarrow> list_all (section_ref header level) es"
  by (induction es) (auto simp: section_ref_def not_less)

lemma validateSections_iff:
  "validateSections header i ss = Inr ()
     \<longleftrightarrow> (\<forall>k<length ss. section_ok header (of_nat (i + k + 1)) (ss ! k))"
proof (induction header i ss rule: validateSections.induct)
  case (2 header i s ss)
  have "(\<forall>k<length (s # ss). section_ok header (of_nat (i + k + 1)) ((s # ss) ! k))
      \<longleftrightarrow> section_ok header (of_nat (i + 1)) s
        \<and> (\<forall>k<length ss. section_ok header (of_nat (i + 1 + k + 1)) (ss ! k))"
    by (auto simp: less_Suc_eq_0_disj all_conj_distrib)
  then show ?case using 2
    by (auto simp: section_ok_def validateSection_entries_iff not_le)
qed simp

definition epoch_le :: "LeafEntry \<Rightarrow> LeafEntry \<Rightarrow> bool" where
  "epoch_le p e \<longleftrightarrow> le_WriterEpoch p \<le> le_WriterEpoch e"

lemma validateActive_iff:
  "validateActive header prev es = Inr ()
     \<longleftrightarrow> list_all (\<lambda>e. leaf_ok e \<and> le_WriterEpoch e \<le> hh_WriterEpoch header) es
       \<and> successively epoch_le (case prev of None \<Rightarrow> es | Some p \<Rightarrow> p # es)"
proof (induction header prev es rule: validateActive.induct)
  case (2 header prev e es)
  then show ?case by (cases prev) (auto simp: epoch_le_def not_less)
qed (simp split: option.splits)

definition root_next :: "rootRange \<Rightarrow> rootRange \<Rightarrow> bool" where
  "root_next p r \<longleftrightarrow> rr_seqHi p \<noteq> MaxRecordLSN \<and> rr_seqLo r = rr_seqHi p + 1
     \<and> sint (rr_maxTS p) \<le> sint (rr_minTS r)"

definition range_count :: "rootRange list \<Rightarrow> nat" where
  "range_count rs = sum_list (map (\<lambda>r. unat (rr_segments r)) rs)"

lemma range_count_simps [simp]:
  "range_count [] = 0" "range_count (r # rs) = unat (rr_segments r) + range_count rs"
  "range_count (rs @ ss) = range_count rs + range_count ss"
  "range_count (map ref_range es) = ref_count es" "range_count (map leaf_range ls) = length ls"
  by (simp_all add: range_count_def ref_count_def ref_range_def leaf_range_def o_def sum_list_triv)

lemma validateRoots_iff:
  "validateRoots header n prev rs = Inr m
     \<longleftrightarrow> (prev = None \<and> rs \<noteq> [] \<longrightarrow> rr_seqLo (hd rs) = hh_OldestLSN header)
       \<and> successively root_next (case prev of None \<Rightarrow> rs | Some p \<Rightarrow> p # rs)
       \<and> unat m = unat n + range_count rs"
proof (induction header n prev rs rule: validateRoots.induct)
  case (1 header n prev)
  then show ?case by (auto simp: word_unat_eq_iff split: option.splits)
next
  case (2 header n prev r rs)
  show ?case
  proof (cases "MaxUint64 - n < rr_segments r")
    case True
    then have "unat m \<noteq> unat n + range_count (r # rs)"
      using unat_u64_less[of m] count_fits[of n "rr_segments r"] by simp
    with True show ?thesis by simp
  next
    case False
    note s = count_sum[OF False]
    show ?thesis
    proof (cases prev)
      case None
      with False 2(1) s show ?thesis by (auto simp: not_less not_le)
    next
      case (Some p)
      with False 2(2) s show ?thesis by (auto simp: root_next_def not_less not_le)
    qed
  qed
qed

definition sections_ok :: "Head \<Rightarrow> bool" where
  "sections_ok h \<longleftrightarrow>
     (\<forall>k<length (hd_Sections h). section_ok (hd_Header h) (of_nat (k + 1)) (hd_Sections h ! k))"

definition active_ok :: "Head \<Rightarrow> bool" where
  "active_ok h \<longleftrightarrow>
     list_all (\<lambda>e. leaf_ok e \<and> le_WriterEpoch e \<le> hh_WriterEpoch (hd_Header h)) (hd_Active h)
     \<and> successively epoch_le (hd_Active h)"

text \<open>The head as the validator accepts it, in one formula.\<close>

definition head_tail_ok :: "Head \<Rightarrow> bool" where
  "head_tail_ok h \<longleftrightarrow>
     (let header = hd_Header h; rs = head_ranges h; l = hd_LastSegment h
      in if HasLastSegment h
      then leaf_ok l \<and> le_WriterEpoch l \<le> hh_WriterEpoch header \<and> hh_SegmentCount header \<noteq> 0
        \<and> le_LastLSN l \<noteq> MaxRecordLSN \<and> le_LastLSN l + 1 = hh_NextLSN header
        \<and> (rs = [] \<longrightarrow> hh_OldestLSN header = hh_NextLSN header)
        \<and> (rs \<noteq> [] \<longrightarrow> rr_seqLo (hd rs) = hh_OldestLSN header \<and> rr_seqHi (last rs) = le_LastLSN l
             \<and> (hd_Active h \<noteq> [] \<longrightarrow> last (hd_Active h) = l))
        \<and> successively root_next rs \<and> unat (hh_ReachableSegmentCount header) = range_count rs
      else l = zero_LeafEntry \<and> hh_OldestLSN header = hh_NextLSN header \<and> hh_SegmentCount header = 0
        \<and> hh_ReachableSegmentCount header = 0 \<and> rs = [])"

lemma head_ranges_Nil: "head_ranges h = [] \<Longrightarrow> hd_Active h = []"
  by (simp add: head_ranges_def)

lemma validateHead_history_iff: "validateHead_history h = Inr () \<longleftrightarrow> head_tail_ok h"
proof -
  let ?rs = "head_ranges h" and ?hd = "hd_Header h" and ?l = "hd_LastSegment h"
  have roots: "validateRoots ?hd 0 None ?rs = Inr n \<longleftrightarrow>
      (?rs \<noteq> [] \<longrightarrow> rr_seqLo (hd ?rs) = hh_OldestLSN ?hd) \<and> successively root_next ?rs
      \<and> unat n = range_count ?rs" for n
    by (simp add: validateRoots_iff)
  note nil = head_ranges_Nil[of h]
  consider (none) "\<not> HasLastSegment h" | (empty) "HasLastSegment h" "?rs = []"
    | (roots) "HasLastSegment h" "?rs \<noteq> []" by blast
  then show ?thesis
  proof cases
    case none
    with nil show ?thesis by (auto simp: validateHead_history_def head_tail_ok_def Let_def)
  next
    case empty
    with nil show ?thesis
      by (auto simp: validateHead_history_def head_tail_ok_def Let_def unat_eq_zero not_less)
  next
    case roots
    have "validateHead_history h = Inr () \<longleftrightarrow>
        leaf_ok ?l \<and> le_WriterEpoch ?l \<le> hh_WriterEpoch ?hd \<and> hh_SegmentCount ?hd \<noteq> 0
        \<and> le_LastLSN ?l \<noteq> MaxRecordLSN \<and> le_LastLSN ?l + 1 = hh_NextLSN ?hd
        \<and> rr_seqHi (last ?rs) = le_LastLSN ?l \<and> (hd_Active h \<noteq> [] \<longrightarrow> last (hd_Active h) = ?l)
        \<and> validateRoots ?hd 0 None ?rs = Inr (hh_ReachableSegmentCount ?hd)"
      using roots by (auto simp: validateHead_history_def Let_def not_less split: if_splits)
    then show ?thesis using roots
      by (auto simp: head_tail_ok_def Let_def validateRoots_iff)
  qed
qed

lemma validateHead_iff:
  "validateHead h = Inr () \<longleftrightarrow>
     validateHead_fields h = Inr () \<and> sections_ok h \<and> active_ok h \<and> head_tail_ok h"
  by (auto simp: validateHead_def validateHead_history_iff validateSections_iff validateActive_iff
      sections_ok_def active_ok_def)

lemma root_next_touch: "rng_ok p \<Longrightarrow> root_next p r \<Longrightarrow> rng_hi p = rng_lo r"
  by (simp add: root_next_def rng_hi_def rng_lo_def rng_ok_def unat_succ_lsn)

definition head_refs :: "Head \<Rightarrow> IndexEntry list" where
  "head_refs h = concat (map os_Entries (rev (hd_Sections h)))"

lemma head_ranges_eq: "head_ranges h = map ref_range (head_refs h) @ map leaf_range (hd_Active h)"
  by (simp add: head_ranges_def head_refs_def map_concat o_def)

lemma sections_ok_refs:
  assumes "sections_ok h" "e \<in> set (head_refs h)"
  shows "ref_ok e \<and> ie_Generation e \<le> hh_Generation (hd_Header h)"
proof -
  obtain k where "k < length (hd_Sections h)" "e \<in> set (os_Entries (hd_Sections h ! k))"
    using assms(2) by (auto simp: head_refs_def) (metis in_set_conv_nth)
  then show ?thesis using assms(1) by (auto simp: sections_ok_def section_ok_def section_ref_def list_all_iff)
qed

lemma head_ranges_ok: "sections_ok h \<Longrightarrow> active_ok h \<Longrightarrow> list_all rng_ok (head_ranges h)"
  using sections_ok_refs[of h] by (auto simp: head_ranges_eq list_all_iff active_ok_def ref_okD(7) leaf_okD(7))

definition rng_ordered :: "rootRange list \<Rightarrow> bool" where
  "rng_ordered rs \<longleftrightarrow> sorted_wrt (\<lambda>x y. sint (rr_maxTS x) \<le> sint (rr_minTS y)) rs"

lemma root_chain:
  assumes "list_all rng_ok rs" "successively root_next rs" "rs \<noteq> []"
  shows "tiles rng_lo rng_hi (rng_lo (hd rs)) rs (rng_hi (last rs))" "rng_ordered rs"
proof -
  show "tiles rng_lo rng_hi (rng_lo (hd rs)) rs (rng_hi (last rs))"
    using assms by (intro successively_tiles[where R = root_next]) (auto simp: list_all_iff root_next_touch)
  have "successively (\<lambda>x y. sint (rr_maxTS x) \<le> sint (rr_minTS y)) rs"
    using assms(2) by (rule successively_mono) (simp add: root_next_def)
  then show "rng_ordered rs" unfolding rng_ordered_def
    by (rule successively_ordered) (use assms(1) in \<open>auto simp: list_all_iff rng_ok_def\<close>)
qed

lemma validateHead_Inr:
  assumes "validateHead h = Inr ()"
  shows "list_all rng_ok (head_ranges h)"
    "tiles rng_lo rng_hi (unat (hh_OldestLSN (hd_Header h))) (head_ranges h) (unat (hh_NextLSN (hd_Header h)))"
    "rng_ordered (head_ranges h)"
    "unat (hh_ReachableSegmentCount (hd_Header h)) = range_count (head_ranges h)"
    "HasLastSegment h \<Longrightarrow> unat (hh_NextLSN (hd_Header h)) = unat (le_LastLSN (hd_LastSegment h)) + 1"
    "HasLastSegment h \<Longrightarrow> le_LastLSN (hd_LastSegment h) \<noteq> MaxRecordLSN \<and> leaf_ok (hd_LastSegment h)"
    "\<not> HasLastSegment h \<Longrightarrow> head_ranges h = []"
    "sections_ok h" "active_ok h" "head_tail_ok h" "validateHead_fields h = Inr ()"
proof -
  show V: "validateHead_fields h = Inr ()" "sections_ok h" "active_ok h" "head_tail_ok h"
    using assms by (simp_all add: validateHead_iff)
  note T = V(4)[unfolded head_tail_ok_def Let_def]
  show ok: "list_all rng_ok (head_ranges h)" using V by (intro head_ranges_ok)
  show nl: "\<not> HasLastSegment h \<Longrightarrow> head_ranges h = []" using T by simp
  show nx: "HasLastSegment h \<Longrightarrow> unat (hh_NextLSN (hd_Header h)) = unat (le_LastLSN (hd_LastSegment h)) + 1"
  proof -
    assume "HasLastSegment h"
    with T have "le_LastLSN (hd_LastSegment h) + 1 = hh_NextLSN (hd_Header h)" "leaf_ok (hd_LastSegment h)"
      by simp_all
    then show ?thesis using leaf_okD(2)[of "hd_LastSegment h"] unat_succ_lsn by metis
  qed
  show "HasLastSegment h \<Longrightarrow> le_LastLSN (hd_LastSegment h) \<noteq> MaxRecordLSN \<and> leaf_ok (hd_LastSegment h)"
    using T by simp
  have ch: "successively root_next (head_ranges h)" using T nl by (cases "HasLastSegment h") auto
  show "unat (hh_ReachableSegmentCount (hd_Header h)) = range_count (head_ranges h)"
    using T nl by (cases "HasLastSegment h") auto
  show "rng_ordered (head_ranges h)"
    using root_chain(2)[OF ok ch] by (cases "head_ranges h = []") (auto simp: rng_ordered_def)
  show "tiles rng_lo rng_hi (unat (hh_OldestLSN (hd_Header h))) (head_ranges h) (unat (hh_NextLSN (hd_Header h)))"
  proof (cases "head_ranges h = []")
    case True
    then show ?thesis using T by (cases "HasLastSegment h") auto
  next
    case False
    then have has: "HasLastSegment h" using nl by blast
    with T False have "rr_seqLo (hd (head_ranges h)) = hh_OldestLSN (hd_Header h)"
      "rr_seqHi (last (head_ranges h)) = le_LastLSN (hd_LastSegment h)" by simp_all
    then show ?thesis using root_chain(1)[OF ok ch False] nx[OF has] by (simp add: rng_lo_def rng_hi_def)
  qed
qed

end
