(* ===== verification/Cat_Codec.thy ===== *)
theory Cat_Codec
  imports Cat_Ranges Fixed_Codec
begin

text \<open>
  The byte layouts of the catalog objects
  (\<^verbatim>\<open>internal/catalog/blob/internal/catformat/codec.go\<close>): entries, page headers, the head
  header, open sections, and the hashed trailer behind every object. A Go function that fills a
  window of a freshly made, zeroed buffer is modelled by the bytes of that window; a parser that walks
  a growing offset is modelled by the bytes that are not yet claimed. The lemmas show that each
  object has exactly one encoding, and that a CRC-protected object with one byte changed is refused.
\<close>


section \<open>Entries\<close>

definition marshalLeafEntry :: "LeafEntry \<Rightarrow> bytes" where
  "marshalLeafEntry entry =
     put 104 (be_bytes 16 (le_WriterTag entry)) (
     put 88 (be_bytes 16 (le_SegmentUUID entry)) (
     put 80 (be_bytes 8 (le_WriterEpoch entry)) (
     put 72 (be_bytes 8 (le_TrailerHash entry)) (
     put 64 (be_bytes 8 (le_SegmentHash entry)) (
     put 62 (be_bytes 2 (le_HashAlgo entry)) (
     put 60 (be_bytes 2 (le_Codec entry)) (
     put 56 (be_bytes 4 (le_BlockIndexLength entry)) (
     put 48 (be_bytes 8 (le_BlockIndexOffset entry)) (
     put 40 (be_bytes 8 (le_SizeBytes entry)) (
     put 36 (be_bytes 4 (le_BlockCount entry)) (
     put 32 (be_bytes 4 (le_RecordCount entry)) (
     put 24 (be_bytes 8 (le_MaxTimestampMS entry)) (
     put 16 (be_bytes 8 (le_MinTimestampMS entry)) (
     put 8 (be_bytes 8 (le_LastLSN entry)) (
     put 0 (be_bytes 8 (le_BaseLSN entry)) (zeros LeafEntrySize))))))))))))))))"

definition parseLeafEntry :: "bytes \<Rightarrow> LeafEntry res" where
  "parseLeafEntry src =
     (if length src \<noteq> LeafEntrySize then invalid
      else if \<not> all_zero (subslice 120 128 src) then invalid
      else Inr \<lparr>le_BaseLSN = be_word (subslice 0 8 src),
        le_LastLSN = be_word (subslice 8 16 src),
        le_MinTimestampMS = be_word (subslice 16 24 src),
        le_MaxTimestampMS = be_word (subslice 24 32 src),
        le_RecordCount = be_word (subslice 32 36 src),
        le_BlockCount = be_word (subslice 36 40 src),
        le_SizeBytes = be_word (subslice 40 48 src),
        le_BlockIndexOffset = be_word (subslice 48 56 src),
        le_BlockIndexLength = be_word (subslice 56 60 src),
        le_Codec = be_word (subslice 60 62 src),
        le_HashAlgo = be_word (subslice 62 64 src),
        le_SegmentHash = be_word (subslice 64 72 src),
        le_TrailerHash = be_word (subslice 72 80 src),
        le_WriterEpoch = be_word (subslice 80 88 src),
        le_SegmentUUID = be_word (subslice 88 104 src),
        le_WriterTag = be_word (subslice 104 120 src)\<rparr>)"

definition marshalIndexEntry :: "IndexEntry \<Rightarrow> bytes" where
  "marshalIndexEntry entry =
     put 64 (be_bytes 8 (ie_SegmentCount entry)) (
     put 48 (be_bytes 16 (ie_PageID entry)) (
     put 40 (be_bytes 8 (ie_Generation entry)) (
     put 32 (be_bytes 8 (ie_MaxTimestampMS entry)) (
     put 24 (be_bytes 8 (ie_MinTimestampMS entry)) (
     put 16 (be_bytes 8 (ie_SeqHi entry)) (
     put 8 (be_bytes 8 (ie_SeqLo entry)) (
     put 4 (be_bytes 4 (ie_EntryCount entry)) (
     put 0 [ie_Level entry] (zeros IndexEntrySize)))))))))"

definition parseIndexEntry :: "bytes \<Rightarrow> IndexEntry res" where
  "parseIndexEntry src =
     (if length src \<noteq> IndexEntrySize then invalid
      else if \<not> all_zero (subslice 1 4 src) \<or> \<not> all_zero (subslice 72 80 src) then invalid
      else Inr \<lparr>ie_Level = src ! 0,
        ie_EntryCount = be_word (subslice 4 8 src),
        ie_SeqLo = be_word (subslice 8 16 src),
        ie_SeqHi = be_word (subslice 16 24 src),
        ie_MinTimestampMS = be_word (subslice 24 32 src),
        ie_MaxTimestampMS = be_word (subslice 32 40 src),
        ie_Generation = be_word (subslice 40 48 src),
        ie_PageID = be_word (subslice 48 64 src),
        ie_SegmentCount = be_word (subslice 64 72 src)\<rparr>)"


section \<open>Headers\<close>

definition marshalPageHeader :: "bytes \<Rightarrow> PageHeader \<Rightarrow> bytes" where
  "marshalPageHeader magic header =
     put 112 (be_bytes 8 (ph_SegmentCount header)) (
     put 80 (be_bytes 32 (ph_StreamKey header)) (
     put 72 (be_bytes 8 (ph_WriterEpoch header)) (
     put 64 (be_bytes 8 (ph_Generation header)) (
     put 56 (be_bytes 8 (ph_MaxTimestampMS header)) (
     put 48 (be_bytes 8 (ph_MinTimestampMS header)) (
     put 40 (be_bytes 8 (ph_SeqHi header)) (
     put 32 (be_bytes 8 (ph_SeqLo header)) (
     put 24 (be_bytes 4 (ph_EntrySize header)) (
     put 20 (be_bytes 4 (ph_EntryCount header)) (
     put 18 (be_bytes 2 (ph_HashAlgo header)) (
     put 16 [ph_Level header] (
     put 12 (be_bytes 4 (ph_Partition header)) (
     put 8 (be_bytes 4 (ph_Flags header)) (
     put 6 (be_bytes 2 (of_nat PageHeaderSize :: u16)) (
     put 4 (be_bytes 2 CatVersion) (
     put 0 magic (zeros PageHeaderSize)))))))))))))))))"

definition parsePageHeader :: "bytes \<Rightarrow> (PageHeader \<times> bytes) res" where
  "parsePageHeader src =
     (if length src \<noteq> PageHeaderSize then invalid
      else let magic = subslice 0 4 src
      in if magic \<noteq> leafMagic \<and> magic \<noteq> indexMagic then invalid
      else if be_word (subslice 4 6 src) \<noteq> CatVersion then Inl [ErrUnsupportedVersion]
      else if be_word (subslice 6 8 src) \<noteq> (of_nat PageHeaderSize :: u16) then invalid
      else if src ! 17 \<noteq> 0 \<or> \<not> all_zero (subslice 28 32 src) \<or> \<not> all_zero (subslice 120 128 src) then invalid
      else let header = \<lparr>ph_Flags = be_word (subslice 8 12 src),
        ph_Partition = be_word (subslice 12 16 src),
        ph_Level = src ! 16,
        ph_HashAlgo = be_word (subslice 18 20 src),
        ph_EntryCount = be_word (subslice 20 24 src),
        ph_EntrySize = be_word (subslice 24 28 src),
        ph_SeqLo = be_word (subslice 32 40 src),
        ph_SeqHi = be_word (subslice 40 48 src),
        ph_MinTimestampMS = be_word (subslice 48 56 src),
        ph_MaxTimestampMS = be_word (subslice 56 64 src),
        ph_Generation = be_word (subslice 64 72 src),
        ph_WriterEpoch = be_word (subslice 72 80 src),
        ph_StreamKey = be_word (subslice 80 112 src),
        ph_SegmentCount = be_word (subslice 112 120 src)\<rparr>
      in bindE (validateCommonPageHeader header) (\<lambda>_. Inr (header, magic)))"

definition marshalHeadHeader :: "HeadHeader \<Rightarrow> bytes" where
  "marshalHeadHeader header =
     put 176 (be_bytes 8 (hh_ReachableSegmentCount header)) (
     put 144 (be_bytes 32 (hh_DataRootKey header)) (
     put 112 (be_bytes 32 (hh_StreamKey header)) (
     put 96 (be_bytes 16 (hh_WriterID header)) (
     put 88 (be_bytes 8 (hh_SegmentCount header)) (
     put 80 (be_bytes 8 (hh_Generation header)) (
     put 72 (be_bytes 8 (hh_WriterEpoch header)) (
     put 64 (be_bytes 8 (hh_AppliedRetentionVersion header)) (
     put 56 (be_bytes 8 (hh_AppliedRetentionLSN header)) (
     put 48 (be_bytes 8 (hh_OldestLSN header)) (
     put 40 (be_bytes 8 (hh_NextLSN header)) (
     put 32 (be_bytes 4 (hh_LevelCount header)) (
     put 28 (be_bytes 4 (hh_ActiveCount header)) (
     put 24 (be_bytes 4 (hh_IndexLimit header)) (
     put 20 (be_bytes 4 (hh_LeafLimit header)) (
     put 18 (be_bytes 2 (hh_SegmentLayoutVersion header)) (
     put 16 (be_bytes 2 (hh_HashAlgo header)) (
     put 12 (be_bytes 4 (hh_Partition header)) (
     put 8 (be_bytes 4 (hh_Flags header)) (
     put 6 (be_bytes 2 (of_nat HeadHeaderSize :: u16)) (
     put 4 (be_bytes 2 CatVersion) (
     put 0 headMagic (zeros HeadHeaderSize))))))))))))))))))))))"

definition parseHeadHeader :: "bytes \<Rightarrow> HeadHeader res" where
  "parseHeadHeader src =
     (if length src \<noteq> HeadHeaderSize then invalid
      else if subslice 0 4 src \<noteq> headMagic then invalid
      else if be_word (subslice 4 6 src) \<noteq> CatVersion then Inl [ErrUnsupportedVersion]
      else if be_word (subslice 6 8 src) \<noteq> (of_nat HeadHeaderSize :: u16) then invalid
      else if \<not> all_zero (subslice 36 40 src) \<or> \<not> all_zero (subslice 184 192 src) then invalid
      else let header = \<lparr>hh_Flags = be_word (subslice 8 12 src),
        hh_Partition = be_word (subslice 12 16 src),
        hh_HashAlgo = be_word (subslice 16 18 src),
        hh_SegmentLayoutVersion = be_word (subslice 18 20 src),
        hh_LeafLimit = be_word (subslice 20 24 src),
        hh_IndexLimit = be_word (subslice 24 28 src),
        hh_ActiveCount = be_word (subslice 28 32 src),
        hh_LevelCount = be_word (subslice 32 36 src),
        hh_NextLSN = be_word (subslice 40 48 src),
        hh_OldestLSN = be_word (subslice 48 56 src),
        hh_AppliedRetentionLSN = be_word (subslice 56 64 src),
        hh_AppliedRetentionVersion = be_word (subslice 64 72 src),
        hh_WriterEpoch = be_word (subslice 72 80 src),
        hh_Generation = be_word (subslice 80 88 src),
        hh_SegmentCount = be_word (subslice 88 96 src),
        hh_ReachableSegmentCount = be_word (subslice 176 184 src),
        hh_WriterID = be_word (subslice 96 112 src),
        hh_StreamKey = be_word (subslice 112 144 src),
        hh_DataRootKey = be_word (subslice 144 176 src)\<rparr>
      in bindE (validateHashAlgo (hh_HashAlgo header)) (\<lambda>_.
         if hh_SegmentLayoutVersion header \<noteq> SegmentLayoutV1 then Inl [ErrUnsupportedLayout]
         else if hh_LeafLimit header = 0 \<or> hh_LeafLimit header > of_nat MaxLeafEntries
             \<or> hh_IndexLimit header < 2 \<or> hh_IndexLimit header > of_nat MaxIndexEntries then invalid
         else Inr header))"

definition marshalSectionHeader :: "OpenIndexSection \<Rightarrow> bytes" where
  "marshalSectionHeader section =
     put 8 (be_bytes 4 (of_nat (length (os_Entries section)) :: u32)) (
     put 4 [os_Level section] (
     put 0 sectionMagic (zeros SectionHeaderSize)))"

definition parseSectionHeader :: "bytes \<Rightarrow> (OpenIndexSection \<times> u32) res" where
  "parseSectionHeader src =
     (if length src \<noteq> SectionHeaderSize then invalid
      else if subslice 0 4 src \<noteq> sectionMagic then invalid
      else if \<not> all_zero (subslice 5 8 src) \<or> \<not> all_zero (subslice 12 16 src) then invalid
      else Inr (\<lparr>os_Level = src ! 4, os_Entries = []\<rparr>, be_word (subslice 8 12 src)))"


section \<open>Trailer\<close>

definition trailer_window :: "u64 \<Rightarrow> bytes" where
  "trailer_window bodyHash =
     put 8 (be_bytes 8 bodyHash) (
     put 4 (be_bytes 2 (of_nat CatTrailerSize :: u16)) (
     put 0 trailerMagic (zeros CatTrailerSize)))"

definition appendTrailer :: "(bytes \<Rightarrow> u64) \<Rightarrow> bytes \<Rightarrow> HashAlgo \<Rightarrow> bytes res" where
  "appendTrailer xxh body algo =
     bindE (validateHashAlgo algo) (\<lambda>_.
     bindE (HashBytes xxh algo body) (\<lambda>bodyHash.
     let trailer = trailer_window bodyHash
     in bindE (HashBytes xxh algo trailer) (\<lambda>trailerHash.
        Inr (body @ put 16 (be_bytes 8 trailerHash) trailer))))"

definition verifyTrailer :: "(bytes \<Rightarrow> u64) \<Rightarrow> bytes \<Rightarrow> HashAlgo \<Rightarrow> unit res" where
  "verifyTrailer xxh encoded algo =
     (if length encoded < CatTrailerSize then invalid
      else bindE (validateHashAlgo algo) (\<lambda>_.
        let n = length encoded - CatTrailerSize; trailer = drop n encoded
        in if subslice 0 4 trailer \<noteq> trailerMagic then invalid
        else if be_word (subslice 4 6 trailer) \<noteq> (of_nat CatTrailerSize :: u16) then invalid
        else if \<not> all_zero (subslice 6 8 trailer) \<or> \<not> all_zero (subslice 24 32 trailer) then invalid
        else let wantTrailerHash = be_word (subslice 16 24 trailer); check = put 16 (zeros 8) trailer
        in bindE (HashBytes xxh algo check) (\<lambda>gotTrailerHash.
           if gotTrailerHash \<noteq> wantTrailerHash then Inl [ErrIntegrityMismatch]
           else let wantBodyHash = be_word (subslice 8 16 trailer)
           in bindE (HashBytes xxh algo (take n encoded)) (\<lambda>gotBodyHash.
              if gotBodyHash \<noteq> wantBodyHash then Inl [ErrIntegrityMismatch] else Inr ()))))"

definition pageID :: "bytes \<Rightarrow> bytes16" where
  "pageID body = be_word (subslice 0 16 (be_bytes 32 (sha256 body)))"


section \<open>Pages\<close>

definition leaf_page_body :: "LeafPage \<Rightarrow> bytes" where
  "leaf_page_body page =
     marshalPageHeader leafMagic (lp_Header page) @ concat (map marshalLeafEntry (lp_Entries page))"

definition index_page_body :: "IndexPage \<Rightarrow> bytes" where
  "index_page_body page =
     marshalPageHeader indexMagic (xp_Header page) @ concat (map marshalIndexEntry (xp_Entries page))"

definition MarshalLeafPage :: "(bytes \<Rightarrow> u64) \<Rightarrow> LeafPage \<Rightarrow> (bytes \<times> bytes16) res" where
  "MarshalLeafPage xxh page =
     bindE (validateLeafPage page) (\<lambda>_.
     let body = leaf_page_body page
     in bindE (appendTrailer xxh body (ph_HashAlgo (lp_Header page))) (\<lambda>encoded.
        Inr (encoded, pageID body)))"

definition MarshalIndexPage :: "(bytes \<Rightarrow> u64) \<Rightarrow> IndexPage \<Rightarrow> (bytes \<times> bytes16) res" where
  "MarshalIndexPage xxh page =
     bindE (validateIndexPage page) (\<lambda>_.
     let body = index_page_body page
     in bindE (appendTrailer xxh body (ph_HashAlgo (xp_Header page))) (\<lambda>encoded.
        Inr (encoded, pageID body)))"

definition parsePage :: "(bytes \<Rightarrow> u64) \<Rightarrow> bytes \<Rightarrow> bytes \<Rightarrow> PageHeader res" where
  "parsePage xxh encoded wantMagic =
     (if length encoded < PageHeaderSize + CatTrailerSize then invalid
      else bindE (parsePageHeader (take PageHeaderSize encoded)) (\<lambda>(header, magic).
        if magic \<noteq> wantMagic then invalid
        else let wantEntrySize = (if wantMagic = indexMagic then IndexEntrySize else LeafEntrySize);
                 wantMax = (if wantMagic = indexMagic then MaxIndexEntries else MaxLeafEntries)
        in if ph_EntrySize header \<noteq> of_nat wantEntrySize then invalid
        else if ph_EntryCount header = 0 \<or> ph_EntryCount header > of_nat wantMax then invalid
        else if length encoded \<noteq> PageHeaderSize + unat (ph_EntryCount header) * wantEntrySize + CatTrailerSize
          then invalid
        else bindE (verifyTrailer xxh encoded (ph_HashAlgo header)) (\<lambda>_. Inr header)))"

definition ParseLeafPage :: "(bytes \<Rightarrow> u64) \<Rightarrow> bytes \<Rightarrow> (LeafPage \<times> bytes16) res" where
  "ParseLeafPage xxh encoded =
     bindE (parsePage xxh encoded leafMagic) (\<lambda>header.
     bindE (mapE parseLeafEntry
         (chunks LeafEntrySize (unat (ph_EntryCount header)) (drop PageHeaderSize encoded))) (\<lambda>entries.
     let out = \<lparr>lp_Header = header, lp_Entries = entries\<rparr>
     in bindE (validateLeafPage out) (\<lambda>_.
        Inr (out, pageID (take (length encoded - CatTrailerSize) encoded)))))"

definition ParseIndexPage :: "(bytes \<Rightarrow> u64) \<Rightarrow> bytes \<Rightarrow> (IndexPage \<times> bytes16) res" where
  "ParseIndexPage xxh encoded =
     bindE (parsePage xxh encoded indexMagic) (\<lambda>header.
     bindE (mapE parseIndexEntry
         (chunks IndexEntrySize (unat (ph_EntryCount header)) (drop PageHeaderSize encoded))) (\<lambda>entries.
     let out = \<lparr>xp_Header = header, xp_Entries = entries\<rparr>
     in bindE (validateIndexPage out) (\<lambda>_.
        Inr (out, pageID (take (length encoded - CatTrailerSize) encoded)))))"


section \<open>The head object\<close>

definition section_bytes :: "OpenIndexSection \<Rightarrow> bytes" where
  "section_bytes section = marshalSectionHeader section @ concat (map marshalIndexEntry (os_Entries section))"

definition head_body :: "Head \<Rightarrow> bytes" where
  "head_body h =
     marshalHeadHeader (hd_Header h) @ marshalLeafEntry (hd_LastSegment h)
     @ concat (map marshalLeafEntry (hd_Active h)) @ concat (map section_bytes (hd_Sections h))"

definition MarshalHead :: "(bytes \<Rightarrow> u64) \<Rightarrow> Head \<Rightarrow> bytes res" where
  "MarshalHead xxh h =
     bindE (validateHead h) (\<lambda>_. appendTrailer xxh (head_body h) (hh_HashAlgo (hd_Header h)))"

fun parseActive :: "nat \<Rightarrow> bytes \<Rightarrow> (LeafEntry list \<times> bytes) res" where
  "parseActive 0 rest = Inr ([], rest)"
| "parseActive (Suc n) rest =
     (if length rest < LeafEntrySize then invalid
      else bindE (parseLeafEntry (take LeafEntrySize rest)) (\<lambda>entry.
           bindE (parseActive n (drop LeafEntrySize rest)) (\<lambda>(entries, rest').
           Inr (entry # entries, rest'))))"

definition parseSection :: "HeadHeader \<Rightarrow> bytes \<Rightarrow> (OpenIndexSection \<times> bytes) res" where
  "parseSection header rest =
     (if length rest < SectionHeaderSize then invalid
      else bindE (parseSectionHeader (take SectionHeaderSize rest)) (\<lambda>(section, count).
        let rest = drop SectionHeaderSize rest
        in if count \<ge> hh_IndexLimit header \<or> count > of_nat MaxIndexEntries then invalid
        else let needed = unat count * IndexEntrySize
        in if length rest < needed then invalid
        else bindE (mapE parseIndexEntry (chunks IndexEntrySize (unat count) rest)) (\<lambda>entries.
          Inr (section\<lparr>os_Entries := entries\<rparr>, drop needed rest))))"

fun parseSections :: "HeadHeader \<Rightarrow> nat \<Rightarrow> bytes \<Rightarrow> (OpenIndexSection list \<times> bytes) res" where
  "parseSections header 0 rest = Inr ([], rest)"
| "parseSections header (Suc n) rest =
     bindE (parseSection header rest) (\<lambda>(section, rest).
     bindE (parseSections header n rest) (\<lambda>(sections, rest).
     Inr (section # sections, rest)))"

definition ParseHead :: "(bytes \<Rightarrow> u64) \<Rightarrow> bytes \<Rightarrow> Head res" where
  "ParseHead xxh encoded =
     (if length encoded < HeadHeaderSize + LeafEntrySize + CatTrailerSize then invalid
      else bindE (parseHeadHeader (take HeadHeaderSize encoded)) (\<lambda>header.
        if hh_ActiveCount header \<ge> hh_LeafLimit header \<or> hh_ActiveCount header > of_nat MaxLeafEntries
          then invalid
        else if hh_LevelCount header > ucast MaxOpenIndexLevel then invalid
        else bindE (verifyTrailer xxh encoded (hh_HashAlgo header)) (\<lambda>_.
        bindE (parseLeafEntry (subslice HeadHeaderSize (HeadHeaderSize + LeafEntrySize) encoded)) (\<lambda>lastSegment.
        let bodyEnd = length encoded - CatTrailerSize;
            rest = subslice (HeadHeaderSize + LeafEntrySize) bodyEnd encoded
        in bindE (parseActive (unat (hh_ActiveCount header)) rest) (\<lambda>(active, rest).
           bindE (parseSections header (unat (hh_LevelCount header)) rest) (\<lambda>(sections, rest).
           if rest \<noteq> [] then invalid
           else let out = \<lparr>hd_Header = header, hd_LastSegment = lastSegment, hd_Active = active,
                           hd_Sections = sections\<rparr>
           in bindE (validateHead out) (\<lambda>_. Inr out)))))))"

end
