(* ===== verification/Key_Layout.thy ===== *)
theory Key_Layout
  imports Go_Std
begin

text \<open>
  Object keys (\<^verbatim>\<open>internal/keylayout\<close>): canonical stream identities, the bucket a stream
  partition hashes to, and the key of a segment object. The lemmas show that canonical identities
  are stable and that the keys of one stream never collide.
\<close>


section \<open>Stream identities\<close>

definition BucketHexLen :: nat where "BucketHexLen = 3"
definition bucketMask :: u32 where "bucketMask = push_bit 12 1 - 1"
definition MaxStreamIDBytes :: nat where "MaxStreamIDBytes = 512"

definition NormalizeStreamID :: "string \<Rightarrow> string" where
  "NormalizeStreamID streamID = trim_slash streamID"

text \<open>
  \<^verbatim>\<open>for _, r := range s\<close>: the runes of a string, an ill-formed byte giving U+FFFD.
\<close>

function range_runes :: "nat list \<Rightarrow> nat list" where
  "range_runes bs =
     (if bs = [] then []
      else case decode_rune bs of
        None \<Rightarrow> 65533 # range_runes (drop 1 bs)
      | Some (r, n) \<Rightarrow> r # range_runes (drop n bs))"
  by pat_completeness auto
termination
  by (relation "measure length") (auto dest: decode_rune_advances)

declare range_runes.simps [simp del]

definition CanonicalStreamID :: "string \<Rightarrow> string res" where
  "CanonicalStreamID streamID =
     (if utf8_runes streamID = None then Inl [ErrInvalidStreamID]
      else let streamID = NormalizeStreamID streamID
      in if streamID = [] then Inl [ErrInvalidStreamID]
      else if length streamID > MaxStreamIDBytes then Inl [ErrInvalidStreamID]
      else if list_ex is_control (range_runes (map of_char streamID)) then Inl [ErrInvalidStreamID]
      else if list_ex (\<lambda>segment. segment = [] \<or> segment = ''.'' \<or> segment = ''..'') (split_slash streamID)
        then Inl [ErrInvalidStreamID]
      else Inr streamID)"


section \<open>Keys\<close>

definition Checksum :: "string \<Rightarrow> u32 \<Rightarrow> u32" where
  "Checksum streamID part =
     (let streamID = NormalizeStreamID streamID;
          h = crc_update 0 (be_bytes 4 (of_nat (length streamID) :: u32));
          h = crc_update h (bytes_of_string streamID)
      in crc_update h (be_bytes 4 part))"

definition Bucket :: "string \<Rightarrow> u32 \<Rightarrow> string" where
  "Bucket streamID part =
     pad0 BucketHexLen (hexadecimal (unat (Checksum streamID part AND bucketMask)))"

definition StreamKey :: "string \<Rightarrow> string" where
  "StreamKey streamID =
     hex_EncodeToString (be_bytes 32 (sha256 (bytes_of_string (NormalizeStreamID streamID))))"

definition SegmentObjectKey ::
  "string \<Rightarrow> string \<Rightarrow> u32 \<Rightarrow> u64 \<Rightarrow> u64 \<Rightarrow> bytes16 \<Rightarrow> string" where
  "SegmentObjectKey dataRoot streamID part baseLSN writerEpoch segmentUUID =
     (let streamID = NormalizeStreamID streamID;
          parts = [trim_slash dataRoot, ''segments'', Bucket streamID part];
          parts = (if streamID \<noteq> [] then parts @ [''streams'', StreamKey streamID] else parts);
          parts = parts @ [''p'' @ fmt_d 8 part]
      in join_slash parts @ ''/seg-'' @ fmt_d 20 baseLSN @ ''-e'' @ fmt_d 20 writerEpoch @ ''-''
         @ hex_EncodeToString (be_bytes 16 segmentUUID) @ ''.plseg'')"


section \<open>Canonical identities are stable\<close>

lemma runes_range: "runes bs = Some rs \<Longrightarrow> range_runes bs = rs"
proof (induction bs arbitrary: rs rule: runes.induct)
  case (1 bs)
  show ?case
  proof (cases "bs = []")
    case True
    with 1 show ?thesis by (simp add: runes.simps range_runes.simps)
  next
    case False
    from 1(2) False obtain r n where d: "decode_rune bs = Some (r, n)"
      by (subst (asm) runes.simps) (auto split: option.splits)
    from 1(2) False d obtain rs' where rs': "runes (drop n bs) = Some rs'" "rs = r # rs'"
      by (subst (asm) runes.simps) auto
    from 1(1)[OF False d] rs' have "range_runes (drop n bs) = rs'" by simp
    with False d rs'(2) show ?thesis by (subst range_runes.simps) simp
  qed
qed

lemma decode_slash: "decode_rune (47 # bs) = Some (47, 1)"
  by (simp add: decode_rune_def)

lemma runes_slash: "runes (47 # bs) = map_option (Cons 47) (runes bs)"
  by (subst runes.simps) (simp add: decode_slash)

text \<open>A slash is never a byte of a longer rune, so cutting it off leaves a valid string.\<close>

lemma decode_snoc_slash:
  assumes "bs \<noteq> []"
  shows "decode_rune (bs @ [47]) = decode_rune bs"
proof -
  consider (1) a where "bs = [a]" | (2) a b where "bs = [a, b]" | (3) a b c where "bs = [a, b, c]"
    | (4) a b c d ds where "bs = a # b # c # d # ds"
    using assms by (metis list.exhaust)
  then show ?thesis
    by cases (auto simp: decode_rune_def Let_def is_cont_def nth_append)
qed

lemma decode_rune_width: "decode_rune bs = Some (r, n) \<Longrightarrow> bs \<noteq> [] \<Longrightarrow> n \<le> length bs"
  by (cases bs) (simp_all add: decode_rune_def Let_def split: if_splits)

lemma runes_snoc_slash: "runes (bs @ [47]) = map_option (\<lambda>rs. rs @ [47]) (runes bs)"
proof (induction bs rule: runes.induct)
  case (1 bs)
  show ?case
  proof (cases "bs = []")
    case True
    then show ?thesis using runes_slash[of "[]"] by (simp add: runes.simps[of "[]"])
  next
    case False
    show ?thesis
    proof (cases "decode_rune bs")
      case None
      then show ?thesis using False decode_snoc_slash[OF False] by (simp add: runes.simps)
    next
      case (Some p)
      obtain r n where d: "decode_rune bs = Some (r, n)" using Some by (cases p) auto
      have "drop n (bs @ [47]) = drop n bs @ [47]" using decode_rune_width[OF d False] by simp
      then show ?thesis
        using 1(1)[OF False d] False d decode_snoc_slash[OF False]
        by (simp add: runes.simps[of "bs @ [47]"] runes.simps[of bs] option.map_comp o_def)
    qed
  qed
qed

lemma utf8_slash [simp]:
  "utf8_runes (CHR ''/'' # s) = None \<longleftrightarrow> utf8_runes s = None"
  "utf8_runes (s @ [CHR ''/'']) = None \<longleftrightarrow> utf8_runes s = None"
  by (simp_all add: utf8_runes_def runes_slash runes_snoc_slash)

lemma utf8_trim [simp]: "utf8_runes (trim_slash s) = None \<longleftrightarrow> utf8_runes s = None"
proof -
  have l: "utf8_runes (dropWhile (\<lambda>c. c = CHR ''/'') t) = None \<longleftrightarrow> utf8_runes t = None" for t
    by (induction t) auto
  have r: "utf8_runes (rev (dropWhile (\<lambda>c. c = CHR ''/'') t)) = None \<longleftrightarrow> utf8_runes (rev t) = None" for t
    by (induction t) auto
  show ?thesis by (simp add: trim_slash_def l r)
qed

lemma trim_slash_ends:
  assumes "trim_slash s \<noteq> []"
  shows "hd (trim_slash s) \<noteq> CHR ''/''" "last (trim_slash s) \<noteq> CHR ''/''"
proof -
  let ?P = "\<lambda>c. c = CHR ''/''"
  have "dropWhile ?P (trim_slash s) = trim_slash s" by (simp add: trim_slash_def dropWhile_rtrim)
  then show "hd (trim_slash s) \<noteq> CHR ''/''" using assms hd_dropWhile[of ?P "trim_slash s"] by metis
  have "dropWhile ?P (rev (dropWhile ?P s)) \<noteq> []" using assms by (simp add: trim_slash_def)
  then show "last (trim_slash s) \<noteq> CHR ''/''"
    using hd_dropWhile[of ?P "rev (dropWhile ?P s)"] by (simp add: trim_slash_def last_rev)
qed

text \<open>The path an accepted stream identity contributes to a key.\<close>

definition path_segment :: "string \<Rightarrow> bool" where
  "path_segment s \<longleftrightarrow> s \<noteq> [] \<and> s \<noteq> ''.'' \<and> s \<noteq> ''..'' \<and> CHR ''/'' \<notin> set s"

lemma join_split: "join_slash (split_slash s) = s"
proof (induction s)
  case (Cons c s)
  have ne: "split_slash s \<noteq> []" by (cases s) (auto split: list.splits)
  show ?case
  proof (cases "split_slash s")
    case (Cons t ts)
    then show ?thesis using Cons.IH by (cases ts) auto
  qed (use ne in simp)
qed simp

lemma split_no_slash: "t \<in> set (split_slash s) \<Longrightarrow> CHR ''/'' \<notin> set t"
  by (induction s arbitrary: t) (auto split: if_splits list.splits)

lemma CanonicalStreamID_Inr:
  assumes "CanonicalStreamID s = Inr t"
  shows "t = trim_slash s" "t \<noteq> []" "utf8_runes t \<noteq> None" "length t \<le> 512"
    "list_all path_segment (split_slash t)" "list_all (\<lambda>r. \<not> is_control r) (the (utf8_runes t))"
    "CanonicalStreamID t = Inr t"
proof -
  note D = assms[unfolded CanonicalStreamID_def Let_def NormalizeStreamID_def MaxStreamIDBytes_def]
  show t: "t = trim_slash s" using D by (auto split: if_splits)
  show "t \<noteq> []" "length t \<le> 512" using D t by (auto split: if_splits)
  show v: "utf8_runes t \<noteq> None" using D t by (auto split: if_splits)
  show "list_all path_segment (split_slash t)"
    using D t by (auto simp: path_segment_def list_all_iff list_ex_iff split_no_slash split: if_splits)
  obtain rs where rs: "runes (map of_char t) = Some rs" using v by (auto simp: utf8_runes_def)
  show "list_all (\<lambda>r. \<not> is_control r) (the (utf8_runes t))"
    using D t runes_range[OF rs] rs by (auto simp: utf8_runes_def list_all_iff list_ex_iff split: if_splits)
  show "CanonicalStreamID t = Inr t"
    using D t by (simp add: CanonicalStreamID_def Let_def NormalizeStreamID_def MaxStreamIDBytes_def split: if_splits)
qed


text \<open>C16: a canonical stream identity is a valid UTF-8 string of at most 512 bytes without control
  characters, whose path segments are all non-empty and none of them is a dot or a double dot; it is
  stable (canonicalising it again returns it), and it has the bucket and the stream key of the
  identity it came from.\<close>

theorem CanonicalStreamID_stable:
  assumes "CanonicalStreamID s = Inr t"
  shows "CanonicalStreamID t = Inr t \<and> utf8_runes t \<noteq> None \<and> length t \<le> 512
    \<and> list_all path_segment (split_slash t) \<and> list_all (\<lambda>r. \<not> is_control r) (the (utf8_runes t))
    \<and> Bucket t part = Bucket s part \<and> StreamKey t = StreamKey s"
proof -
  note C = CanonicalStreamID_Inr[OF assms]
  have "NormalizeStreamID t = NormalizeStreamID s" by (simp add: NormalizeStreamID_def C(1))
  then have "Bucket t part = Bucket s part" "StreamKey t = StreamKey s"
    by (simp_all add: Bucket_def Checksum_def StreamKey_def)
  then show ?thesis using C by blast
qed

lemma sample_stream: "CanonicalStreamID ''/orders/eu/'' = Inr ''orders/eu''"
  by code_simp

theorem CanonicalStreamID_stable_witness:
  "CanonicalStreamID ''orders/eu'' = Inr ''orders/eu'' \<and> Bucket ''orders/eu'' 7 = Bucket ''/orders/eu/'' 7"
  using CanonicalStreamID_stable[OF sample_stream] by blast


section \<open>Keys do not collide\<close>

lemma length_hexadecimal: "n < 16 ^ k \<Longrightarrow> 0 < k \<Longrightarrow> length (hexadecimal n) \<le> k"
proof (induction n arbitrary: k rule: hexadecimal.induct)
  case (1 n)
  show ?case
  proof (cases "n < 16")
    case True
    then show ?thesis using 1 by (subst hexadecimal.simps) simp
  next
    case False
    with 1 obtain m where k: "k = Suc m" "0 < m" by (cases k; cases "k - 1") auto
    then have "n div 16 < 16 ^ m" using 1(2) by (simp add: less_mult_imp_div_less mult.commute)
    with 1 False k have "length (hexadecimal (n div 16)) \<le> m" by blast
    with False k show ?thesis by (subst hexadecimal.simps) simp
  qed
qed

lemma length_Bucket [simp]: "length (Bucket s part) = 3"
proof -
  have m: "bucketMask = mask 12" by (simp add: bucketMask_def mask_eq_exp_minus_1)
  have "unat (Checksum s part AND bucketMask) < 16 ^ 3"
    by (simp add: m flip: take_bit_eq_mask) (simp add: unsigned_take_bit_eq take_bit_nat_less_exp[of 12, simplified])
  then show ?thesis
    using length_hexadecimal[of "unat (Checksum s part AND bucketMask)" 3]
    by (simp add: Bucket_def pad0_def BucketHexLen_def)
qed

lemma length_StreamKey [simp]: "length (StreamKey s) = 64"
  by (simp add: StreamKey_def)

lemma hex_digit_inject: "a < 16 \<Longrightarrow> b < 16 \<Longrightarrow> hex_digit a = hex_digit b \<longleftrightarrow> a = b"
proof -
  assume "a < 16" "b < 16"
  then have "hex_digit a = hex_digit b \<longleftrightarrow> (of_char (hex_digit a) :: nat) = of_char (hex_digit b)"
    by simp
  also have "\<dots> \<longleftrightarrow> a = b" using \<open>a < 16\<close> \<open>b < 16\<close> by (auto simp: hex_digit_def split: if_splits)
  finally show ?thesis .
qed

lemma hex_inject [simp]: "hex_EncodeToString xs = hex_EncodeToString ys \<longleftrightarrow> xs = ys"
proof (induction xs arbitrary: ys)
  case Nil
  show ?case by (cases ys) (simp_all add: hex_EncodeToString_def)
next
  case (Cons x xs)
  show ?case
  proof (cases ys)
    case Nil
    then show ?thesis by (simp add: hex_EncodeToString_def)
  next
    case (Cons y zs)
    have lt: "unat x < 256" "unat y < 256"
      using unsigned_less[of x, where ?'a = nat] unsigned_less[of y, where ?'a = nat] by simp_all
    have "hex_digit (unat x div 16) = hex_digit (unat y div 16) \<and> hex_digit (unat x mod 16) = hex_digit (unat y mod 16)
        \<longleftrightarrow> unat x div 16 = unat y div 16 \<and> unat x mod 16 = unat y mod 16"
      using lt by (simp add: hex_digit_inject less_mult_imp_div_less)
    also have "\<dots> \<longleftrightarrow> x = y" by (metis div_mult_mod_eq word_unat_eq_iff)
    finally show ?thesis using Cons.IH[of zs] Cons by (simp add: hex_EncodeToString_def) blast
  qed
qed

lemma be_bytes16_inject: "be_bytes 16 (u :: bytes16) = be_bytes 16 v \<longleftrightarrow> u = v"
  by (metis be_word_field(4))

lemma join_slash_snoc: "ps \<noteq> [] \<Longrightarrow> join_slash (ps @ [p]) = join_slash ps @ ''/'' @ p"
  by (induction ps rule: join_slash.induct) auto

lemma length_join_slash: "ps \<noteq> [] \<Longrightarrow> length (join_slash ps) + 1 = sum_list (map length ps) + length ps"
  by (induction ps rule: join_slash.induct) auto

definition segment_name :: "u64 \<Rightarrow> u64 \<Rightarrow> bytes16 \<Rightarrow> string" where
  "segment_name baseLSN writerEpoch segmentUUID =
     ''/seg-'' @ fmt_d 20 baseLSN @ ''-e'' @ fmt_d 20 writerEpoch @ ''-''
       @ hex_EncodeToString (be_bytes 16 segmentUUID) @ ''.plseg''"

lemma segment_name_inject: "segment_name b e u = segment_name b' e' u' \<longleftrightarrow> b = b' \<and> e = e' \<and> u = u'"
  by (auto simp: segment_name_def append_eq_append_conv be_bytes16_inject)

lemma length_segment_name [simp]: "length (segment_name b e u) = 86"
  by (simp add: segment_name_def)

lemma Bucket_trim [simp]: "Bucket (trim_slash s) part = Bucket s part"
  by (simp add: Bucket_def Checksum_def NormalizeStreamID_def)

lemma StreamKey_trim [simp]: "StreamKey (trim_slash s) = StreamKey s"
  by (simp add: StreamKey_def NormalizeStreamID_def)

lemma SegmentObjectKey_eq:
  "SegmentObjectKey root s part b e u =
     join_slash ([trim_slash root, ''segments'', Bucket s part]
       @ (if trim_slash s \<noteq> [] then [''streams'', StreamKey s] else [])) @ ''/'' @ (''p'' @ fmt_d 8 part)
     @ segment_name b e u"
  unfolding SegmentObjectKey_def segment_name_def Let_def NormalizeStreamID_def
  by (simp only: if_distrib[of join_slash] if_distribR split: if_split)
    (simp add: NormalizeStreamID_def Bucket_trim[of s, symmetric] del: Bucket_trim)

text \<open>C17: the segment objects of one stream under one data root never share a key: two keys are
  equal exactly when the partition, the base log sequence number, the writer epoch and the segment
  identifier are.\<close>

theorem SegmentObjectKey_injective:
  "SegmentObjectKey root s part b e u = SegmentObjectKey root s part' b' e' u'
     \<longleftrightarrow> part = part' \<and> b = b' \<and> e = e' \<and> u = u'"
proof -
  let ?J = "\<lambda>p. join_slash ([trim_slash root, ''segments'', Bucket s p]
       @ (if trim_slash s \<noteq> [] then [''streams'', StreamKey s] else []))"
  have len: "length (?J p) = length (?J q)" for p q
    by (simp add: length_Bucket)
  have "SegmentObjectKey root s part b e u = SegmentObjectKey root s part' b' e' u'
     \<longleftrightarrow> ?J part @ ''/'' @ (''p'' @ fmt_d 8 part) = ?J part' @ ''/'' @ (''p'' @ fmt_d 8 part')
        \<and> segment_name b e u = segment_name b' e' u'"
    unfolding SegmentObjectKey_eq append_assoc[symmetric] by (rule append_eq_append_conv) simp
  also have "?J part @ ''/'' @ (''p'' @ fmt_d 8 part) = ?J part' @ ''/'' @ (''p'' @ fmt_d 8 part')
      \<longleftrightarrow> ?J part = ?J part' \<and> part = part'"
    using len[of part part'] by (simp add: append_eq_append_conv)
  finally show ?thesis by (auto simp: segment_name_inject)
qed

end
