(* ===== verification/Cat_Config.thy ===== *)
theory Cat_Config
  imports Cat_Codec Key_Layout Partition_Meta
begin

text \<open>
  The identity of one catalog partition and the translation between segment references and the
  fixed-width entries of the catalog (\<^verbatim>\<open>catengine/config.go\<close> and
  \<^verbatim>\<open>validateConfigHead\<close> of \<^verbatim>\<open>catengine/tree.go\<close>): object paths, the check
  that a head belongs to the configuration, and the derived segment URI that a leaf entry leaves out.
\<close>


section \<open>Configuration and paths\<close>

definition defaultCatalogPrefix :: string where "defaultCatalogPrefix = ''catalog''"
definition defaultDataRoot :: string where "defaultDataRoot = ''objlog''"

record Config =
  cf_CatalogPrefix :: string
  cf_DataRoot :: string
  cf_StreamID :: string
  cf_Partition :: u32
  cf_LeafLimit :: u32
  cf_IndexLimit :: u32
  cf_HashAlgo :: HashAlgo
  cf_StreamKey :: bytes32
  cf_DataRootKey :: bytes32

definition NewConfig ::
  "string \<Rightarrow> string \<Rightarrow> string \<Rightarrow> u32 \<Rightarrow> u32 \<Rightarrow> u32 \<Rightarrow> HashAlgo \<Rightarrow> Config res" where
  "NewConfig catalogPrefix dataRoot streamID part leafLimit indexLimit hashAlgo =
     (let catalogPrefix = trim_slash catalogPrefix;
          catalogPrefix = (if catalogPrefix = [] then defaultCatalogPrefix else catalogPrefix)
      in bindE (if streamID \<noteq> [] then CanonicalStreamID streamID else Inr streamID) (\<lambda>streamID.
         if leafLimit = 0 \<or> leafLimit > of_nat MaxLeafEntries then Inl []
         else if indexLimit < 2 \<or> indexLimit > of_nat MaxIndexEntries then Inl []
         else bindE (HashAlgo_Validate hashAlgo) (\<lambda>_.
           let dataRoot = trim_slash dataRoot;
               dataRoot = (if dataRoot = [] then defaultDataRoot else dataRoot)
           in Inr \<lparr>cf_CatalogPrefix = catalogPrefix, cf_DataRoot = dataRoot, cf_StreamID = streamID,
                cf_Partition = part, cf_LeafLimit = leafLimit, cf_IndexLimit = indexLimit,
                cf_HashAlgo = hashAlgo, cf_StreamKey = sha256 (bytes_of_string streamID),
                cf_DataRootKey = sha256 (bytes_of_string dataRoot)\<rparr>)))"

definition partitionPrefix :: "Config \<Rightarrow> string" where
  "partitionPrefix c =
     (let parts = [cf_CatalogPrefix c, Bucket (cf_StreamID c) (cf_Partition c)];
          parts = (if cf_StreamID c \<noteq> [] then parts @ [''streams'', StreamKey (cf_StreamID c)] else parts);
          parts = parts @ [''p'' @ fmt_d 8 (cf_Partition c)]
      in join_slash parts)"

definition HeadPath :: "Config \<Rightarrow> string" where
  "HeadPath c = partitionPrefix c @ ''/head.plc''"

definition LeafPagePath :: "Config \<Rightarrow> IndexEntry \<Rightarrow> string" where
  "LeafPagePath c ref =
     partitionPrefix c @ ''/pages/l00/leaf-'' @ fmt_d 20 (ie_SeqHi ref) @ ''-'' @ fmt_d 20 (ie_SeqLo ref) @ ''-''
     @ fmt_d 20 (ie_Generation ref) @ ''-'' @ hex_EncodeToString (be_bytes 16 (ie_PageID ref)) @ ''.plc''"

definition IndexPagePath :: "Config \<Rightarrow> IndexEntry \<Rightarrow> string" where
  "IndexPagePath c ref =
     partitionPrefix c @ ''/pages/l'' @ fmt_d 2 (ie_Level ref) @ ''/index-l'' @ fmt_d 2 (ie_Level ref) @ ''-''
     @ fmt_d 20 (ie_SeqHi ref) @ ''-'' @ fmt_d 20 (ie_SeqLo ref) @ ''-''
     @ fmt_d 20 (ie_Generation ref) @ ''-'' @ hex_EncodeToString (be_bytes 16 (ie_PageID ref)) @ ''.plc''"

definition PagePath :: "Config \<Rightarrow> IndexEntry \<Rightarrow> string" where
  "PagePath c ref = (if ie_Level ref = 0 then LeafPagePath c ref else IndexPagePath c ref)"

definition SegmentURI :: "Config \<Rightarrow> LeafEntry \<Rightarrow> string" where
  "SegmentURI c entry =
     SegmentObjectKey (cf_DataRoot c) (cf_StreamID c) (cf_Partition c) (le_BaseLSN entry) (le_WriterEpoch entry)
       (le_SegmentUUID entry)"


section \<open>Heads and entries\<close>

definition validateConfigHead :: "Config \<Rightarrow> Head \<Rightarrow> unit res" where
  "validateConfigHead config h =
     (let header = hd_Header h
      in if hh_Partition header \<noteq> cf_Partition config \<or> hh_StreamKey header \<noteq> cf_StreamKey config
          \<or> hh_DataRootKey header \<noteq> cf_DataRootKey config then Inl []
      else if hh_LeafLimit header \<noteq> cf_LeafLimit config \<or> hh_IndexLimit header \<noteq> cf_IndexLimit config
          \<or> hh_HashAlgo header \<noteq> cf_HashAlgo config then Inl []
      else if hh_SegmentLayoutVersion header \<noteq> SegmentLayoutV1 then Inl []
      else Inr ())"

text \<open>\<^verbatim>\<open>ErrCorruptCatalog\<close> is the blob store's invalid-request sentinel.\<close>

abbreviation corrupt :: "goerr \<Rightarrow> goerr" where
  "corrupt err \<equiv> BlobErrInvalidRequest # err"

definition DecodeHead :: "(bytes \<Rightarrow> u64) \<Rightarrow> Config \<Rightarrow> bytes \<Rightarrow> Head res" where
  "DecodeHead xxh c body =
     bindE (map_err corrupt (ParseHead xxh body)) (\<lambda>h.
     bindE (map_err corrupt (validateConfigHead c h)) (\<lambda>_. Inr h))"

definition segmentRef :: "Config \<Rightarrow> LeafEntry \<Rightarrow> SegmentRef" where
  "segmentRef c entry =
     \<lparr>sr_URI = SegmentURI c entry, sr_StreamID = cf_StreamID c, sr_Partition = cf_Partition c,
      sr_WriterEpoch = le_WriterEpoch entry, sr_SegmentUUID = le_SegmentUUID entry,
      sr_WriterTag = le_WriterTag entry, sr_BaseLSN = le_BaseLSN entry, sr_LastLSN = le_LastLSN entry,
      sr_MinTimestampMS = le_MinTimestampMS entry, sr_MaxTimestampMS = le_MaxTimestampMS entry,
      sr_RecordCount = le_RecordCount entry, sr_BlockCount = le_BlockCount entry,
      sr_SizeBytes = le_SizeBytes entry, sr_BlockIndexOffset = le_BlockIndexOffset entry,
      sr_BlockIndexLength = le_BlockIndexLength entry, sr_Codec = le_Codec entry,
      sr_HashAlgo = le_HashAlgo entry, sr_SegmentHash = le_SegmentHash entry,
      sr_TrailerHash = le_TrailerHash entry\<rparr>"

definition leafEntry :: "Config \<Rightarrow> SegmentRef \<Rightarrow> LeafEntry res" where
  "leafEntry c segment =
     bindE (SegmentRef_Validate segment) (\<lambda>_.
     if sr_StreamID segment \<noteq> cf_StreamID c \<or> sr_Partition segment \<noteq> cf_Partition c then Inl []
     else if sr_WriterTag segment = 0 then Inl []
     else let entry = \<lparr>le_BaseLSN = sr_BaseLSN segment, le_LastLSN = sr_LastLSN segment,
            le_MinTimestampMS = sr_MinTimestampMS segment, le_MaxTimestampMS = sr_MaxTimestampMS segment,
            le_RecordCount = sr_RecordCount segment, le_BlockCount = sr_BlockCount segment,
            le_SizeBytes = sr_SizeBytes segment, le_BlockIndexOffset = sr_BlockIndexOffset segment,
            le_BlockIndexLength = sr_BlockIndexLength segment, le_Codec = sr_Codec segment,
            le_HashAlgo = sr_HashAlgo segment, le_SegmentHash = sr_SegmentHash segment,
            le_TrailerHash = sr_TrailerHash segment, le_WriterEpoch = sr_WriterEpoch segment,
            le_SegmentUUID = sr_SegmentUUID segment, le_WriterTag = sr_WriterTag segment\<rparr>
     in if sr_URI segment \<noteq> SegmentURI c entry then Inl []
     else Inr entry)"

definition Config_PartitionHead :: "Config \<Rightarrow> Head \<Rightarrow> PartitionHead res" where
  "Config_PartitionHead c h =
     bindE (validateConfigHead c h) (\<lambda>_.
     let header = hd_Header h
     in Inr \<lparr>pt_StreamID = cf_StreamID c, pt_Partition = cf_Partition c, pt_NextLSN = hh_NextLSN header,
          pt_OldestLSN = hh_OldestLSN header, pt_AppliedRetentionLSN = hh_AppliedRetentionLSN header,
          pt_AppliedRetentionVersion = hh_AppliedRetentionVersion header,
          pt_WriterEpoch = hh_WriterEpoch header, pt_SegmentCount = hh_SegmentCount header,
          pt_ReachableSegmentCount = hh_ReachableSegmentCount header,
          pt_LastSegment = (if HasLastSegment h then segmentRef c (hd_LastSegment h) else zero_SegmentRef),
          pt_HasLastSegment = HasLastSegment h\<rparr>)"


section \<open>Entries and references\<close>

lemma segmentRef_bounds [simp]:
  "seg_lo (segmentRef c e) = le_lo e" "seg_hi (segmentRef c e) = le_hi e"
  "sr_BaseLSN (segmentRef c e) = le_BaseLSN e" "sr_LastLSN (segmentRef c e) = le_LastLSN e"
  "sr_MinTimestampMS (segmentRef c e) = le_MinTimestampMS e"
  "sr_MaxTimestampMS (segmentRef c e) = le_MaxTimestampMS e"
  by (simp_all add: seg_lo_def seg_hi_def le_lo_def le_hi_def segmentRef_def)

lemma SegmentObjectKey_nonempty: "SegmentObjectKey root s part b e u \<noteq> []"
  by (simp add: SegmentObjectKey_eq segment_name_def)

lemma segmentRef_valid: "leaf_ok e \<Longrightarrow> SegmentRef_Validate (segmentRef c e) = Inr ()"
  by (auto simp: validateLeafEntry_def SegmentRef_Validate_def Let_def segmentRef_def SegmentURI_def
      SegmentObjectKey_nonempty split: if_splits)

lemma leafEntry_segmentRef: "leaf_ok e \<Longrightarrow> leafEntry c (segmentRef c e) = Inr e"
proof -
  assume ok: "leaf_ok e"
  note v = segmentRef_valid[OF ok, of c]
  have "le_WriterTag e \<noteq> 0" using ok by (rule leaf_okD)
  with v show ?thesis by (cases e) (simp add: leafEntry_def segmentRef_def Let_def)
qed

text \<open>A segment reference is recovered from its entry, and its entry is valid.\<close>

lemma leafEntry_Inr:
  assumes "leafEntry c s = Inr e"
  shows "segmentRef c e = s" "leaf_ok e" "seg_ok s" "sr_WriterTag s \<noteq> 0"
proof -
  have v: "seg_ok s" "sr_WriterTag s \<noteq> 0" using assms by (auto simp: leafEntry_def Let_def split: if_splits)
  then show "seg_ok s" "sr_WriterTag s \<noteq> 0" by auto
  show "segmentRef c e = s"
    using assms by (cases s) (auto simp: leafEntry_def segmentRef_def Let_def split: if_splits)
  have f: "le_BaseLSN e = sr_BaseLSN s" "le_LastLSN e = sr_LastLSN s" "le_RecordCount e = sr_RecordCount s"
    "le_MinTimestampMS e = sr_MinTimestampMS s" "le_MaxTimestampMS e = sr_MaxTimestampMS s"
    "le_BlockCount e = sr_BlockCount s" "le_SizeBytes e = sr_SizeBytes s"
    "le_BlockIndexLength e = sr_BlockIndexLength s" "le_Codec e = sr_Codec s" "le_HashAlgo e = sr_HashAlgo s"
    "le_WriterEpoch e = sr_WriterEpoch s" "le_SegmentUUID e = sr_SegmentUUID s" "le_WriterTag e = sr_WriterTag s"
    using assms by (auto simp: leafEntry_def Let_def split: if_splits)
  have "(ucast (sr_RecordCount s) :: u64) \<le> 4294967295"
    using unat_u32_less[of "sr_RecordCount s"] by (simp add: word_le_nat_alt)
  then show "leaf_ok e" using v
    by (auto simp: validateLeafEntry_def SegmentRef_Validate_def f Let_def split: if_splits)
qed


section \<open>Page paths\<close>

lemma fmt_d2_level: "l \<le> MaxIndexLevel \<Longrightarrow> length (fmt_d 2 l) = 2"
proof -
  assume "l \<le> MaxIndexLevel"
  then have "unat l < 10 ^ 2" by (simp add: MaxIndexLevel_def word_le_nat_alt)
  then show ?thesis using length_decimal[of "unat l" 2] by (simp add: fmt_d_def pad0_def)
qed

lemma LeafPagePath_inject:
  "LeafPagePath c r = LeafPagePath c r' \<longleftrightarrow>
     ie_SeqHi r = ie_SeqHi r' \<and> ie_SeqLo r = ie_SeqLo r' \<and> ie_Generation r = ie_Generation r' \<and> ie_PageID r = ie_PageID r'"
  by (auto simp: LeafPagePath_def append_eq_append_conv be_bytes16_inject)

lemma IndexPagePath_inject:
  assumes "ie_Level r \<le> MaxIndexLevel" "ie_Level r' \<le> MaxIndexLevel"
  shows "IndexPagePath c r = IndexPagePath c r' \<longleftrightarrow> ie_Level r = ie_Level r' \<and>
     ie_SeqHi r = ie_SeqHi r' \<and> ie_SeqLo r = ie_SeqLo r' \<and> ie_Generation r = ie_Generation r' \<and> ie_PageID r = ie_PageID r'"
  using fmt_d2_level[OF assms(1)] fmt_d2_level[OF assms(2)]
  by (auto simp: IndexPagePath_def append_eq_append_conv be_bytes16_inject)

lemma PagePath_kinds: "ie_Level r' \<le> MaxIndexLevel \<Longrightarrow> LeafPagePath c r \<noteq> IndexPagePath c r'"
proof
  assume l: "ie_Level r' \<le> MaxIndexLevel" and eq: "LeafPagePath c r = IndexPagePath c r'"
  let ?x = "''/leaf-'' @ fmt_d 20 (ie_SeqHi r) @ ''-'' @ fmt_d 20 (ie_SeqLo r) @ ''-'' @ fmt_d 20 (ie_Generation r)
      @ ''-'' @ hex_EncodeToString (be_bytes 16 (ie_PageID r)) @ ''.plc''"
  let ?y = "''/index-l'' @ fmt_d 2 (ie_Level r') @ ''-'' @ fmt_d 20 (ie_SeqHi r') @ ''-'' @ fmt_d 20 (ie_SeqLo r') @ ''-''
      @ fmt_d 20 (ie_Generation r') @ ''-'' @ hex_EncodeToString (be_bytes 16 (ie_PageID r')) @ ''.plc''"
  have "''00'' @ ?x = fmt_d 2 (ie_Level r') @ ?y"
    using eq by (simp add: LeafPagePath_def IndexPagePath_def)
  then have "?x = ?y" using fmt_d2_level[OF l] by (subst (asm) append_eq_append_conv) auto
  then show False by simp
qed

end
