(* ===== verification/Cat_Roundtrip.thy ===== *)
theory Cat_Roundtrip
  imports Cat_Codec
begin

text \<open>
  The catalog objects have one encoding each: bytes parse to an object exactly when marshalling the
  object gives those bytes. Built from the fixed-width codecs of leaf and index entries, the trailer,
  and the page and head layouts. The last part shows that the checksum catches any changed byte.
\<close>

lemmas cat_sizes [simp] =
  HeadHeaderSize_def PageHeaderSize_def SectionHeaderSize_def CatTrailerSize_def LeafEntrySize_def IndexEntrySize_def

lemma length_magic [simp]:
  "length headMagic = 4" "length leafMagic = 4" "length indexMagic = 4" "length sectionMagic = 4"
  "length trailerMagic = 4"
  by (simp_all add: headMagic_def leafMagic_def indexMagic_def sectionMagic_def trailerMagic_def bytes_of_string_def)

lemma magic_distinct [simp]: "leafMagic \<noteq> indexMagic" "indexMagic \<noteq> leafMagic"
  by (simp_all add: leafMagic_def indexMagic_def bytes_of_string_def)

lemma zeros_one: "zeros (Suc 0) = [0]"
  by (simp add: zeros_def)

lemma page_eta [simp]:
  "\<lparr>lp_Header = lp_Header lp, lp_Entries = lp_Entries lp\<rparr> = lp"
  "\<lparr>xp_Header = xp_Header xp, xp_Entries = xp_Entries xp\<rparr> = xp"
  by (cases lp; cases xp; simp)+


section \<open>Entries\<close>

lemma length_entries [simp]:
  "length (marshalLeafEntry e) = 128" "length (marshalIndexEntry r) = 80"
  by (simp_all add: marshalLeafEntry_def marshalIndexEntry_def)

lemma parseLeafEntry_marshal: "parseLeafEntry (marshalLeafEntry e) = Inr e"
  by (cases e) (simp add: parseLeafEntry_def marshalLeafEntry_def slices)

lemma marshalLeafEntry_parse:
  assumes "parseLeafEntry src = Inr e"
  shows "marshalLeafEntry e = src"
proof -
  let ?cuts = "[8, 16, 24, 32, 36, 40, 48, 56, 60, 62, 64, 72, 80, 88, 104, 120, 128] :: nat list"
  have len: "length src = 128" using assms by (auto simp: parseLeafEntry_def split: if_splits)
  have "cuts (0 # ?cuts) (marshalLeafEntry e) = cuts (0 # ?cuts) src"
    using assms len
    by (auto simp: parseLeafEntry_def marshalLeafEntry_def slices be_bytes_field all_zero_iff split: if_splits)
  then show ?thesis using cuts_eqI[of "marshalLeafEntry e" 128 src ?cuts] len by simp
qed

lemma parseIndexEntry_marshal: "parseIndexEntry (marshalIndexEntry e) = Inr e"
  by (cases e) (simp add: parseIndexEntry_def marshalIndexEntry_def slices)

lemma marshalIndexEntry_parse:
  assumes "parseIndexEntry src = Inr e"
  shows "marshalIndexEntry e = src"
proof -
  let ?cuts = "[1, 4, 8, 16, 24, 32, 40, 48, 64, 72, 80] :: nat list"
  have len: "length src = 80" using assms by (auto simp: parseIndexEntry_def split: if_splits)
  have "cuts (0 # ?cuts) (marshalIndexEntry e) = cuts (0 # ?cuts) src"
    using assms len
    by (auto simp: parseIndexEntry_def marshalIndexEntry_def slices be_bytes_field all_zero_iff slice_single
        split: if_splits)
  then show ?thesis using cuts_eqI[of "marshalIndexEntry e" 80 src ?cuts] len by simp
qed

interpretation lec: fixed_codec 128 marshalLeafEntry parseLeafEntry "\<lambda>_. True"
  by unfold_locales (simp_all add: parseLeafEntry_marshal marshalLeafEntry_parse)

interpretation iec: fixed_codec 80 marshalIndexEntry parseIndexEntry "\<lambda>_. True"
  by unfold_locales (simp_all add: parseIndexEntry_marshal marshalIndexEntry_parse)


section \<open>Headers\<close>

lemma length_headers [simp]:
  "length magic = 4 \<Longrightarrow> length (marshalPageHeader magic ph) = 128" "length (marshalHeadHeader hh) = 192"
  "length (marshalSectionHeader s) = 16"
  by (simp_all add: marshalPageHeader_def marshalHeadHeader_def marshalSectionHeader_def)

lemma parsePageHeader_marshal:
  assumes "validateCommonPageHeader ph = Inr ()" "magic = leafMagic \<or> magic = indexMagic"
  shows "parsePageHeader (marshalPageHeader magic ph) = Inr (ph, magic)"
proof -
  have "length magic = 4" using assms(2) by auto
  then show ?thesis using assms
    by (cases ph) (simp add: parsePageHeader_def marshalPageHeader_def slices)
qed

lemma marshalPageHeader_parse:
  assumes "parsePageHeader src = Inr (ph, magic)"
  shows "marshalPageHeader magic ph = src"
proof -
  let ?cuts = "[4, 6, 8, 12, 16, 17, 18, 20, 24, 28, 32, 40, 48, 56, 64, 72, 80, 112, 120, 128] :: nat list"
  have len: "length src = 128" and m: "magic = subslice 0 4 src"
    using assms by (auto simp: parsePageHeader_def Let_def split: if_splits)
  have lm: "length magic = 4" using len m by simp
  have "cuts (0 # ?cuts) (marshalPageHeader magic ph) = cuts (0 # ?cuts) src"
    using assms len m
    by (auto simp: parsePageHeader_def marshalPageHeader_def Let_def slices be_bytes_field be_bytes_eq_iff
        all_zero_iff slice_single zeros_one split: if_splits)
  then show ?thesis using cuts_eqI[of "marshalPageHeader magic ph" 128 src ?cuts] len lm by simp
qed

lemma parsePageHeader_ok:
  "parsePageHeader src = Inr (ph, magic) \<Longrightarrow> validateCommonPageHeader ph = Inr () \<and> length src = 128"
  by (auto simp: parsePageHeader_def Let_def split: if_splits)

definition head_header_ok :: "HeadHeader \<Rightarrow> bool" where
  "head_header_ok hh \<longleftrightarrow> HashAlgo_Validate (hh_HashAlgo hh) = Inr () \<and> hh_SegmentLayoutVersion hh = SegmentLayoutV1
     \<and> hh_LeafLimit hh \<noteq> 0 \<and> hh_LeafLimit hh \<le> of_nat MaxLeafEntries
     \<and> 2 \<le> hh_IndexLimit hh \<and> hh_IndexLimit hh \<le> of_nat MaxIndexEntries"

lemma validateHashAlgo_iff: "validateHashAlgo algo = Inr u \<longleftrightarrow> HashAlgo_Validate algo = Inr ()"
  by (auto simp: validateHashAlgo_def HashAlgo_Validate_def)

lemma parseHeadHeader_marshal:
  assumes "head_header_ok hh"
  shows "parseHeadHeader (marshalHeadHeader hh) = Inr hh"
  using assms
  by (cases hh) (simp add: parseHeadHeader_def marshalHeadHeader_def slices head_header_ok_def validateHashAlgo_iff not_less)

lemma marshalHeadHeader_parse:
  assumes "parseHeadHeader src = Inr hh"
  shows "marshalHeadHeader hh = src" "head_header_ok hh"
proof -
  let ?cuts = "[4, 6, 8, 12, 16, 18, 20, 24, 28, 32, 36, 40, 48, 56, 64, 72, 80, 88, 96, 112, 144, 176, 184,
    192] :: nat list"
  have len: "length src = 192" using assms by (auto simp: parseHeadHeader_def split: if_splits)
  have "cuts (0 # ?cuts) (marshalHeadHeader hh) = cuts (0 # ?cuts) src"
    using assms len
    by (auto simp: parseHeadHeader_def marshalHeadHeader_def Let_def slices be_bytes_field be_bytes_eq_iff
        all_zero_iff split: if_splits)
  then show "marshalHeadHeader hh = src" using cuts_eqI[of "marshalHeadHeader hh" 192 src ?cuts] len by simp
  show "head_header_ok hh"
    using assms by (auto simp: parseHeadHeader_def Let_def head_header_ok_def validateHashAlgo_iff not_less split: if_splits)
qed

lemma parseSectionHeader_marshal:
  "parseSectionHeader (marshalSectionHeader s) = Inr (s\<lparr>os_Entries := []\<rparr>, of_nat (length (os_Entries s)))"
  by (cases s) (simp add: parseSectionHeader_def marshalSectionHeader_def slices)

lemma marshalSectionHeader_parse:
  assumes "parseSectionHeader src = Inr (s, n)" "length (os_Entries t) = unat n" "os_Level t = os_Level s"
  shows "marshalSectionHeader t = src"
proof -
  let ?cuts = "[4, 5, 8, 12, 16] :: nat list"
  have len: "length src = 16" using assms(1) by (auto simp: parseSectionHeader_def split: if_splits)
  have "cuts (0 # ?cuts) (marshalSectionHeader t) = cuts (0 # ?cuts) src"
    using assms len
    by (auto simp: parseSectionHeader_def marshalSectionHeader_def slices be_bytes_field be_bytes_eq_iff all_zero_iff
        slice_single split: if_splits)
  then show ?thesis using cuts_eqI[of "marshalSectionHeader t" 16 src ?cuts] len by simp
qed


section \<open>Trailer\<close>

lemma length_trailer_window [simp]: "length (trailer_window h) = 32"
  by (simp add: trailer_window_def)

lemma appendTrailer_verify:
  assumes "appendTrailer xxh body algo = Inr encoded"
  shows "verifyTrailer xxh encoded algo = Inr ()" "length encoded = length body + 32"
    "take (length body) encoded = body"
proof -
  obtain bh th where h: "HashAlgo_Validate algo = Inr ()" "HashBytes xxh algo body = Inr bh"
    "HashBytes xxh algo (trailer_window bh) = Inr th"
    and e: "encoded = body @ put 16 (be_bytes 8 th) (trailer_window bh)"
    using assms by (auto simp: appendTrailer_def Let_def validateHashAlgo_iff)
  show "length encoded = length body + 32" "take (length body) encoded = body" by (simp_all add: e)
  let ?t = "put 16 (be_bytes 8 th) (trailer_window bh)"
  have check: "put 16 (zeros 8) ?t = trailer_window bh"
    using put_subslice[of 16 8 "trailer_window bh"] by (simp add: put_put_same trailer_window_def slices)
  have "subslice 0 4 ?t = trailerMagic" "be_word (subslice 4 6 ?t) = (32 :: u16)"
    "all_zero (subslice 6 8 ?t)" "all_zero (subslice 24 32 ?t)"
    "be_word (subslice 8 16 ?t) = bh" "be_word (subslice 16 24 ?t) = th"
    by (simp_all add: trailer_window_def slices)
  then show "verifyTrailer xxh encoded algo = Inr ()"
    using h by (simp add: verifyTrailer_def e validateHashAlgo_iff check)
qed

lemma verifyTrailer_append:
  assumes "verifyTrailer xxh encoded algo = Inr ()"
  shows "appendTrailer xxh (take (length encoded - 32) encoded) algo = Inr encoded"
proof -
  let ?n = "length encoded - 32"
  let ?t = "drop ?n encoded"
  have len: "32 \<le> length encoded" and algo: "HashAlgo_Validate algo = Inr ()"
    and m: "subslice 0 4 ?t = trailerMagic" "be_word (subslice 4 6 ?t) = (32 :: u16)"
      "all_zero (subslice 6 8 ?t)" "all_zero (subslice 24 32 ?t)"
    and th: "HashBytes xxh algo (put 16 (zeros 8) ?t) = Inr (be_word (subslice 16 24 ?t))"
    and bh: "HashBytes xxh algo (take ?n encoded) = Inr (be_word (subslice 8 16 ?t))"
    using assms by (auto simp: verifyTrailer_def Let_def validateHashAlgo_iff not_less split: if_splits)
  have lt: "length ?t = 32" using len by simp
  let ?cuts = "[4, 6, 8, 16, 24, 32] :: nat list"
  have "cuts (0 # ?cuts) (trailer_window (be_word (subslice 8 16 ?t))) = cuts (0 # ?cuts) (put 16 (zeros 8) ?t)"
    using m lt by (simp add: trailer_window_def slices be_bytes_field be_bytes_eq_iff all_zero_iff del: length_drop)
  then have w: "trailer_window (be_word (subslice 8 16 ?t)) = put 16 (zeros 8) ?t"
    using cuts_eqI[of "trailer_window (be_word (subslice 8 16 ?t))" 32 "put 16 (zeros 8) ?t" ?cuts] lt by simp
  have "put 16 (be_bytes 8 (be_word (subslice 16 24 ?t) :: u64)) (put 16 (zeros 8) ?t) = ?t"
    using put_subslice[of 16 8 ?t] lt by (simp add: put_put_same be_bytes_field del: length_drop)
  then show ?thesis using algo th bh by (simp add: appendTrailer_def Let_def validateHashAlgo_iff w)
qed


section \<open>Pages\<close>

lemma unat_count_u32: "n \<le> 1024 \<Longrightarrow> unat (of_nat n :: u32) = n"
  by (simp add: unsigned_of_nat take_bit_nat_eq_self)

lemma common_hash_ok: "validateCommonPageHeader ph = Inr () \<Longrightarrow> HashAlgo_Validate (ph_HashAlgo ph) = Inr ()"
  by (auto simp: validateCommonPageHeader_def split: if_splits)

lemma page_count_ok:
  assumes "ph_EntryCount ph = of_nat n" "0 < n" "n \<le> 1024"
  shows "ph_EntryCount ph \<noteq> 0 \<and> ph_EntryCount ph \<le> 1024 \<and> unat (ph_EntryCount ph) = n"
  using assms unat_count_u32[of n] by (auto simp: word_le_nat_alt unat_eq_zero[symmetric])

lemma ParseLeafPage_Marshal:
  assumes "MarshalLeafPage xxh page = Inr (encoded, pid)"
  shows "ParseLeafPage xxh encoded = Inr (page, pid)"
proof -
  let ?h = "lp_Header page" and ?es = "lp_Entries page"
  have v: "validateLeafPage page = Inr ()" and a: "appendTrailer xxh (leaf_page_body page) (ph_HashAlgo ?h) = Inr encoded"
    and pid: "pid = pageID (leaf_page_body page)"
    using assms by (auto simp: MarshalLeafPage_def Let_def)
  note V = validateLeafPage_Inr[OF v] and T = appendTrailer_verify[OF a]
  have lb: "length (leaf_page_body page) = 128 + length ?es * 128"
    by (simp add: leaf_page_body_def lec.length_enc_seq)
  have size: "ph_EntrySize ?h = 128" "ph_EntryCount ?h = of_nat (length ?es)"
    using v by (auto simp: validateLeafPage_def Let_def split: if_splits)
  have cnt: "ph_EntryCount ?h \<noteq> 0 \<and> ph_EntryCount ?h \<le> 1024 \<and> unat (ph_EntryCount ?h) = length ?es"
    using page_count_ok[OF size(2)] V(3,4) by (simp add: MaxLeafEntries_def)
  obtain tr where e: "encoded = leaf_page_body page @ tr" using T(3) by (metis append_take_drop_id)
  have hd: "take 128 encoded = marshalPageHeader leafMagic ?h"
    and tl: "drop 128 encoded = concat (map marshalLeafEntry ?es) @ tr"
    by (simp_all add: e leaf_page_body_def)
  have pp: "parsePage xxh encoded leafMagic = Inr ?h"
    using T(1,2) lb cnt size parsePageHeader_marshal[OF V(12), of leafMagic]
    by (simp add: parsePage_def hd MaxLeafEntries_def not_less)
  have "mapE parseLeafEntry (chunks 128 (length ?es) (drop 128 encoded)) = Inr ?es"
    unfolding tl using lec.dec_enc_seq[of ?es tr] by (simp add: list_all_iff)
  then show ?thesis using v cnt T pid
    by (simp add: ParseLeafPage_def pp Let_def)
qed

lemma ParseLeafPage_canonical:
  assumes "ParseLeafPage xxh encoded = Inr (page, pid)"
  shows "MarshalLeafPage xxh page = Inr (encoded, pid)"
proof -
  let ?h = "lp_Header page" and ?es = "lp_Entries page" and ?n = "length encoded - 32"
  obtain pp: "parsePage xxh encoded leafMagic = Inr ?h"
    and es: "mapE parseLeafEntry (chunks 128 (unat (ph_EntryCount ?h)) (drop 128 encoded)) = Inr ?es"
    and v: "validateLeafPage page = Inr ()" and pid: "pid = pageID (take ?n encoded)"
    using assms by (cases page) (auto simp: ParseLeafPage_def Let_def)
  have ph: "parsePageHeader (take 128 encoded) = Inr (?h, leafMagic)"
    and len: "length encoded = 128 + unat (ph_EntryCount ?h) * 128 + 32"
    and vt: "verifyTrailer xxh encoded (ph_HashAlgo ?h) = Inr ()"
    using pp by (auto simp: parsePage_def Let_def split: if_splits)
  have "concat (map marshalLeafEntry ?es) = take (unat (ph_EntryCount ?h) * 128) (drop 128 encoded)"
    using lec.enc_dec_seq[OF es] len by simp
  then have "leaf_page_body page = take ?n encoded"
    using len by (simp add: leaf_page_body_def marshalPageHeader_parse[OF ph] flip: take_add)
  then show ?thesis using v verifyTrailer_append[OF vt] pid by (simp add: MarshalLeafPage_def Let_def)
qed

lemma ParseIndexPage_Marshal:
  assumes "MarshalIndexPage xxh page = Inr (encoded, pid)"
  shows "ParseIndexPage xxh encoded = Inr (page, pid)"
proof -
  let ?h = "xp_Header page" and ?es = "xp_Entries page"
  have v: "validateIndexPage page = Inr ()" and a: "appendTrailer xxh (index_page_body page) (ph_HashAlgo ?h) = Inr encoded"
    and pid: "pid = pageID (index_page_body page)"
    using assms by (auto simp: MarshalIndexPage_def Let_def)
  note V = validateIndexPage_Inr[OF v] and T = appendTrailer_verify[OF a]
  have lb: "length (index_page_body page) = 128 + length ?es * 80"
    by (simp add: index_page_body_def iec.length_enc_seq)
  have size: "ph_EntrySize ?h = 80" "ph_EntryCount ?h = of_nat (length ?es)"
    using v by (auto simp: validateIndexPage_def Let_def split: if_splits)
  have cnt: "ph_EntryCount ?h \<noteq> 0 \<and> ph_EntryCount ?h \<le> 1024 \<and> unat (ph_EntryCount ?h) = length ?es"
    using page_count_ok[OF size(2)] V(3,4) by (simp add: MaxIndexEntries_def)
  obtain tr where e: "encoded = index_page_body page @ tr" using T(3) by (metis append_take_drop_id)
  have hd: "take 128 encoded = marshalPageHeader indexMagic ?h"
    and tl: "drop 128 encoded = concat (map marshalIndexEntry ?es) @ tr"
    by (simp_all add: e index_page_body_def)
  have pp: "parsePage xxh encoded indexMagic = Inr ?h"
    using T(1,2) lb cnt size parsePageHeader_marshal[OF V(14), of indexMagic]
    by (simp add: parsePage_def hd MaxIndexEntries_def not_less)
  have "mapE parseIndexEntry (chunks 80 (length ?es) (drop 128 encoded)) = Inr ?es"
    unfolding tl using iec.dec_enc_seq[of ?es tr] by (simp add: list_all_iff)
  then show ?thesis using v cnt T pid
    by (simp add: ParseIndexPage_def pp Let_def)
qed

lemma ParseIndexPage_canonical:
  assumes "ParseIndexPage xxh encoded = Inr (page, pid)"
  shows "MarshalIndexPage xxh page = Inr (encoded, pid)"
proof -
  let ?h = "xp_Header page" and ?es = "xp_Entries page" and ?n = "length encoded - 32"
  obtain pp: "parsePage xxh encoded indexMagic = Inr ?h"
    and es: "mapE parseIndexEntry (chunks 80 (unat (ph_EntryCount ?h)) (drop 128 encoded)) = Inr ?es"
    and v: "validateIndexPage page = Inr ()" and pid: "pid = pageID (take ?n encoded)"
    using assms by (cases page) (auto simp: ParseIndexPage_def Let_def)
  have ph: "parsePageHeader (take 128 encoded) = Inr (?h, indexMagic)"
    and len: "length encoded = 128 + unat (ph_EntryCount ?h) * 80 + 32"
    and vt: "verifyTrailer xxh encoded (ph_HashAlgo ?h) = Inr ()"
    using pp by (auto simp: parsePage_def Let_def split: if_splits)
  have "concat (map marshalIndexEntry ?es) = take (unat (ph_EntryCount ?h) * 80) (drop 128 encoded)"
    using iec.enc_dec_seq[OF es] len by simp
  then have "index_page_body page = take ?n encoded"
    using len by (simp add: index_page_body_def marshalPageHeader_parse[OF ph] flip: take_add)
  then show ?thesis using v verifyTrailer_append[OF vt] pid by (simp add: MarshalIndexPage_def Let_def)
qed


section \<open>The head\<close>

lemma parseActive_enc: "parseActive (length es) (concat (map marshalLeafEntry es) @ rest) = Inr (es, rest)"
  by (induction es) (simp_all add: parseLeafEntry_marshal)

lemma parseActive_dec:
  "parseActive n bs = Inr (es, rest) \<Longrightarrow> length es = n \<and> bs = concat (map marshalLeafEntry es) @ rest"
proof (induction n arbitrary: bs es)
  case (Suc n)
  from Suc.prems obtain e es' where e: "parseLeafEntry (take 128 bs) = Inr e" "es = e # es'"
    "parseActive n (drop 128 bs) = Inr (es', rest)" by (auto split: if_splits)
  with Suc.IH[OF e(3)] show ?case by (simp add: marshalLeafEntry_parse) (metis append_take_drop_id)
qed simp

lemma section_eta [simp]: "\<lparr>os_Level = os_Level s, os_Entries = os_Entries s\<rparr> = s"
  by (cases s) simp

lemma parseSection_enc:
  assumes "length (os_Entries s) < unat (hh_IndexLimit hh)" "hh_IndexLimit hh \<le> of_nat MaxIndexEntries"
  shows "parseSection hh (section_bytes s @ rest) = Inr (s, rest)"
proof -
  let ?es = "os_Entries s"
  have le: "length ?es < 1024"
    using assms by (simp add: MaxIndexEntries_def word_le_nat_alt)
  then have u: "unat (of_nat (length ?es) :: u32) = length ?es" by (simp add: unat_count_u32)
  have c: "\<not> hh_IndexLimit hh \<le> of_nat (length ?es)" "\<not> (1024 :: u32) < of_nat (length ?es)"
    using assms(1) le by (simp_all add: word_le_nat_alt word_less_nat_alt u)
  define bs where "bs = section_bytes s @ rest"
  have h: "take 16 bs = marshalSectionHeader s" and l: "16 \<le> length bs"
    and t: "drop 16 bs = concat (map marshalIndexEntry ?es) @ rest"
    by (simp_all add: bs_def section_bytes_def)
  have d: "mapE parseIndexEntry (chunks 80 (length ?es) (concat (map marshalIndexEntry ?es) @ rest)) = Inr ?es"
    by (rule iec.dec_enc_seq) (simp add: list_all_iff)
  have lc: "length (concat (map marshalIndexEntry ?es)) = length ?es * 80" by (rule iec.length_enc_seq)
  have "s\<lparr>os_Entries := [], os_Entries := ?es\<rparr> = s" by (cases s) simp
  then have "parseSection hh bs = Inr (s, rest)"
    using c l lc d by (simp add: parseSection_def h t parseSectionHeader_marshal u MaxIndexEntries_def not_less Let_def
        del: length_concat drop_drop)
  then show ?thesis by (simp add: bs_def)
qed

lemma parseSection_dec:
  assumes "parseSection hh bs = Inr (s, rest)"
  shows "bs = section_bytes s @ rest"
proof -
  obtain t n where t: "parseSectionHeader (take 16 bs) = Inr (t, n)"
    and es: "mapE parseIndexEntry (chunks 80 (unat n) (drop 16 bs)) = Inr (os_Entries s)"
    and s: "os_Level s = os_Level t" and rest: "rest = drop (unat n * 80) (drop 16 bs)"
    and len: "16 \<le> length bs" "unat n * 80 \<le> length (drop 16 bs)"
    using assms by (auto simp: parseSection_def Let_def not_less split: if_splits prod.splits)
  note D = iec.enc_dec_seq[OF es len(2)]
  have "marshalSectionHeader s = take 16 bs"
    using marshalSectionHeader_parse[OF t, of s] D s by simp
  then show ?thesis using D rest by (simp add: section_bytes_def flip: drop_drop)
qed

lemma parseSections_enc:
  assumes "\<forall>s\<in>set ss. length (os_Entries s) < unat (hh_IndexLimit hh)" "hh_IndexLimit hh \<le> of_nat MaxIndexEntries"
  shows "parseSections hh (length ss) (concat (map section_bytes ss) @ rest) = Inr (ss, rest)"
  using assms(1) by (induction ss) (simp_all add: parseSection_enc[OF _ assms(2)])

lemma parseSections_dec:
  "parseSections hh n bs = Inr (ss, rest) \<Longrightarrow> length ss = n \<and> bs = concat (map section_bytes ss) @ rest"
proof (induction n arbitrary: bs ss)
  case (Suc n)
  from Suc.prems obtain s ss' mid where s: "parseSection hh bs = Inr (s, mid)" "ss = s # ss'"
    "parseSections hh n mid = Inr (ss', rest)" by (auto split: prod.splits)
  with Suc.IH[OF s(3)] show ?case using parseSection_dec[OF s(1)] by simp
qed simp

lemma validateHead_header_ok: "validateHead h = Inr () \<Longrightarrow> head_header_ok (hd_Header h)"
  by (auto simp: validateHead_def validateHead_fields_def Let_def head_header_ok_def not_less split: if_splits)

lemma ParseHead_Marshal:
  assumes "MarshalHead xxh h = Inr encoded"
  shows "ParseHead xxh encoded = Inr h"
proof -
  let ?hh = "hd_Header h"
  have v: "validateHead h = Inr ()" and a: "appendTrailer xxh (head_body h) (hh_HashAlgo ?hh) = Inr encoded"
    using assms by (auto simp: MarshalHead_def)
  note ok = validateHead_header_ok[OF v] and T = appendTrailer_verify[OF a]
  have f: "validateHead_fields h = Inr ()" and sec: "sections_ok h" using v by (simp_all add: validateHead_iff)
  have lim: "unat (hh_LeafLimit ?hh) \<le> 1024" "unat (hh_IndexLimit ?hh) \<le> 1024"
    using ok by (simp_all add: head_header_ok_def MaxLeafEntries_def MaxIndexEntries_def word_le_nat_alt)
  have act: "length (hd_Active h) < unat (hh_LeafLimit ?hh)" "hh_ActiveCount ?hh = of_nat (length (hd_Active h))"
    and lev: "length (hd_Sections h) \<le> 64" "hh_LevelCount ?hh = of_nat (length (hd_Sections h))"
    using f by (auto simp: validateHead_fields_def Let_def not_le not_less MaxOpenIndexLevel_def MaxIndexLevel_def
        split: if_splits)
  have ua: "unat (hh_ActiveCount ?hh) = length (hd_Active h)" "unat (hh_LevelCount ?hh) = length (hd_Sections h)"
    using act lev lim by (simp_all add: unat_count_u32)
  have c: "\<not> hh_LeafLimit ?hh \<le> hh_ActiveCount ?hh" "\<not> (1024 :: u32) < hh_ActiveCount ?hh"
      "\<not> (64 :: u32) < hh_LevelCount ?hh"
    using act lev lim ua by (simp_all add: word_le_nat_alt word_less_nat_alt)
  obtain tr where e: "encoded = head_body h @ tr" using T(3) by (metis append_take_drop_id)
  have lt: "length tr = 32" using T(2) e by simp
  have hd: "take 192 encoded = marshalHeadHeader ?hh"
    and last: "subslice 192 320 encoded = marshalLeafEntry (hd_LastSegment h)"
    and rest: "subslice 320 (length encoded - 32) encoded
      = concat (map marshalLeafEntry (hd_Active h)) @ concat (map section_bytes (hd_Sections h))"
    using lt by (simp_all add: e head_body_def subslice_def)
  have "\<forall>s\<in>set (hd_Sections h). length (os_Entries s) < unat (hh_IndexLimit ?hh)"
    using sec by (auto simp: sections_ok_def section_ok_def in_set_conv_nth)
  then have ps: "parseSections ?hh (length (hd_Sections h)) (concat (map section_bytes (hd_Sections h))) = Inr (hd_Sections h, [])"
    using parseSections_enc[of "hd_Sections h" ?hh "[]"] ok by (simp add: head_header_ok_def)
  have len: "352 \<le> length encoded" by (simp add: e head_body_def lt)
  have eta: "\<lparr>hd_Header = ?hh, hd_LastSegment = hd_LastSegment h, hd_Active = hd_Active h, hd_Sections = hd_Sections h\<rparr> = h"
    by (cases h) simp
  show ?thesis
    using T(1) v len c
    by (simp add: ParseHead_def hd last rest parseHeadHeader_marshal[OF ok] ua parseLeafEntry_marshal parseActive_enc
        ps eta MaxLeafEntries_def MaxOpenIndexLevel_def MaxIndexLevel_def)
qed

lemma ParseHead_canonical:
  assumes "ParseHead xxh encoded = Inr h"
  shows "MarshalHead xxh h = Inr encoded"
proof -
  let ?n = "length encoded - 32"
  obtain mid where hh: "parseHeadHeader (take 192 encoded) = Inr (hd_Header h)" and len: "352 \<le> length encoded"
    and vt: "verifyTrailer xxh encoded (hh_HashAlgo (hd_Header h)) = Inr ()"
    and last: "parseLeafEntry (subslice 192 320 encoded) = Inr (hd_LastSegment h)"
    and act: "parseActive (unat (hh_ActiveCount (hd_Header h))) (subslice 320 ?n encoded) = Inr (hd_Active h, mid)"
    and sec: "parseSections (hd_Header h) (unat (hh_LevelCount (hd_Header h))) mid = Inr (hd_Sections h, [])"
    and v: "validateHead h = Inr ()"
    using assms by (cases h) (auto simp: ParseHead_def Let_def not_less split: if_splits prod.splits)
  have "head_body h = take 192 encoded @ subslice 192 320 encoded @ subslice 320 ?n encoded"
    using parseActive_dec[OF act] parseSections_dec[OF sec]
    by (simp add: head_body_def marshalHeadHeader_parse(1)[OF hh] marshalLeafEntry_parse[OF last])
  also have "\<dots> = take ?n encoded"
    using len slice_split[of 0 192 ?n encoded] slice_split[of 192 320 ?n encoded] by (simp add: subslice_def)
  finally show ?thesis using v verifyTrailer_append[OF vt] by (simp add: MarshalHead_def)
qed


section \<open>One changed byte is always caught\<close>

lemma ucast_32_64_inject: "(ucast (x :: u32) :: u64) = ucast y \<longleftrightarrow> x = y"
  by (metis unat_ucast_32_64 word_unat_eq_iff)

lemma crc32c_update:
  assumes "i < length bs" "crc32c (bs[i := b]) = crc32c bs"
  shows "bs ! i = b"
proof -
  have "bs[i := b] = take i bs @ b # drop (Suc i) bs" using assms(1) by (simp add: upd_conv_take_nth_drop)
  moreover have "bs = take i bs @ bs ! i # drop (Suc i) bs" using assms(1) by (rule id_take_nth_drop)
  ultimately show ?thesis using assms(2) crc32c_single_byte by metis
qed

lemma appendTrailer_body_hash:
  assumes "appendTrailer xxh body algo = Inr (body @ tr)"
  shows "HashBytes xxh algo body = Inr (be_word (subslice 8 16 tr))"
  using assms by (auto simp: appendTrailer_def Let_def trailer_window_def slices)

lemma verifyTrailer_detects:
  assumes "verifyTrailer xxh encoded HashCRC32C = Inr ()" "i < length encoded" "encoded ! i \<noteq> b"
  shows "verifyTrailer xxh (encoded[i := b]) HashCRC32C \<noteq> Inr ()"
proof
  let ?n = "length encoded - 32"
  assume bad: "verifyTrailer xxh (encoded[i := b]) HashCRC32C = Inr ()"
  note A = verifyTrailer_append[OF assms(1)] and B = verifyTrailer_append[OF bad]
  show False
  proof (cases "i < ?n")
    case False
    then have "take ?n (encoded[i := b]) = take ?n encoded" by simp
    then have "encoded[i := b] = encoded" using A B by simp
    then show False using assms(2,3) by (metis nth_list_update_eq)
  next
    case True
    let ?body = "take ?n encoded" and ?tr = "drop ?n encoded"
    have body: "take ?n (encoded[i := b]) = ?body[i := b]" using True by (simp add: take_update_swap)
    have tr: "encoded[i := b] = ?body[i := b] @ ?tr"
      using True by (metis append_take_drop_id body drop_update_cancel)
    have "HashBytes xxh HashCRC32C (?body[i := b]) = HashBytes xxh HashCRC32C ?body"
      using appendTrailer_body_hash[of xxh ?body _ ?tr] appendTrailer_body_hash[of xxh "?body[i := b]" _ ?tr]
        A B body tr by simp
    then have "crc32c (?body[i := b]) = crc32c ?body" by (simp add: HashBytes_def ucast_32_64_inject)
    then have "?body ! i = b" using True by (intro crc32c_update) simp_all
    then show False using assms(3) True by simp
  qed
qed


section \<open>Properties\<close>

text \<open>C18: catalog pages and heads have exactly one encoding. Bytes parse to a leaf page, an index
  page (with its content identifier) or a head if and only if marshalling that object succeeds and
  gives those bytes: everything written reads back unchanged, and nothing else is accepted.\<close>

theorem catalog_objects_bijective:
  "(ParseLeafPage xxh encoded = Inr (lp, pid) \<longleftrightarrow> MarshalLeafPage xxh lp = Inr (encoded, pid))
   \<and> (ParseIndexPage xxh encoded = Inr (xp, pid) \<longleftrightarrow> MarshalIndexPage xxh xp = Inr (encoded, pid))
   \<and> (ParseHead xxh encoded = Inr h \<longleftrightarrow> MarshalHead xxh h = Inr encoded)"
proof (intro conjI)
  show "ParseLeafPage xxh encoded = Inr (lp, pid) \<longleftrightarrow> MarshalLeafPage xxh lp = Inr (encoded, pid)"
    using ParseLeafPage_Marshal ParseLeafPage_canonical by blast
  show "ParseIndexPage xxh encoded = Inr (xp, pid) \<longleftrightarrow> MarshalIndexPage xxh xp = Inr (encoded, pid)"
    using ParseIndexPage_Marshal ParseIndexPage_canonical by blast
  show "ParseHead xxh encoded = Inr h \<longleftrightarrow> MarshalHead xxh h = Inr encoded"
    using ParseHead_Marshal ParseHead_canonical by blast
qed

lemma parseHeadHeader_algo:
  "parseHeadHeader src = Inr hh \<Longrightarrow> hh_HashAlgo hh = be_word (subslice 16 18 src)"
  by (auto simp: parseHeadHeader_def Let_def split: if_splits)

lemma ParseHead_trailer:
  assumes "ParseHead xxh encoded = Inr h"
  shows "verifyTrailer xxh encoded (be_word (subslice 16 18 encoded)) = Inr ()" "352 \<le> length encoded"
    "hh_HashAlgo (hd_Header h) = be_word (subslice 16 18 encoded)"
proof -
  have hh: "parseHeadHeader (take 192 encoded) = Inr (hd_Header h)"
    and v: "verifyTrailer xxh encoded (hh_HashAlgo (hd_Header h)) = Inr ()" and len: "352 \<le> length encoded"
    using assms by (cases h; auto simp: ParseHead_def Let_def not_less split: if_splits prod.splits)+
  have "subslice 16 18 (take 192 encoded) = subslice 16 18 encoded" by (simp add: subslice_def drop_take)
  then show a: "hh_HashAlgo (hd_Header h) = be_word (subslice 16 18 encoded)"
    using parseHeadHeader_algo[OF hh] by simp
  show "verifyTrailer xxh encoded (be_word (subslice 16 18 encoded)) = Inr ()" "352 \<le> length encoded"
    using v len by (simp_all flip: a)
qed

text \<open>C19: a head written under CRC-32C is protected against a changed byte: replacing any single
  byte of the object, in its body or its trailer, except in the two bytes that name the hash
  algorithm, makes parsing fail.\<close>

theorem head_corruption_detected:
  assumes "MarshalHead xxh h = Inr encoded" "hh_HashAlgo (hd_Header h) = HashCRC32C"
    and "i < length encoded" "i \<noteq> 16" "i \<noteq> 17" "encoded ! i \<noteq> b"
  shows "ParseHead xxh (encoded[i := b]) \<noteq> Inr h'"
proof
  assume bad: "ParseHead xxh (encoded[i := b]) = Inr h'"
  note P = ParseHead_trailer[OF ParseHead_Marshal[OF assms(1)]] and Q = ParseHead_trailer[OF bad]
  have "subslice 16 18 (encoded[i := b]) = subslice 16 18 encoded"
    using assms(4,5) P(2) by (intro nth_equalityI) (auto simp: subslice_def nth_list_update)
  moreover have "be_word (subslice 16 18 encoded) = HashCRC32C" using P(3) assms(2) by simp
  ultimately have "verifyTrailer xxh (encoded[i := b]) HashCRC32C = Inr ()" "verifyTrailer xxh encoded HashCRC32C = Inr ()"
    using P(1) Q(1) by simp_all
  then show False using verifyTrailer_detects[of xxh encoded i b] assms(3,6) by simp
qed

text \<open>A head of an empty partition, for examples.\<close>

definition sample_head :: Head where
  "sample_head =
     \<lparr>hd_Header = \<lparr>hh_Flags = 0, hh_Partition = 3, hh_HashAlgo = HashCRC32C, hh_SegmentLayoutVersion = SegmentLayoutV1,
        hh_LeafLimit = 2, hh_IndexLimit = 2, hh_ActiveCount = 0, hh_LevelCount = 0, hh_NextLSN = 100,
        hh_OldestLSN = 100, hh_AppliedRetentionLSN = 0, hh_AppliedRetentionVersion = 0, hh_WriterEpoch = 0,
        hh_Generation = 0, hh_SegmentCount = 0, hh_ReachableSegmentCount = 0, hh_WriterID = 0,
        hh_StreamKey = 5, hh_DataRootKey = 6\<rparr>,
      hd_LastSegment = zero_LeafEntry, hd_Active = [], hd_Sections = []\<rparr>"

lemma sample_head_valid: "validateHead sample_head = Inr ()"
  by code_simp

theorem head_corruption_detected_witness:
  "\<exists>encoded. MarshalHead (\<lambda>_. 0) sample_head = Inr encoded \<and> ParseHead (\<lambda>_. 0) (encoded[0 := 81]) \<noteq> Inr sample_head"
proof -
  obtain encoded where m: "MarshalHead (\<lambda>_. 0) sample_head = Inr encoded"
    by (simp add: MarshalHead_def sample_head_valid appendTrailer_def validateHashAlgo_def HashAlgo_Validate_def
        HashBytes_def Let_def) (simp add: sample_head_def)
  then have "take (length (head_body sample_head)) encoded = head_body sample_head"
    using appendTrailer_verify(3) by (auto simp: MarshalHead_def)
  then obtain tr where "encoded = head_body sample_head @ tr" by (metis append_take_drop_id)
  then have "encoded ! 0 = 80" "0 < length encoded"
    by (simp_all add: head_body_def nth_append marshalHeadHeader_def slices)
      (simp add: put_def headMagic_def bytes_of_string_def)
  moreover have "hh_HashAlgo (hd_Header sample_head) = HashCRC32C" by (simp add: sample_head_def)
  ultimately show ?thesis using head_corruption_detected[OF m, of 0 81 sample_head] m by auto
qed

end
