(* ===== verification/Cat_Reader.thy ===== *)
theory Cat_Reader
  imports Cat_Config Cat_Roundtrip Catalog_Spec
begin

text \<open>
  Reading the paged catalog (\<^verbatim>\<open>catengine/reader.go\<close>): loading a page and checking it
  against the reference that led to it, descent by log sequence number and by time, collection of
  segments and of page paths, and reachability of a page. The page source is a parameter: a function
  from object keys to bytes or an error, so every definition below is total on every store contents;
  termination is proved from the level check that each loaded index page passes.
\<close>


section \<open>Page sources and loading\<close>

record Reader =
  rd_config :: Config
  rd_pages :: "string \<Rightarrow> bytes res"

definition NewReader :: "Config \<Rightarrow> (string \<Rightarrow> bytes res) option \<Rightarrow> Reader res" where
  "NewReader config pages =
     (case pages of None \<Rightarrow> Inl [] | Some src \<Rightarrow> Inr \<lparr>rd_config = config, rd_pages = src\<rparr>)"

definition matchesPageRef :: "PageHeader \<Rightarrow> IndexEntry \<Rightarrow> Config \<Rightarrow> bool" where
  "matchesPageRef header ref config \<longleftrightarrow>
     ph_Partition header = cf_Partition config \<and> ph_StreamKey header = cf_StreamKey config
     \<and> ph_Level header = ie_Level ref \<and> ph_EntryCount header = ie_EntryCount ref
     \<and> ph_SeqLo header = ie_SeqLo ref \<and> ph_SeqHi header = ie_SeqHi ref
     \<and> ph_MinTimestampMS header = ie_MinTimestampMS ref \<and> ph_MaxTimestampMS header = ie_MaxTimestampMS ref
     \<and> ph_Generation header = ie_Generation ref \<and> ph_SegmentCount header = ie_SegmentCount ref"

definition loadLeaf :: "(bytes \<Rightarrow> u64) \<Rightarrow> Reader \<Rightarrow> IndexEntry \<Rightarrow> u64 \<Rightarrow> LeafPage res" where
  "loadLeaf xxh r ref maxWriterEpoch =
     bindE (rd_pages r (LeafPagePath (rd_config r) ref)) (\<lambda>body.
     bindE (map_err corrupt (ParseLeafPage xxh body)) (\<lambda>(page, pid).
     if pid \<noteq> ie_PageID ref \<or> ph_WriterEpoch (lp_Header page) > maxWriterEpoch
         \<or> \<not> matchesPageRef (lp_Header page) ref (rd_config r) then Inl (corrupt [])
     else Inr page))"

definition loadIndex :: "(bytes \<Rightarrow> u64) \<Rightarrow> Reader \<Rightarrow> IndexEntry \<Rightarrow> u64 \<Rightarrow> IndexPage res" where
  "loadIndex xxh r ref maxWriterEpoch =
     bindE (rd_pages r (IndexPagePath (rd_config r) ref)) (\<lambda>body.
     bindE (map_err corrupt (ParseIndexPage xxh body)) (\<lambda>(page, pid).
     if pid \<noteq> ie_PageID ref \<or> ph_WriterEpoch (xp_Header page) > maxWriterEpoch
         \<or> \<not> matchesPageRef (xp_Header page) ref (rd_config r) then Inl (corrupt [])
     else Inr page))"

lemma loadLeaf_Inr:
  assumes "loadLeaf xxh r ref ep = Inr page"
  shows "validateLeafPage page = Inr ()" "matchesPageRef (lp_Header page) ref (rd_config r)"
    "ph_WriterEpoch (lp_Header page) \<le> ep"
    "\<exists>body. rd_pages r (LeafPagePath (rd_config r) ref) = Inr body \<and> ParseLeafPage xxh body = Inr (page, ie_PageID ref)"
  using assms by (auto simp: loadLeaf_def ParseLeafPage_def Let_def not_less split: if_splits)

lemma loadIndex_Inr:
  assumes "loadIndex xxh r ref ep = Inr page"
  shows "validateIndexPage page = Inr ()" "matchesPageRef (xp_Header page) ref (rd_config r)"
    "ph_WriterEpoch (xp_Header page) \<le> ep"
    "\<exists>body. rd_pages r (IndexPagePath (rd_config r) ref) = Inr body \<and> ParseIndexPage xxh body = Inr (page, ie_PageID ref)"
  using assms by (auto simp: loadIndex_def ParseIndexPage_def Let_def not_less split: if_splits)

text \<open>Each step down the tree goes down one level: the measure of every recursion below.\<close>

lemma loadIndex_level:
  assumes "loadIndex xxh r ref ep = Inr page" "child \<in> set (xp_Entries page)"
  shows "unat (ie_Level ref) = unat (ie_Level child) + 1"
proof -
  note V = validateIndexPage_Inr[OF loadIndex_Inr(1)[OF assms(1)]]
  have "ie_Level child + 1 = ie_Level ref" "ref_ok child"
    using V(1,11) loadIndex_Inr(2)[OF assms(1)] assms(2) by (auto simp: list_all_iff matchesPageRef_def)
  moreover have "unat (ie_Level child) \<le> 63"
    using ref_okD(3)[OF \<open>ref_ok child\<close>] by (simp add: MaxIndexLevel_def word_le_nat_alt)
  then have "unat (ie_Level child + 1) = unat (ie_Level child) + 1" by (simp add: unat_word_ariths)
  ultimately show ?thesis by simp
qed

lemma loadIndex_search:
  assumes "loadIndex xxh r ref ep = Inr page" "search_list P (xp_Entries page) \<noteq> length (xp_Entries page)"
  shows "unat (ie_Level (xp_Entries page ! search_list P (xp_Entries page))) < unat (ie_Level ref)"
proof -
  have "search_list P (xp_Entries page) < length (xp_Entries page)"
    using assms(2) search_list_le[of P "xp_Entries page"] by simp
  then show ?thesis using loadIndex_level[OF assms(1) nth_mem] by simp
qed


section \<open>Roots\<close>

text \<open>A root of the head is a reference to a page or an active leaf entry.\<close>

datatype headRoot = RootRef IndexEntry | RootLeaf LeafEntry

fun root_seqLo :: "headRoot \<Rightarrow> u64" where
  "root_seqLo (RootRef ref) = ie_SeqLo ref"
| "root_seqLo (RootLeaf leaf) = le_BaseLSN leaf"

fun root_seqHi :: "headRoot \<Rightarrow> u64" where
  "root_seqHi (RootRef ref) = ie_SeqHi ref"
| "root_seqHi (RootLeaf leaf) = le_LastLSN leaf"

fun root_maxTimestamp :: "headRoot \<Rightarrow> i64" where
  "root_maxTimestamp (RootRef ref) = ie_MaxTimestampMS ref"
| "root_maxTimestamp (RootLeaf leaf) = le_MaxTimestampMS leaf"

definition headRoots :: "Head \<Rightarrow> headRoot list" where
  "headRoots h =
     concat (map (\<lambda>section. map RootRef (os_Entries section)) (rev (hd_Sections h)))
     @ map RootLeaf (hd_Active h)"

definition MaxPageLevel :: "Head \<Rightarrow> u8" where
  "MaxPageLevel h =
     foldl (\<lambda>maximum section.
         foldl (\<lambda>maximum ref. if ie_Level ref > maximum then ie_Level ref else maximum) maximum (os_Entries section))
       0 (hd_Sections h)"


section \<open>Lookups\<close>

function findInPage :: "(bytes \<Rightarrow> u64) \<Rightarrow> Reader \<Rightarrow> IndexEntry \<Rightarrow> u64 \<Rightarrow> u64 \<Rightarrow> SegmentRef option res" where
  "findInPage xxh r ref lsn maxWriterEpoch =
     (if ie_Level ref = 0 then
        bindE (loadLeaf xxh r ref maxWriterEpoch) (\<lambda>page.
          let entries = lp_Entries page; i = search_list (\<lambda>e. le_LastLSN e \<ge> lsn) entries
          in if i = length entries \<or> le_BaseLSN (entries ! i) > lsn then Inr None
             else Inr (Some (segmentRef (rd_config r) (entries ! i))))
      else
        bindE (loadIndex xxh r ref maxWriterEpoch) (\<lambda>page.
          let entries = xp_Entries page; i = search_list (\<lambda>e. ie_SeqHi e \<ge> lsn) entries
          in if i = length entries \<or> ie_SeqLo (entries ! i) > lsn then Inr None
             else findInPage xxh r (entries ! i) lsn (ph_WriterEpoch (xp_Header page))))"
  by pat_completeness auto
termination
  by (relation "measure (\<lambda>(xxh, r, ref, _, _). unat (ie_Level ref))") (auto simp: loadIndex_search)

declare findInPage.simps [simp del]

function findTimestampInPage ::
  "(bytes \<Rightarrow> u64) \<Rightarrow> Reader \<Rightarrow> IndexEntry \<Rightarrow> i64 \<Rightarrow> u64 \<Rightarrow> SegmentRef option res" where
  "findTimestampInPage xxh r ref timestampMS maxWriterEpoch =
     (if ie_Level ref = 0 then
        bindE (loadLeaf xxh r ref maxWriterEpoch) (\<lambda>page.
          let entries = lp_Entries page;
              i = search_list (\<lambda>e. sint (le_MaxTimestampMS e) \<ge> sint timestampMS) entries
          in if i = length entries then Inr None
             else Inr (Some (segmentRef (rd_config r) (entries ! i))))
      else
        bindE (loadIndex xxh r ref maxWriterEpoch) (\<lambda>page.
          let entries = xp_Entries page;
              i = search_list (\<lambda>e. sint (ie_MaxTimestampMS e) \<ge> sint timestampMS) entries
          in if i = length entries then Inr None
             else findTimestampInPage xxh r (entries ! i) timestampMS (ph_WriterEpoch (xp_Header page))))"
  by pat_completeness auto
termination
  by (relation "measure (\<lambda>(xxh, r, ref, _, _). unat (ie_Level ref))") (auto simp: loadIndex_search)

declare findTimestampInPage.simps [simp del]

definition Reader_FindSegment ::
  "(bytes \<Rightarrow> u64) \<Rightarrow> ctx \<Rightarrow> Reader \<Rightarrow> Head \<Rightarrow> u64 \<Rightarrow> SegmentRef option res" where
  "Reader_FindSegment xxh ctx r h lsn =
     (case ctx of Some err \<Rightarrow> Inl err
      | None \<Rightarrow> bindE (validateConfigHead (rd_config r) h) (\<lambda>_.
        let header = hd_Header h; roots = headRoots h; i = search_list (\<lambda>root. root_seqHi root \<ge> lsn) roots
        in if \<not> HasLastSegment h \<or> lsn < hh_OldestLSN header \<or> lsn \<ge> hh_NextLSN header then Inr None
        else if i = length roots \<or> root_seqLo (roots ! i) > lsn then Inr None
        else (case roots ! i of
            RootLeaf leaf \<Rightarrow> Inr (Some (segmentRef (rd_config r) leaf))
          | RootRef ref \<Rightarrow> findInPage xxh r ref lsn (hh_WriterEpoch header))))"

definition Reader_LookupTimestamp ::
  "(bytes \<Rightarrow> u64) \<Rightarrow> ctx \<Rightarrow> Reader \<Rightarrow> Head \<Rightarrow> i64 \<Rightarrow> SegmentRef option res" where
  "Reader_LookupTimestamp xxh ctx r h timestampMS =
     (case ctx of Some err \<Rightarrow> Inl err
      | None \<Rightarrow> bindE (validateConfigHead (rd_config r) h) (\<lambda>_.
        let header = hd_Header h; roots = headRoots h;
            i = search_list (\<lambda>root. sint (root_maxTimestamp root) \<ge> sint timestampMS) roots
        in if \<not> HasLastSegment h \<or> hh_OldestLSN header = hh_NextLSN header
            \<or> sint timestampMS > sint (le_MaxTimestampMS (hd_LastSegment h)) then Inr None
        else if i = length roots then Inr None
        else (case roots ! i of
            RootLeaf leaf \<Rightarrow> Inr (Some (segmentRef (rd_config r) leaf))
          | RootRef ref \<Rightarrow> findTimestampInPage xxh r ref timestampMS (hh_WriterEpoch header))))"


section \<open>Collecting segments\<close>

record pageCollector =
  pc_config :: Config
  pc_fromLSN :: u64
  pc_limit :: nat
  pc_segments :: "SegmentRef list"
  pc_nextLSN :: u64
  pc_hasMore :: bool

definition pc_add :: "pageCollector \<Rightarrow> LeafEntry \<Rightarrow> pageCollector" where
  "pc_add c entry =
     (if pc_hasMore c \<or> le_LastLSN entry < pc_fromLSN c then c
      else if length (pc_segments c) = pc_limit c
        then c\<lparr>pc_hasMore := True, pc_nextLSN := le_BaseLSN entry\<rparr>
      else c\<lparr>pc_segments := pc_segments c @ [segmentRef (pc_config c) entry]\<rparr>)"

function collectPage ::
  "(bytes \<Rightarrow> u64) \<Rightarrow> Reader \<Rightarrow> IndexEntry \<Rightarrow> u64 \<Rightarrow> pageCollector \<Rightarrow> pageCollector res" where
  "collectPage xxh r ref maxWriterEpoch c =
     (if pc_hasMore c \<or> ie_SeqHi ref < pc_fromLSN c then Inr c
      else if ie_Level ref = 0 then
        bindE (loadLeaf xxh r ref maxWriterEpoch) (\<lambda>page.
          let start = search_list (\<lambda>e. le_LastLSN e \<ge> pc_fromLSN c) (lp_Entries page)
          in loopE pc_hasMore (\<lambda>c entry. Inr (pc_add c entry)) c (drop start (lp_Entries page)))
      else
        bindE (loadIndex xxh r ref maxWriterEpoch) (\<lambda>page.
          let start = search_list (\<lambda>e. ie_SeqHi e \<ge> pc_fromLSN c) (xp_Entries page)
          in loopE pc_hasMore (\<lambda>c child. collectPage xxh r child (ph_WriterEpoch (xp_Header page)) c) c
               (drop start (xp_Entries page))))"
  by pat_completeness auto
termination
  by (relation "measure (\<lambda>(xxh, r, ref, _, _). unat (ie_Level ref))")
    (auto dest!: in_set_dropD dest: loadIndex_level)

declare collectPage.simps [simp del]

definition reader_limit :: "int \<Rightarrow> nat" where
  "reader_limit limit =
     nat (if limit \<le> 0 \<or> limit > MaxSegmentPageLimit then DefaultSegmentPageLimit else limit)"

text \<open>The loop body over the roots of a head.\<close>

definition collectRoot ::
  "(bytes \<Rightarrow> u64) \<Rightarrow> Reader \<Rightarrow> u64 \<Rightarrow> pageCollector \<Rightarrow> headRoot \<Rightarrow> pageCollector res" where
  "collectRoot xxh r maxWriterEpoch c root =
     (if root_seqHi root < pc_fromLSN c then Inr c
      else case root of
        RootLeaf leaf \<Rightarrow> Inr (pc_add c leaf)
      | RootRef ref \<Rightarrow> collectPage xxh r ref maxWriterEpoch c)"

definition Reader_ListSegments ::
  "(bytes \<Rightarrow> u64) \<Rightarrow> ctx \<Rightarrow> Reader \<Rightarrow> Head \<Rightarrow> u64 \<Rightarrow> int \<Rightarrow> SegmentPage res" where
  "Reader_ListSegments xxh ctx r h fromLSN limit =
     (case ctx of Some err \<Rightarrow> Inl err
      | None \<Rightarrow> bindE (validateConfigHead (rd_config r) h) (\<lambda>_.
        if \<not> HasLastSegment h \<or> fromLSN \<ge> hh_NextLSN (hd_Header h) then Inr empty_SegmentPage
        else bindE (loopE pc_hasMore (collectRoot xxh r (hh_WriterEpoch (hd_Header h)))
            \<lparr>pc_config = rd_config r, pc_fromLSN = fromLSN, pc_limit = reader_limit limit, pc_segments = [],
             pc_nextLSN = 0, pc_hasMore = False\<rparr> (headRoots h)) (\<lambda>c.
          Inr \<lparr>pg_Segments = pc_segments c, pg_NextLSN = pc_nextLSN c, pg_HasMore = pc_hasMore c\<rparr>)))"


section \<open>Collecting page paths, and reachability\<close>

record PagePathPage =
  pp_Paths :: "string list"
  pp_NextSeqLo :: u64
  pp_HasMore :: bool

record pagePathCollector =
  ppc_config :: Config
  ppc_fromSeqLo :: u64
  ppc_limit :: nat
  ppc_paths :: "string list"
  ppc_nextSeqLo :: u64
  ppc_hasMore :: bool

definition ppc_add :: "pagePathCollector \<Rightarrow> IndexEntry \<Rightarrow> pagePathCollector" where
  "ppc_add c ref =
     (if ppc_hasMore c \<or> ie_SeqHi ref < ppc_fromSeqLo c then c
      else if length (ppc_paths c) = ppc_limit c
        then c\<lparr>ppc_nextSeqLo := ie_SeqLo ref, ppc_hasMore := True\<rparr>
      else c\<lparr>ppc_paths := ppc_paths c @ [PagePath (ppc_config c) ref]\<rparr>)"

function collectPagePath ::
  "(bytes \<Rightarrow> u64) \<Rightarrow> Reader \<Rightarrow> IndexEntry \<Rightarrow> u8 \<Rightarrow> u64 \<Rightarrow> pagePathCollector \<Rightarrow> pagePathCollector res" where
  "collectPagePath xxh r ref level maxWriterEpoch c =
     (if ppc_hasMore c \<or> ie_SeqHi ref < ppc_fromSeqLo c \<or> ie_Level ref < level then Inr c
      else if ie_Level ref = level then Inr (ppc_add c ref)
      else
        bindE (loadIndex xxh r ref maxWriterEpoch) (\<lambda>page.
          let start = search_list (\<lambda>e. ie_SeqHi e \<ge> ppc_fromSeqLo c) (xp_Entries page)
          in loopE ppc_hasMore (\<lambda>c child. collectPagePath xxh r child level (ph_WriterEpoch (xp_Header page)) c) c
               (drop start (xp_Entries page))))"
  by pat_completeness auto
termination
  by (relation "measure (\<lambda>(xxh, r, ref, _, _, _). unat (ie_Level ref))")
    (auto dest!: in_set_dropD dest: loadIndex_level)

declare collectPagePath.simps [simp del]

fun collectRootPath ::
  "(bytes \<Rightarrow> u64) \<Rightarrow> Reader \<Rightarrow> u8 \<Rightarrow> u64 \<Rightarrow> pagePathCollector \<Rightarrow> headRoot \<Rightarrow> pagePathCollector res" where
  "collectRootPath xxh r level maxWriterEpoch c (RootLeaf leaf) = Inr c"
| "collectRootPath xxh r level maxWriterEpoch c (RootRef ref) = collectPagePath xxh r ref level maxWriterEpoch c"

definition ListPagePaths ::
  "(bytes \<Rightarrow> u64) \<Rightarrow> ctx \<Rightarrow> Reader \<Rightarrow> Head \<Rightarrow> u8 \<Rightarrow> u64 \<Rightarrow> int \<Rightarrow> PagePathPage res" where
  "ListPagePaths xxh ctx r h level fromSeqLo limit =
     (case ctx of Some err \<Rightarrow> Inl err
      | None \<Rightarrow>
        if level > MaxIndexLevel then Inl []
        else bindE (validateConfigHead (rd_config r) h) (\<lambda>_.
          bindE (loopE ppc_hasMore (collectRootPath xxh r level (hh_WriterEpoch (hd_Header h)))
              \<lparr>ppc_config = rd_config r, ppc_fromSeqLo = fromSeqLo, ppc_limit = reader_limit limit, ppc_paths = [],
               ppc_nextSeqLo = 0, ppc_hasMore = False\<rparr> (headRoots h)) (\<lambda>c.
            Inr \<lparr>pp_Paths = ppc_paths c, pp_NextSeqLo = ppc_nextSeqLo c, pp_HasMore = ppc_hasMore c\<rparr>)))"

record PageTarget =
  pgt_Key :: string
  pgt_Level :: u8
  pgt_SeqLo :: u64
  pgt_SeqHi :: u64

text \<open>
  A loop that asks each element in turn and returns at the first error or positive answer.
\<close>

function pageReachable :: "(bytes \<Rightarrow> u64) \<Rightarrow> Reader \<Rightarrow> IndexEntry \<Rightarrow> PageTarget \<Rightarrow> u64 \<Rightarrow> bool res" where
  "pageReachable xxh r ref target maxWriterEpoch =
     (if PagePath (rd_config r) ref = pgt_Key target then Inr True
      else if pgt_SeqHi target < ie_SeqLo ref \<or> pgt_SeqLo target > ie_SeqHi ref
          \<or> pgt_Level target \<ge> ie_Level ref \<or> ie_Level ref = 0 then Inr False
      else
        bindE (loadIndex xxh r ref maxWriterEpoch) (\<lambda>page.
          loopE (\<lambda>found. found) (\<lambda>_ child.
            if pgt_SeqHi target < ie_SeqLo child \<or> pgt_SeqLo target > ie_SeqHi child then Inr False
            else pageReachable xxh r child target (ph_WriterEpoch (xp_Header page))) False (xp_Entries page)))"
  by pat_completeness auto
termination
  by (relation "measure (\<lambda>(xxh, r, ref, _, _). unat (ie_Level ref))") (auto dest: loadIndex_level)

declare pageReachable.simps [simp del]

fun rootReachable :: "(bytes \<Rightarrow> u64) \<Rightarrow> Reader \<Rightarrow> PageTarget \<Rightarrow> u64 \<Rightarrow> bool \<Rightarrow> headRoot \<Rightarrow> bool res" where
  "rootReachable xxh r target maxWriterEpoch found (RootLeaf leaf) = Inr False"
| "rootReachable xxh r target maxWriterEpoch found (RootRef ref) = pageReachable xxh r ref target maxWriterEpoch"

definition IsPageReachable :: "(bytes \<Rightarrow> u64) \<Rightarrow> ctx \<Rightarrow> Reader \<Rightarrow> Head \<Rightarrow> PageTarget \<Rightarrow> bool res" where
  "IsPageReachable xxh ctx r h target =
     (case ctx of Some err \<Rightarrow> Inl err
      | None \<Rightarrow>
        if pgt_Key target = [] \<or> pgt_Level target > MaxIndexLevel \<or> pgt_SeqHi target < pgt_SeqLo target then Inl []
        else bindE (validateConfigHead (rd_config r) h) (\<lambda>_.
          loopE (\<lambda>found. found) (rootReachable xxh r target (hh_WriterEpoch (hd_Header h))) False (headRoots h)))"

end
