(* ===== verification/Collector.thy ===== *)
theory Collector
  imports Prelude
begin

text \<open>
  The contract shared by the bounded collectors of the catalog reader: elements are offered one at a
  time, unwanted ones are dropped, wanted ones are kept up to a limit, and the first wanted element
  beyond the limit fills the collector and leaves its key as the position to resume from.
\<close>

locale collector =
  fixes add :: "'c \<Rightarrow> 'e \<Rightarrow> 'c"
    and full :: "'c \<Rightarrow> bool"
    and wanted :: "'c \<Rightarrow> 'e \<Rightarrow> bool"
    and out :: "'c \<Rightarrow> 'o list"
    and limit :: "'c \<Rightarrow> nat"
    and img :: "'c \<Rightarrow> 'e \<Rightarrow> 'o"
    and key :: "'e \<Rightarrow> u64"
    and resume :: "'c \<Rightarrow> u64"
  assumes add_done: "full c \<Longrightarrow> add c e = c"
    and add_skip: "\<not> wanted c e \<Longrightarrow> add c e = c"
    and add_last: "\<not> full c \<Longrightarrow> wanted c e \<Longrightarrow> length (out c) = limit c \<Longrightarrow>
      full (add c e) \<and> out (add c e) = out c \<and> resume (add c e) = key e"
    and add_room: "\<not> full c \<Longrightarrow> wanted c e \<Longrightarrow> length (out c) \<noteq> limit c \<Longrightarrow>
      \<not> full (add c e) \<and> out (add c e) = out c @ [img c e] \<and> resume (add c e) = resume c"
    and add_fixed: "wanted (add c e) = wanted c \<and> limit (add c e) = limit c \<and> img (add c e) = img c"
begin

lemma foldl_done: "full c \<Longrightarrow> foldl add c es = c"
  by (induction es) (simp_all add: add_done)

lemma foldl_skip: "(\<And>e. e \<in> set es \<Longrightarrow> \<not> wanted c e) \<Longrightarrow> foldl add c es = c"
  by (induction es) (simp_all add: add_skip)

text \<open>A loop that stops when the collector is full offers every element all the same.\<close>

lemma loop_concat:
  assumes "list_all2 (\<lambda>x es. \<forall>c. f c x = Inr (foldl add c es)) xs ess"
  shows "loopE full f c xs = Inr (foldl add c (concat ess))"
  using assms by (induction xs ess arbitrary: c rule: list_all2_induct) (auto simp: foldl_done add_done)

lemma loop_add: "loopE full (\<lambda>c e. Inr (add c e)) c es = Inr (foldl add c es)"
  by (induction es arbitrary: c) (simp_all add: foldl_done add_done)

lemma foldl_add:
  assumes "\<not> full c" "length (out c) \<le> limit c"
  shows "let rest = filter (wanted c) es; k = limit c - length (out c)
    in out (foldl add c es) = out c @ map (img c) (take k rest) \<and> full (foldl add c es) = (k < length rest)
      \<and> resume (foldl add c es) = (if k < length rest then key (rest ! k) else resume c)"
  using assms
proof (induction es arbitrary: c)
  case Nil
  then show ?case by (simp add: Let_def)
next
  case (Cons e es)
  show ?case
  proof (cases "wanted c e")
    case False
    then show ?thesis using Cons by (simp add: add_skip)
  next
    case True
    show ?thesis
    proof (cases "length (out c) = limit c")
      case limit: True
      note L = add_last[OF Cons.prems(1) True limit]
      then show ?thesis using True limit foldl_done[of "add c e" es] by (simp add: Let_def)
    next
      case False
      note R = add_room[OF Cons.prems(1) True False] and F = add_fixed[of c e]
      obtain k where k: "limit c - length (out c) = Suc k"
        using False Cons.prems(2) by (metis Suc_pred diff_is_0_eq le_neq_implies_less not_le zero_less_diff)
      then have "limit (add c e) - length (out (add c e)) = k" "length (out (add c e)) \<le> limit (add c e)"
        using R F by simp_all
      then show ?thesis using Cons.IH[of "add c e"] R F k True by (simp add: Let_def)
    qed
  qed
qed

end

end
