(* ===== verification/Cat_Reader_Spec.thy ===== *)
theory Cat_Reader_Spec
  imports Cat_Reader Collector
begin

text \<open>
  The list of segments a paged catalog stands for, and the refinement of every read to an operation
  on that list. \<^verbatim>\<open>leaves\<close> expands a page reference to the leaf entries below it by
  loading every page; \<^verbatim>\<open>head_leaves\<close> does so for a head. Where the expansion
  succeeds, the lookups, the listing and the timestamp search return what a linear scan of the list
  returns, and the reader interprets the catalog interface. Soundness of a lookup needs no such
  assumption: it holds on every store contents.
\<close>


section \<open>Expansion\<close>

function leaves :: "(bytes \<Rightarrow> u64) \<Rightarrow> Reader \<Rightarrow> u64 \<Rightarrow> IndexEntry \<Rightarrow> LeafEntry list res" where
  "leaves xxh r ep ref =
     (if ie_Level ref = 0 then bindE (loadLeaf xxh r ref ep) (\<lambda>page. Inr (lp_Entries page))
      else bindE (loadIndex xxh r ref ep) (\<lambda>page.
        bindE (mapE (\<lambda>child. leaves xxh r (ph_WriterEpoch (xp_Header page)) child) (xp_Entries page)) (\<lambda>ess.
          Inr (concat ess))))"
  by pat_completeness auto
termination
  by (relation "measure (\<lambda>(xxh, r, _, ref). unat (ie_Level ref))") (auto dest: loadIndex_level)

declare leaves.simps [simp del]

definition head_leaves :: "(bytes \<Rightarrow> u64) \<Rightarrow> Reader \<Rightarrow> Head \<Rightarrow> LeafEntry list res" where
  "head_leaves xxh r h =
     bindE (mapE (leaves xxh r (hh_WriterEpoch (hd_Header h))) (head_refs h)) (\<lambda>ess.
       Inr (concat ess @ hd_Active h))"

lemma leaves_leaf:
  assumes "leaves xxh r ep ref = Inr es" "ie_Level ref = 0"
  obtains page where "loadLeaf xxh r ref ep = Inr page" "es = lp_Entries page"
  using assms by (subst (asm) leaves.simps) auto

lemma leaves_index:
  assumes "leaves xxh r ep ref = Inr es" "ie_Level ref \<noteq> 0"
  obtains page ess where "loadIndex xxh r ref ep = Inr page" "es = concat ess"
    "list_all2 (\<lambda>child es. leaves xxh r (ph_WriterEpoch (xp_Header page)) child = Inr es) (xp_Entries page) ess"
  using assms by (subst (asm) leaves.simps) (auto simp: mapE_eq_Inr)


section \<open>A list of entries fits a range\<close>

definition fits :: "rootRange \<Rightarrow> LeafEntry list \<Rightarrow> bool" where
  "fits rg es \<longleftrightarrow> es \<noteq> [] \<and> list_all leaf_ok es \<and> tiles le_lo le_hi (rng_lo rg) es (rng_hi rg) \<and> leaf_ordered es
     \<and> rr_minTS rg = le_MinTimestampMS (hd es) \<and> rr_maxTS rg = le_MaxTimestampMS (last es)
     \<and> unat (rr_segments rg) = length es"

lemma leaf_ordered_append:
  "leaf_ordered (xs @ ys) \<longleftrightarrow> leaf_ordered xs \<and> leaf_ordered ys
     \<and> (\<forall>x\<in>set xs. \<forall>y\<in>set ys. sint (le_MaxTimestampMS x) \<le> sint (le_MinTimestampMS y))"
  by (auto simp: leaf_ordered_def sorted_wrt_append)

lemma leaf_ordered_bounds:
  assumes "leaf_ordered es" "list_all leaf_ok es" "x \<in> set es"
  shows "sint (le_MinTimestampMS (hd es)) \<le> sint (le_MinTimestampMS x)"
    "sint (le_MaxTimestampMS x) \<le> sint (le_MaxTimestampMS (last es))"
proof -
  have ok: "sint (le_MinTimestampMS y) \<le> sint (le_MaxTimestampMS y)" if "y \<in> set es" for y
    using assms(2) that by (auto simp: list_all_iff leaf_okD)
  obtain y ys where es: "es = y # ys" using assms(3) by (cases es) auto
  have "x \<noteq> y \<Longrightarrow> sint (le_MaxTimestampMS y) \<le> sint (le_MinTimestampMS x)"
    using assms(1,3) es by (auto simp: leaf_ordered_def)
  then show "sint (le_MinTimestampMS (hd es)) \<le> sint (le_MinTimestampMS x)"
    using ok[of y] es by (cases "x = y") auto
  obtain zs z where zs: "es = zs @ [z]" using assms(3) by (cases es rule: rev_cases) auto
  have "x \<noteq> z \<Longrightarrow> sint (le_MaxTimestampMS x) \<le> sint (le_MinTimestampMS z)"
    using assms(1,3) zs by (auto simp: leaf_ordered_append)
  then show "sint (le_MaxTimestampMS x) \<le> sint (le_MaxTimestampMS (last es))"
    using ok[of z] zs by (cases "x = z") auto
qed

lemma fits_bounds:
  assumes "fits rg es" "x \<in> set es"
  shows "sint (rr_minTS rg) \<le> sint (le_MinTimestampMS x)" "sint (le_MaxTimestampMS x) \<le> sint (rr_maxTS rg)"
  using assms leaf_ordered_bounds[of es x] by (auto simp: fits_def)

lemma fits_leaf: "leaf_ok e \<Longrightarrow> fits (leaf_range e) [e]"
  by (simp add: fits_def leaf_ordered_def) (simp add: leaf_range_def)

text \<open>Children that fit a run of contiguous, ordered ranges concatenate to a list that fits the run.\<close>

lemma fits_concat:
  assumes "list_all2 fits rs ess" "list_all rng_ok rs" "tiles rng_lo rng_hi a rs b" "rng_ordered rs"
  shows "list_all leaf_ok (concat ess)" "tiles le_lo le_hi a (concat ess) b" "leaf_ordered (concat ess)"
    "length (concat ess) = range_count rs"
proof -
  show "list_all leaf_ok (concat ess)"
    using assms(1) by (induction rs ess rule: list_all2_induct) (auto simp: fits_def)
  show "tiles le_lo le_hi a (concat ess) b"
    using assms(1,3) by (induction rs ess arbitrary: a rule: list_all2_induct) (auto simp: fits_def tiles_append)
  show "length (concat ess) = range_count rs"
    using assms(1) by (induction rs ess rule: list_all2_induct) (auto simp: fits_def)
  show "leaf_ordered (concat ess)" using assms(1,4)
  proof (induction rs ess rule: list_all2_induct)
    case Nil
    then show ?case by (simp add: leaf_ordered_def)
  next
    case (Cons rg rs es ess)
    have IH: "leaf_ordered (concat ess)" using Cons by (simp add: rng_ordered_def)
    have "sint (le_MaxTimestampMS x) \<le> sint (le_MinTimestampMS y)"
      if xy: "x \<in> set es" "y \<in> set (concat ess)" for x y
    proof -
      obtain k where k: "k < length ess" "y \<in> set (ess ! k)" using xy(2) by (metis in_set_conv_nth UN_E set_concat)
      have "fits (rs ! k) (ess ! k)" "rs ! k \<in> set rs" using Cons(2) k(1) by (auto simp: list_all2_conv_all_nth)
      then have "sint (rr_maxTS rg) \<le> sint (rr_minTS (rs ! k))" "sint (rr_minTS (rs ! k)) \<le> sint (le_MinTimestampMS y)"
        using Cons.prems k(2) fits_bounds(1) by (auto simp: rng_ordered_def)
      moreover have "sint (le_MaxTimestampMS x) \<le> sint (rr_maxTS rg)" using Cons(1) xy(1) by (rule fits_bounds)
      ultimately show ?thesis by linarith
    qed
    with IH Cons(1) show ?case by (simp add: leaf_ordered_append fits_def)
  qed
qed

lemma hd_last_concat:
  assumes "ess \<noteq> []" "\<forall>es\<in>set ess. es \<noteq> []"
  shows "hd (concat ess) = hd (hd ess)" "last (concat ess) = last (last ess)"
proof -
  show "hd (concat ess) = hd (hd ess)" using assms by (cases ess) auto
  obtain fs f where "ess = fs @ [f]" using assms(1) by (cases ess rule: rev_cases) auto
  then show "last (concat ess) = last (last ess)" using assms(2) by simp
qed

lemma leaves_fits: "leaves xxh r ep ref = Inr es \<Longrightarrow> fits (ref_range ref) es"
proof (induction xxh r ep ref arbitrary: es rule: leaves.induct)
  case (1 xxh r ep ref)
  show ?case
  proof (cases "ie_Level ref = 0")
    case True
    obtain page where l: "loadLeaf xxh r ref ep = Inr page" and es: "es = lp_Entries page"
      using leaves_leaf[OF 1(2) True] .
    note V = validateLeafPage_Inr[OF loadLeaf_Inr(1)[OF l]] and M = loadLeaf_Inr(2)[OF l, unfolded matchesPageRef_def]
    show ?thesis using V M by (simp add: fits_def es ref_range_def rng_lo_def rng_hi_def)
  next
    case False
    obtain page ess where l: "loadIndex xxh r ref ep = Inr page" and es: "es = concat ess"
      and ess: "list_all2 (\<lambda>child es. leaves xxh r (ph_WriterEpoch (xp_Header page)) child = Inr es) (xp_Entries page) ess"
      using leaves_index[OF 1(2) False] .
    note V = validateIndexPage_Inr[OF loadIndex_Inr(1)[OF l]] and M = loadIndex_Inr(2)[OF l, unfolded matchesPageRef_def]
    let ?rs = "map ref_range (xp_Entries page)"
    have f: "list_all2 (\<lambda>child es. fits (ref_range child) es) (xp_Entries page) ess"
      using ess by (rule list.rel_mono_strong) (use 1(1)[OF False l] in blast)
    then have fr: "list_all2 fits ?rs ess" by (simp add: list.rel_map)
    have ok: "list_all rng_ok ?rs" using V(1) by (auto simp: list_all_iff ref_okD)
    have t: "tiles rng_lo rng_hi (ie_lo ref) ?rs (ie_hi ref)"
      using V(5) M by (simp add: tiles_map o_def ie_lo_def[abs_def] ie_hi_def[abs_def])
    have o: "rng_ordered ?rs"
      using V(6) by (simp add: rng_ordered_def ref_ordered_def sorted_wrt_map ref_range_def)
    note C = fits_concat[OF fr ok t o]
    have ne: "ess \<noteq> []" using f V(3) by auto
    have all: "\<forall>es\<in>set ess. es \<noteq> []" using fr by (auto simp: list_all2_conv_all_nth in_set_conv_nth fits_def)
    have "fits (ref_range (hd (xp_Entries page))) (hd ess)" "fits (ref_range (last (xp_Entries page))) (last ess)"
      using f ne V(3) by (auto simp: list_all2_conv_all_nth hd_conv_nth last_conv_nth)
    then have "ie_MinTimestampMS ref = le_MinTimestampMS (hd es)" "ie_MaxTimestampMS ref = le_MaxTimestampMS (last es)"
      using M V(9,10) hd_last_concat[OF ne all] es by (simp_all add: fits_def ref_range_def)
    moreover have "es \<noteq> []" using ne all es by (cases ess) auto
    ultimately show ?thesis
      using C V(8) M es by (simp add: fits_def) (simp add: ref_range_def)
  qed
qed


section \<open>What a head stands for\<close>

lemma head_leaves_ess:
  assumes "head_leaves xxh r h = Inr es" "active_ok h"
  obtains ess where "es = concat ess" "list_all2 fits (head_ranges h) ess"
    "list_all2 (\<lambda>root es. case root of RootRef ref \<Rightarrow> leaves xxh r (hh_WriterEpoch (hd_Header h)) ref = Inr es
       | RootLeaf leaf \<Rightarrow> es = [leaf]) (headRoots h) ess"
proof -
  obtain ess where ess: "list_all2 (\<lambda>ref es. leaves xxh r (hh_WriterEpoch (hd_Header h)) ref = Inr es) (head_refs h) ess"
    and es: "es = concat ess @ hd_Active h"
    using assms(1) by (auto simp: head_leaves_def mapE_eq_Inr)
  let ?all = "ess @ map (\<lambda>e. [e]) (hd_Active h)"
  have roots: "headRoots h = map RootRef (head_refs h) @ map RootLeaf (hd_Active h)"
    by (simp add: headRoots_def head_refs_def map_concat o_def)
  have "list_all2 (\<lambda>ref es. fits (ref_range ref) es) (head_refs h) ess"
    using ess by (rule list.rel_mono_strong) (simp add: leaves_fits)
  then have a: "list_all2 fits (head_ranges h) ?all"
    using assms(2) by (auto simp: head_ranges_eq list.rel_map active_ok_def list_all_iff fits_leaf
        intro!: list_all2_appendI list.rel_refl_strong)
  have b: "list_all2 (\<lambda>root es. case root of RootRef ref \<Rightarrow> leaves xxh r (hh_WriterEpoch (hd_Header h)) ref = Inr es
       | RootLeaf leaf \<Rightarrow> es = [leaf]) (headRoots h) ?all"
    using ess by (auto simp: roots list.rel_map intro!: list_all2_appendI list.rel_refl_strong)
  show ?thesis by (rule that[OF _ a b]) (simp add: es)
qed

lemma head_leaves_spec:
  assumes "validateHead h = Inr ()" "head_leaves xxh r h = Inr es"
  shows "list_all leaf_ok es" "leaf_ordered es"
    "tiles le_lo le_hi (unat (hh_OldestLSN (hd_Header h))) es (unat (hh_NextLSN (hd_Header h)))"
    "unat (hh_ReachableSegmentCount (hd_Header h)) = length es"
proof -
  note V = validateHead_Inr[OF assms(1)]
  obtain ess where es: "es = concat ess" and f: "list_all2 fits (head_ranges h) ess"
    using head_leaves_ess[OF assms(2) V(9)] .
  note C = fits_concat[OF f V(1) V(2) V(3)]
  show "list_all leaf_ok es" "leaf_ordered es"
    "tiles le_lo le_hi (unat (hh_OldestLSN (hd_Header h))) es (unat (hh_NextLSN (hd_Header h)))"
    "unat (hh_ReachableSegmentCount (hd_Header h)) = length es"
    using C V(4) es by auto
qed


section \<open>Lookup by log sequence number\<close>

definition find_leaf :: "LeafEntry list \<Rightarrow> nat \<Rightarrow> LeafEntry option" where
  "find_leaf es l = List.find (\<lambda>e. le_lo e \<le> l \<and> l < le_hi e) es"

lemma search_bounds:
  "(le_LastLSN e \<ge> lsn) = (unat lsn < le_hi e)" "(le_BaseLSN e > lsn) = (unat lsn < le_lo e)"
  "(ie_SeqHi i \<ge> lsn) = (unat lsn < ie_hi i)" "(ie_SeqLo i > lsn) = (unat lsn < ie_lo i)"
  by (simp_all add: le_hi_def le_lo_def ie_hi_def ie_lo_def word_le_nat_alt word_less_nat_alt less_Suc_eq_le)

fun root_range :: "headRoot \<Rightarrow> rootRange" where
  "root_range (RootRef ref) = ref_range ref"
| "root_range (RootLeaf leaf) = leaf_range leaf"

lemma root_bounds:
  "(root_seqHi root \<ge> lsn) = (unat lsn < rng_hi (root_range root))"
  "(root_seqLo root > lsn) = (unat lsn < rng_lo (root_range root))"
  by (induction root) (simp_all add: search_bounds)

lemma root_max: "root_maxTimestamp root = rr_maxTS (root_range root)"
  by (cases root) (simp_all add: leaf_range_def ref_range_def)

lemma headRoots_eq: "headRoots h = map RootRef (head_refs h) @ map RootLeaf (hd_Active h)"
  by (simp add: headRoots_def head_refs_def map_concat o_def)

lemma head_ranges_roots: "head_ranges h = map root_range (headRoots h)"
  by (simp add: head_ranges_eq headRoots_eq o_def)

lemma search_list_map: "search_list P (map f xs) = search_list (\<lambda>x. P (f x)) xs"
proof -
  have cong: "search_loop f i j = search_loop g i j" if "\<And>k. k < j \<Longrightarrow> f k = g k" for f g :: "nat \<Rightarrow> bool" and i j
    using that
  proof (induction f i j rule: search_loop.induct)
    case (1 f i j)
    show ?case
    proof (cases "i < j")
      case True
      then have "f ((i + j) div 2) = g ((i + j) div 2)" using 1(3) by simp
      then show ?thesis using 1 True
        by (subst (1 2) search_loop.simps) (simp add: Let_def)
    qed (simp add: search_loop.simps)
  qed
  have "search_loop (\<lambda>i. P (map f xs ! i)) 0 (length xs) = search_loop (\<lambda>i. P (f (xs ! i))) 0 (length xs)"
    by (rule cong) simp
  then show ?thesis by (simp only: search_list_def sort_Search_def length_map)
qed

lemma find_leaf_concat:
  assumes "list_all2 fits rs ess" "list_all rng_ok rs" "tiles rng_lo rng_hi a rs b" "rng_ordered rs"
    and "i < length rs" "rng_lo (rs ! i) \<le> l" "l < rng_hi (rs ! i)"
  shows "find_leaf (concat ess) l = find_leaf (ess ! i) l" "find_leaf (ess ! i) l \<noteq> None"
proof -
  note C = fits_concat[OF assms(1-4)]
  have i: "i < length ess" "fits (rs ! i) (ess ! i)" using assms(1,5) by (auto simp: list_all2_conv_all_nth)
  then have fi: "tiles le_lo le_hi (rng_lo (rs ! i)) (ess ! i) (rng_hi (rs ! i))" "list_all leaf_ok (ess ! i)"
    by (auto simp: fits_def)
  show ne: "find_leaf (ess ! i) l \<noteq> None"
    using lfi.find_outside[OF fi, of l] assms(6,7) by (auto simp: find_leaf_def)
  then obtain e where e: "find_leaf (ess ! i) l = Some e" by auto
  then have "e \<in> set (ess ! i)" "le_lo e \<le> l" "l < le_hi e"
    using lfi.find_iff[OF fi, of l e] by (auto simp: find_leaf_def)
  then have "find_leaf (concat ess) l = Some e"
    using lfi.find_iff[OF C(2,1), of l e] i(1) by (auto simp: find_leaf_def)
  with e show "find_leaf (concat ess) l = find_leaf (ess ! i) l" by simp
qed

lemma findInPage_spec:
  "leaves xxh r ep ref = Inr es \<Longrightarrow>
     findInPage xxh r ref lsn ep = Inr (map_option (segmentRef (rd_config r)) (find_leaf es (unat lsn)))"
proof (induction xxh r ref lsn ep arbitrary: es rule: findInPage.induct)
  case (1 xxh r ref lsn ep)
  show ?case
  proof (cases "ie_Level ref = 0")
    case True
    obtain page where l: "loadLeaf xxh r ref ep = Inr page" and es: "es = lp_Entries page"
      using leaves_leaf[OF 1(2) True] .
    note V = validateLeafPage_Inr[OF loadLeaf_Inr(1)[OF l]]
    have "find_leaf es (unat lsn) = (let i = search_list (\<lambda>e. unat lsn < le_hi e) es
        in if i = length es \<or> unat lsn < le_lo (es ! i) then None else Some (es ! i))"
      unfolding find_leaf_def using lfi.search_find[OF V(5,1)] es by metis
    then show ?thesis
      using True l es by (subst findInPage.simps) (simp add: search_bounds Let_def)
  next
    case False
    obtain page ess where l: "loadIndex xxh r ref ep = Inr page" and es: "es = concat ess"
      and ess: "list_all2 (\<lambda>child es. leaves xxh r (ph_WriterEpoch (xp_Header page)) child = Inr es) (xp_Entries page) ess"
      using leaves_index[OF 1(2) False] .
    note V = validateIndexPage_Inr[OF loadIndex_Inr(1)[OF l]] and M = loadIndex_Inr(2)[OF l, unfolded matchesPageRef_def]
    let ?xs = "xp_Entries page" and ?l = "unat lsn"
    let ?rs = "map ref_range ?xs" and ?i = "search_list (\<lambda>e. ?l < ie_hi e) ?xs"
    have fr: "list_all2 fits ?rs ess"
      using ess unfolding list.rel_map by (rule list.rel_mono_strong) (simp add: leaves_fits)
    have ok: "list_all rng_ok ?rs" using V(1) by (auto simp: list_all_iff ref_okD)
    have t: "tiles rng_lo rng_hi (ie_lo ref) ?rs (ie_hi ref)"
      using V(5) M by (simp add: tiles_map o_def ie_lo_def[abs_def] ie_hi_def[abs_def])
    have o: "rng_ordered ?rs"
      using V(6) by (simp add: rng_ordered_def ref_ordered_def sorted_wrt_map ref_range_def)
    note C = fits_concat[OF fr ok t o]
    have def: "findInPage xxh r ref lsn ep = (if ?i = length ?xs \<or> ?l < ie_lo (?xs ! ?i) then Inr None
        else findInPage xxh r (?xs ! ?i) lsn (ph_WriterEpoch (xp_Header page)))"
      using False l by (subst findInPage.simps) (simp add: search_bounds Let_def)
    show ?thesis
    proof (cases "?i = length ?xs \<or> ?l < ie_lo (?xs ! ?i)")
      case True
      then have "List.find (\<lambda>x. ie_lo x \<le> ?l \<and> ?l < ie_hi x) ?xs = None"
        using rfi.search_find[OF V(5,1), of ?l] by (auto simp: Let_def)
      then have "?l < ie_lo ref \<or> ie_hi ref \<le> ?l"
        using rfi.find_outside[OF V(5,1), of ?l] M by (simp add: ie_lo_def ie_hi_def)
      then have "find_leaf es ?l = None"
        using lfi.find_outside[OF C(2,1), of ?l] es by (simp add: find_leaf_def)
      then show ?thesis using True def by simp
    next
      case nf: False
      then have i: "?i < length ?xs" using search_list_le[of "\<lambda>e. ?l < ie_hi e" ?xs] by simp
      have hit: "?l < ie_hi (?xs ! ?i)" using i by (rule search_list_hit)
      have "find_leaf es ?l = find_leaf (ess ! ?i) ?l"
        using find_leaf_concat(1)[OF fr ok t o, of ?i ?l] i hit nf es by simp
      moreover have "leaves xxh r (ph_WriterEpoch (xp_Header page)) (?xs ! ?i) = Inr (ess ! ?i)"
        using ess i by (simp add: list_all2_conv_all_nth)
      ultimately show ?thesis
        using 1(1)[OF False l refl refl, unfolded search_bounds] nf def by auto
    qed
  qed
qed

text \<open>On any store contents: what a lookup returns holds the number asked for.\<close>

lemma findInPage_sound:
  "findInPage xxh r ref lsn ep = Inr (Some s) \<Longrightarrow>
     \<exists>e. leaf_ok e \<and> s = segmentRef (rd_config r) e \<and> le_BaseLSN e \<le> lsn \<and> lsn \<le> le_LastLSN e"
proof (induction xxh r ref lsn ep rule: findInPage.induct)
  case (1 xxh r ref lsn ep)
  show ?case
  proof (cases "ie_Level ref = 0")
    case True
    with 1(2) obtain page where l: "loadLeaf xxh r ref ep = Inr page"
      by (subst (asm) findInPage.simps) (auto split: if_splits)
    let ?es = "lp_Entries page" and ?i = "search_list (\<lambda>e. le_LastLSN e \<ge> lsn) (lp_Entries page)"
    have i: "?i \<noteq> length ?es" "\<not> le_BaseLSN (?es ! ?i) > lsn" "s = segmentRef (rd_config r) (?es ! ?i)"
      using 1(2) True l by (subst (asm) findInPage.simps, auto simp: Let_def split: if_splits)+
    then have "?i < length ?es" using search_list_le[of "\<lambda>e. le_LastLSN e \<ge> lsn" ?es] by simp
    moreover from this have "le_LastLSN (?es ! ?i) \<ge> lsn" by (rule search_list_hit)
    moreover have "leaf_ok (?es ! ?i)"
      using validateLeafPage_Inr(1)[OF loadLeaf_Inr(1)[OF l]] \<open>?i < length ?es\<close> by (simp add: list_all_length)
    ultimately show ?thesis using i by (auto simp: not_less)
  next
    case False
    with 1(2) obtain page where l: "loadIndex xxh r ref ep = Inr page"
      by (subst (asm) findInPage.simps) auto
    let ?es = "xp_Entries page" and ?i = "search_list (\<lambda>e. ie_SeqHi e \<ge> lsn) (xp_Entries page)"
    have "\<not> (?i = length ?es \<or> ie_SeqLo (?es ! ?i) > lsn)"
      "findInPage xxh r (?es ! ?i) lsn (ph_WriterEpoch (xp_Header page)) = Inr (Some s)"
      using 1(2) False l by (subst (asm) findInPage.simps, auto simp: Let_def split: if_splits)+
    then show ?thesis using 1(1)[OF False l refl refl] by blast
  qed
qed


lemma Reader_FindSegment_spec:
  assumes "validateHead h = Inr ()" "validateConfigHead (rd_config r) h = Inr ()" "head_leaves xxh r h = Inr es"
  shows "Reader_FindSegment xxh None r h lsn = Inr (map_option (segmentRef (rd_config r)) (find_leaf es (unat lsn)))"
proof -
  note V = validateHead_Inr[OF assms(1)] and S = head_leaves_spec[OF assms(1,3)]
  let ?l = "unat lsn" and ?a = "unat (hh_OldestLSN (hd_Header h))" and ?b = "unat (hh_NextLSN (hd_Header h))"
  let ?i = "search_list (\<lambda>rg. ?l < rng_hi rg) (head_ranges h)"
  have nl: "\<not> HasLastSegment h \<Longrightarrow> ?a = ?b" using V(2,7) by simp
  have out: "lsn < hh_OldestLSN (hd_Header h) \<or> lsn \<ge> hh_NextLSN (hd_Header h) \<longleftrightarrow> ?l < ?a \<or> ?b \<le> ?l"
    by (simp add: word_less_nat_alt word_le_nat_alt)
  have i: "search_list (\<lambda>root. root_seqHi root \<ge> lsn) (headRoots h) = ?i"
    by (simp add: head_ranges_roots search_list_map root_bounds)
  show ?thesis
  proof (cases "?l < ?a \<or> ?b \<le> ?l")
    case True
    then have "find_leaf es ?l = None" using lfi.find_outside[OF S(3,1), of ?l] by (simp add: find_leaf_def)
    then show ?thesis using assms(2) True out by (simp add: Reader_FindSegment_def Let_def)
  next
    case False
    then have hit: "?i < length (head_ranges h)" "rng_lo (head_ranges h ! ?i) \<le> ?l" "?l < rng_hi (head_ranges h ! ?i)"
      using rng.search_hit[OF V(2,1), of ?l] by auto
    obtain ess where es: "es = concat ess" and f: "list_all2 fits (head_ranges h) ess"
      and ess: "list_all2 (\<lambda>root es. case root of RootRef ref \<Rightarrow> leaves xxh r (hh_WriterEpoch (hd_Header h)) ref = Inr es
       | RootLeaf leaf \<Rightarrow> es = [leaf]) (headRoots h) ess"
      using head_leaves_ess[OF assms(3) V(9)] .
    note F = find_leaf_concat[OF f V(1) V(2) V(3) hit]
    have len: "?i < length (headRoots h)" using hit(1) by (simp add: head_ranges_roots)
    have root: "root_range (headRoots h ! ?i) = head_ranges h ! ?i" using len by (simp add: head_ranges_roots)
    have step: "Reader_FindSegment xxh None r h lsn = (case headRoots h ! ?i of
          RootLeaf leaf \<Rightarrow> Inr (Some (segmentRef (rd_config r) leaf))
        | RootRef ref \<Rightarrow> findInPage xxh r ref lsn (hh_WriterEpoch (hd_Header h)))"
      using assms(2) False out nl len hit(2) root
      by (auto simp: Reader_FindSegment_def Let_def i root_bounds(2))
    have e: "case headRoots h ! ?i of RootRef ref \<Rightarrow> leaves xxh r (hh_WriterEpoch (hd_Header h)) ref = Inr (ess ! ?i)
       | RootLeaf leaf \<Rightarrow> ess ! ?i = [leaf]" using ess len by (simp add: list_all2_conv_all_nth)
    show ?thesis
    proof (cases "headRoots h ! ?i")
      case (RootRef ref)
      then show ?thesis using step e findInPage_spec F(1) es by simp
    next
      case (RootLeaf leaf)
      then have "find_leaf (ess ! ?i) ?l = Some leaf" using e F(2) by (auto simp: find_leaf_def split: if_splits)
      then show ?thesis using step RootLeaf F(1) es by simp
    qed
  qed
qed


section \<open>Lookup by time\<close>

definition find_ts :: "LeafEntry list \<Rightarrow> int \<Rightarrow> LeafEntry option" where
  "find_ts es t = List.find (\<lambda>e. t \<le> sint (le_MaxTimestampMS e)) es"

lemma find_concat:
  assumes "i < length ess" "\<And>j x. j < i \<Longrightarrow> x \<in> set (ess ! j) \<Longrightarrow> \<not> P x" "\<exists>x\<in>set (ess ! i). P x"
  shows "List.find P (concat ess) = List.find P (ess ! i)"
proof -
  have "ess = take i ess @ ess ! i # drop (Suc i) ess" using assms(1) by (rule id_take_nth_drop)
  then have "concat ess = concat (take i ess) @ ess ! i @ concat (drop (Suc i) ess)"
    by (metis concat.simps(2) concat_append)
  moreover have "\<not> P x" if x: "x \<in> set (concat (take i ess))" for x
  proof -
    obtain es where "es \<in> set (take i ess)" "x \<in> set es" using x by auto
    then obtain j where "j < i" "x \<in> set (ess ! j)" using assms(1) by (auto simp: in_set_conv_nth[of es])
    then show ?thesis by (rule assms(2))
  qed
  then have "List.find P (concat (take i ess)) = None" by (auto simp: find_None_iff)
  moreover obtain y where "List.find P (ess ! i) = Some y"
    using assms(3) by (cases "List.find P (ess ! i)") (auto simp: find_None_iff)
  moreover have "List.find P (xs @ ys) = (case List.find P xs of None \<Rightarrow> List.find P ys | Some x \<Rightarrow> Some x)" for xs ys
    by (induction xs) auto
  ultimately show ?thesis by simp
qed

text \<open>A search for the first large enough maximum, over any elements ordered in time.\<close>

lemma search_find_max:
  fixes lo' hi' :: "'a \<Rightarrow> int"
  assumes "sorted_wrt (\<lambda>x y. hi' x \<le> lo' y) xs" "\<And>x. x \<in> set xs \<Longrightarrow> lo' x \<le> hi' x"
  shows "search_list (\<lambda>x. t \<le> hi' x) xs = length (takeWhile (\<lambda>x. \<not> t \<le> hi' x) xs)"
    and "List.find (\<lambda>x. t \<le> hi' x) xs
      = (let i = search_list (\<lambda>x. t \<le> hi' x) xs in if i = length xs then None else Some (xs ! i))"
proof -
  have "sorted_wrt (\<lambda>x y. t \<le> hi' x \<longrightarrow> t \<le> hi' y) xs"
    by (rule sorted_wrt_mono_rel[OF _ assms(1)]) (use assms(2) in force)
  then show *: "search_list (\<lambda>x. t \<le> hi' x) xs = length (takeWhile (\<lambda>x. \<not> t \<le> hi' x) xs)"
    by (rule search_list_takeWhile)
  show "List.find (\<lambda>x. t \<le> hi' x) xs
      = (let i = search_list (\<lambda>x. t \<le> hi' x) xs in if i = length xs then None else Some (xs ! i))"
    unfolding * by (simp add: find_takeWhile Let_def)
qed

lemma find_ts_search:
  assumes "leaf_ordered es" "list_all leaf_ok es"
  shows "find_ts es t = (let i = search_list (\<lambda>e. t \<le> sint (le_MaxTimestampMS e)) es
    in if i = length es then None else Some (es ! i))"
  unfolding find_ts_def
  by (rule search_find_max(2)[where lo' = "\<lambda>e. sint (le_MinTimestampMS e)"])
    (use assms in \<open>auto simp: leaf_ordered_def list_all_iff leaf_okD\<close>)

lemma find_ts_concat:
  fixes t :: int
  assumes "list_all2 fits rs ess" "list_all rng_ok rs" "rng_ordered rs"
  defines "i \<equiv> search_list (\<lambda>rg. t \<le> sint (rr_maxTS rg)) rs"
  shows "i = length rs \<Longrightarrow> find_ts (concat ess) t = None"
    and "i < length rs \<Longrightarrow> find_ts (concat ess) t = find_ts (ess ! i) t \<and> find_ts (ess ! i) t \<noteq> None"
proof -
  have i: "i = length (takeWhile (\<lambda>rg. \<not> t \<le> sint (rr_maxTS rg)) rs)"
    unfolding i_def by (rule search_find_max(1)[where lo' = "\<lambda>rg. sint (rr_minTS rg)"])
      (use assms(2,3) in \<open>auto simp: rng_ordered_def list_all_iff rng_ok_def\<close>)
  have below: "\<not> t \<le> sint (le_MaxTimestampMS x)" if "j < i" "x \<in> set (ess ! j)" for j x
  proof -
    have j: "j < length rs" using that(1) i length_takeWhile_le[of _ rs] by (metis less_le_trans)
    have "\<not> t \<le> sint (rr_maxTS (rs ! j))"
      using that(1) i nth_mem[of j "takeWhile (\<lambda>rg. \<not> t \<le> sint (rr_maxTS rg)) rs"]
      by (auto simp: takeWhile_nth dest: set_takeWhileD)
    moreover have "fits (rs ! j) (ess ! j)" using assms(1) j by (simp add: list_all2_conv_all_nth)
    ultimately show ?thesis using fits_bounds(2) that(2) by fastforce
  qed
  have len: "length ess = length rs" using assms(1) by (simp add: list_all2_lengthD)
  show "i = length rs \<Longrightarrow> find_ts (concat ess) t = None"
  proof -
    assume "i = length rs"
    then have "\<not> t \<le> sint (le_MaxTimestampMS x)" if "x \<in> set (concat ess)" for x
      using that below len by (metis UN_E in_set_conv_nth set_concat)
    then show ?thesis by (auto simp: find_ts_def find_None_iff)
  qed
  show "i < length rs \<Longrightarrow> find_ts (concat ess) t = find_ts (ess ! i) t \<and> find_ts (ess ! i) t \<noteq> None"
  proof -
    assume lt: "i < length rs"
    then have "t \<le> sint (rr_maxTS (rs ! i))" unfolding i_def by (rule search_list_hit)
    moreover have "fits (rs ! i) (ess ! i)" using assms(1) lt by (simp add: list_all2_conv_all_nth)
    ultimately have ex: "\<exists>x\<in>set (ess ! i). t \<le> sint (le_MaxTimestampMS x)"
      by (auto simp: fits_def intro!: bexI[of _ "last (ess ! i)"])
    then have "find_ts (ess ! i) t \<noteq> None" by (auto simp: find_ts_def find_None_iff)
    moreover have "find_ts (concat ess) t = find_ts (ess ! i) t"
      unfolding find_ts_def by (rule find_concat) (use lt len below ex in auto)
    ultimately show ?thesis by blast
  qed
qed

lemma findTimestampInPage_spec:
  "leaves xxh r ep ref = Inr es \<Longrightarrow>
     findTimestampInPage xxh r ref t ep = Inr (map_option (segmentRef (rd_config r)) (find_ts es (sint t)))"
proof (induction xxh r ref t ep arbitrary: es rule: findTimestampInPage.induct)
  case (1 xxh r ref t ep)
  show ?case
  proof (cases "ie_Level ref = 0")
    case True
    obtain page where l: "loadLeaf xxh r ref ep = Inr page" and es: "es = lp_Entries page"
      using leaves_leaf[OF 1(2) True] .
    note V = validateLeafPage_Inr[OF loadLeaf_Inr(1)[OF l]]
    show ?thesis
      using True l es find_ts_search[OF V(6,1), of "sint t"]
      by (subst findTimestampInPage.simps) (simp add: Let_def)
  next
    case False
    obtain page ess where l: "loadIndex xxh r ref ep = Inr page" and es: "es = concat ess"
      and ess: "list_all2 (\<lambda>child es. leaves xxh r (ph_WriterEpoch (xp_Header page)) child = Inr es) (xp_Entries page) ess"
      using leaves_index[OF 1(2) False] .
    note V = validateIndexPage_Inr[OF loadIndex_Inr(1)[OF l]]
    let ?xs = "xp_Entries page"
    let ?rs = "map ref_range ?xs" and ?i = "search_list (\<lambda>e. sint t \<le> sint (ie_MaxTimestampMS e)) ?xs"
    have fr: "list_all2 fits ?rs ess"
      using ess unfolding list.rel_map by (rule list.rel_mono_strong) (simp add: leaves_fits)
    have ok: "list_all rng_ok ?rs" using V(1) by (auto simp: list_all_iff ref_okD)
    have o: "rng_ordered ?rs"
      using V(6) by (simp add: rng_ordered_def ref_ordered_def sorted_wrt_map ref_range_def)
    have i: "search_list (\<lambda>rg. sint t \<le> sint (rr_maxTS rg)) ?rs = ?i"
      by (simp add: search_list_map ref_range_def)
    note F = find_ts_concat[OF fr ok o, of "sint t", unfolded i]
    have def: "findTimestampInPage xxh r ref t ep = (if ?i = length ?xs then Inr None
        else findTimestampInPage xxh r (?xs ! ?i) t (ph_WriterEpoch (xp_Header page)))"
      using False l by (subst findTimestampInPage.simps) (simp add: Let_def)
    show ?thesis
    proof (cases "?i = length ?xs")
      case True
      then show ?thesis using F(1) def es by simp
    next
      case ni: False
      then have lt: "?i < length ?xs" using search_list_le[of "\<lambda>e. sint t \<le> sint (ie_MaxTimestampMS e)" ?xs] by simp
      then have "leaves xxh r (ph_WriterEpoch (xp_Header page)) (?xs ! ?i) = Inr (ess ! ?i)"
        using ess by (simp add: list_all2_conv_all_nth)
      then show ?thesis using 1(1)[OF False l refl refl ni] F(2) lt ni def es by simp
    qed
  qed
qed

lemma Reader_LookupTimestamp_spec:
  assumes "validateHead h = Inr ()" "validateConfigHead (rd_config r) h = Inr ()" "head_leaves xxh r h = Inr es"
    and "es \<noteq> [] \<Longrightarrow> last es = hd_LastSegment h"
  shows "Reader_LookupTimestamp xxh None r h t = Inr (map_option (segmentRef (rd_config r)) (find_ts es (sint t)))"
proof -
  note V = validateHead_Inr[OF assms(1)] and S = head_leaves_spec[OF assms(1,3)]
  let ?i = "search_list (\<lambda>rg. sint t \<le> sint (rr_maxTS rg)) (head_ranges h)"
  obtain ess where es: "es = concat ess" and f: "list_all2 fits (head_ranges h) ess"
    and ess: "list_all2 (\<lambda>root es. case root of RootRef ref \<Rightarrow> leaves xxh r (hh_WriterEpoch (hd_Header h)) ref = Inr es
       | RootLeaf leaf \<Rightarrow> es = [leaf]) (headRoots h) ess"
    using head_leaves_ess[OF assms(3) V(9)] .
  note F = find_ts_concat[OF f V(1,3), of "sint t"]
  have i: "search_list (\<lambda>root. sint (root_maxTimestamp root) \<ge> sint t) (headRoots h) = ?i"
    by (simp add: head_ranges_roots search_list_map root_max)
  have len: "length (headRoots h) = length (head_ranges h)" by (simp add: head_ranges_roots)
  have empty: "hh_OldestLSN (hd_Header h) = hh_NextLSN (hd_Header h) \<longleftrightarrow> es = []"
    using S(3) lfi.tiles_less[OF S(3,1)] by (cases "es = []") (auto simp: word_unat_eq_iff)
  have nl: "\<not> HasLastSegment h \<Longrightarrow> es = []" using V(7) f es by auto
  have late: "es \<noteq> [] \<Longrightarrow> sint t > sint (le_MaxTimestampMS (hd_LastSegment h)) \<Longrightarrow> find_ts es (sint t) = None"
    using leaf_ordered_bounds(2)[OF S(2,1)] assms(4) by (fastforce simp: find_ts_def find_None_iff)
  show ?thesis
  proof (cases "es = [] \<or> sint t > sint (le_MaxTimestampMS (hd_LastSegment h))")
    case True
    then have "find_ts es (sint t) = None" using late by (cases "es = []") (auto simp: find_ts_def)
    then show ?thesis using assms(2) True empty by (auto simp: Reader_LookupTimestamp_def Let_def)
  next
    case False
    then have step: "Reader_LookupTimestamp xxh None r h t = (if ?i = length (headRoots h) then Inr None
        else case headRoots h ! ?i of
            RootLeaf leaf \<Rightarrow> Inr (Some (segmentRef (rd_config r) leaf))
          | RootRef ref \<Rightarrow> findTimestampInPage xxh r ref t (hh_WriterEpoch (hd_Header h)))"
      using assms(2) nl empty i by (auto simp: Reader_LookupTimestamp_def Let_def)
    show ?thesis
    proof (cases "?i = length (headRoots h)")
      case True
      then show ?thesis using step F(1) len es by simp
    next
      case ni: False
      then have lt: "?i < length (headRoots h)"
        using search_list_le[of "\<lambda>rg. sint t \<le> sint (rr_maxTS rg)" "head_ranges h"] len by simp
      have e: "case headRoots h ! ?i of RootRef ref \<Rightarrow> leaves xxh r (hh_WriterEpoch (hd_Header h)) ref = Inr (ess ! ?i)
        | RootLeaf leaf \<Rightarrow> ess ! ?i = [leaf]" using ess lt by (simp add: list_all2_conv_all_nth)
      have c: "find_ts es (sint t) = find_ts (ess ! ?i) (sint t)" "find_ts (ess ! ?i) (sint t) \<noteq> None"
        using F(2) lt len es by auto
      show ?thesis
      proof (cases "headRoots h ! ?i")
        case (RootRef ref)
        then show ?thesis using step e findTimestampInPage_spec c(1) ni by simp
      next
        case (RootLeaf leaf)
        then have "find_ts (ess ! ?i) (sint t) = Some leaf" using e c(2) by (auto simp: find_ts_def split: if_splits)
        then show ?thesis using step RootLeaf c(1) ni by simp
      qed
    qed
  qed
qed


section \<open>Listing\<close>

lemma skip_iff: "le_LastLSN e < pos \<longleftrightarrow> \<not> unat pos < le_hi e"
  by (simp add: word_less_nat_alt le_hi_def) linarith

interpretation segc: collector pc_add pc_hasMore "\<lambda>c e. unat (pc_fromLSN c) < le_hi e" pc_segments pc_limit
  "\<lambda>c. segmentRef (pc_config c)" le_BaseLSN pc_nextLSN
  by unfold_locales (simp_all add: pc_add_def skip_iff)

lemma foldl_concat_map: "foldl (\<lambda>c x. foldl f c (h x)) c xs = foldl f c (concat (map h xs))"
  by (induction xs arbitrary: c) simp_all

lemma collectPage_spec:
  "leaves xxh r ep ref = Inr es \<Longrightarrow> collectPage xxh r ref ep c = Inr (foldl pc_add c es)"
proof (induction xxh r ref ep c arbitrary: es rule: collectPage.induct)
  case (1 xxh r ref ep c)
  let ?from = "unat (pc_fromLSN c)"
  note fit = leaves_fits[OF 1(2), unfolded fits_def range_bounds]
  show ?case
  proof (cases "pc_hasMore c \<or> ie_SeqHi ref < pc_fromLSN c")
    case True
    have "foldl pc_add c es = c"
    proof (cases "pc_hasMore c")
      case False
      then have "ie_hi ref \<le> ?from" using True by (simp add: ie_hi_def word_less_nat_alt)
      then show ?thesis using fit lfi.tiles_bounds[of "ie_lo ref" es "ie_hi ref"] by (intro segc.foldl_skip) fastforce
    qed (simp add: segc.foldl_done)
    then show ?thesis using True by (subst collectPage.simps) simp
  next
    case go: False
    show ?thesis
    proof (cases "ie_Level ref = 0")
      case True
      obtain page where l: "loadLeaf xxh r ref ep = Inr page" and es: "es = lp_Entries page"
        using leaves_leaf[OF 1(2) True] .
      let ?P = "\<lambda>e. ?from < le_hi e"
      have tw: "take (search_list ?P es) es = takeWhile (\<lambda>e. \<not> ?P e) es"
        using fit by (intro take_search_list lfi.tiles_mono) blast+
      have "foldl pc_add c (take (search_list ?P es) es) = c"
        unfolding tw by (rule segc.foldl_skip) (auto dest: set_takeWhileD)
      then have "foldl pc_add c es = foldl pc_add c (drop (search_list ?P es) es)"
        by (metis append_take_drop_id foldl_append)
      moreover have "loopE pc_hasMore (\<lambda>c e. Inr (pc_add c e)) c xs = Inr (foldl pc_add c xs)" for xs
        by (rule segc.loop_add)
      ultimately show ?thesis using go True l es by (subst collectPage.simps) (simp add: search_bounds Let_def)
    next
      case False
      obtain page ess where l: "loadIndex xxh r ref ep = Inr page" and es: "es = concat ess"
        and ess: "list_all2 (\<lambda>child es. leaves xxh r (ph_WriterEpoch (xp_Header page)) child = Inr es) (xp_Entries page) ess"
        using leaves_index[OF 1(2) False] .
      note V = validateIndexPage_Inr[OF loadIndex_Inr(1)[OF l]]
      let ?xs = "xp_Entries page" and ?ep = "ph_WriterEpoch (xp_Header page)" and ?P = "\<lambda>e. ?from < ie_hi e"
      let ?h = "\<lambda>child. projr (leaves xxh r ?ep child)" and ?s = "search_list ?P (xp_Entries page)"
      have lv: "leaves xxh r ?ep child = Inr (?h child)" if "child \<in> set ?xs" for child
        using ess that by (auto simp: list_all2_conv_all_nth in_set_conv_nth)
      have em: "ess = map ?h ?xs" using ess by (auto simp: list_all2_conv_all_nth list_eq_iff_nth_eq)
      have "take ?s ?xs = takeWhile (\<lambda>e. \<not> ?P e) ?xs" using V(5,1) by (intro take_search_list rfi.tiles_mono)
      then have before: "ie_hi child \<le> ?from" if "child \<in> set (take ?s ?xs)" for child
        using that by (auto dest: set_takeWhileD)
      have "foldl pc_add c (concat (map ?h (take ?s ?xs))) = c"
      proof (rule segc.foldl_skip)
        fix e assume "e \<in> set (concat (map ?h (take ?s ?xs)))"
        then obtain child where ch: "child \<in> set (take ?s ?xs)" "e \<in> set (?h child)" by auto
        have "fits (ref_range child) (?h child)" using leaves_fits[OF lv] ch(1) by (auto dest: in_set_takeD)
        then have "le_hi e \<le> ie_hi child" using lfi.tiles_bounds ch(2) by (fastforce simp: fits_def)
        then show "\<not> ?from < le_hi e" using before[OF ch(1)] by simp
      qed
      moreover have "concat (map ?h ?xs) = concat (map ?h (take ?s ?xs)) @ concat (map ?h (drop ?s ?xs))"
        by (metis append_take_drop_id concat_append map_append)
      ultimately have sum: "foldl pc_add c es = foldl (\<lambda>c child. foldl pc_add c (?h child)) c (drop ?s ?xs)"
        unfolding es em foldl_concat_map by simp
      have "loopE pc_hasMore (\<lambda>c child. collectPage xxh r child ?ep c) c (drop ?s ?xs)
          = Inr (foldl (\<lambda>c child. foldl pc_add c (?h child)) c (drop ?s ?xs))"
      proof (rule loopE_foldl)
        fix c' child assume ch: "child \<in> set (drop ?s ?xs)"
        then have "leaves xxh r ?ep child = Inr (?h child)" by (intro lv) (auto dest: in_set_dropD)
        then show "collectPage xxh r child ?ep c' = Inr (foldl pc_add c' (?h child))"
          using 1(1)[OF go False l refl, unfolded search_bounds, OF ch] by blast
      qed (simp add: segc.foldl_done)
      then show ?thesis using go False l sum by (subst collectPage.simps) (simp add: search_bounds Let_def)
    qed
  qed
qed

lemma collectRoot_spec:
  assumes "case root of RootRef ref \<Rightarrow> leaves xxh r ep ref = Inr es | RootLeaf leaf \<Rightarrow> es = [leaf]"
    and "fits (root_range root) es"
  shows "collectRoot xxh r ep c root = Inr (foldl pc_add c es)"
proof (cases "root_seqHi root < pc_fromLSN c")
  case True
  then have "\<not> unat (pc_fromLSN c) < rng_hi (root_range root)" using root_bounds(1)[of "pc_fromLSN c" root] by auto
  then have "foldl pc_add c es = c"
    using assms(2) lfi.tiles_bounds by (intro segc.foldl_skip) (fastforce simp: fits_def)
  then show ?thesis using True by (simp add: collectRoot_def)
next
  case False
  then show ?thesis using assms(1) collectPage_spec by (cases root) (simp_all add: collectRoot_def)
qed

lemma Reader_ListSegments_spec:
  assumes "validateHead h = Inr ()" "validateConfigHead (rd_config r) h = Inr ()" "head_leaves xxh r h = Inr es"
  shows "Reader_ListSegments xxh None r h pos limit
    = Inr (page_of (map (segmentRef (rd_config r)) es) (unat pos) (reader_limit limit))"
proof -
  note V = validateHead_Inr[OF assms(1)] and S = head_leaves_spec[OF assms(1,3)]
  let ?rest = "filter (\<lambda>e. unat pos < le_hi e) es"
  have page: "page_of (map (segmentRef (rd_config r)) es) (unat pos) n =
      \<lparr>pg_Segments = map (segmentRef (rd_config r)) (take n ?rest),
       pg_NextLSN = (if n < length ?rest then le_BaseLSN (?rest ! n) else 0), pg_HasMore = n < length ?rest\<rparr>" for n
    by (simp add: page_of_def Let_def filter_map o_def take_map)
  show ?thesis
  proof (cases "\<not> HasLastSegment h \<or> pos \<ge> hh_NextLSN (hd_Header h)")
    case True
    have "unat (hh_NextLSN (hd_Header h)) \<le> unat pos \<or> es = []"
      using True V(2,7) S(3) lfi.tiles_less[OF S(3,1)] by (auto simp: word_le_nat_alt)
    then have "?rest = []" using lfi.tiles_bounds[OF S(3,1)] by (fastforce simp: filter_empty_conv)
    then show ?thesis using True assms(2) by (auto simp: Reader_ListSegments_def page empty_SegmentPage_def)
  next
    case False
    obtain ess where es: "es = concat ess" and f: "list_all2 fits (head_ranges h) ess"
      and ess: "list_all2 (\<lambda>root es. case root of RootRef ref \<Rightarrow> leaves xxh r (hh_WriterEpoch (hd_Header h)) ref = Inr es
       | RootLeaf leaf \<Rightarrow> es = [leaf]) (headRoots h) ess"
      using head_leaves_ess[OF assms(3) V(9)] .
    let ?c = "\<lparr>pc_config = rd_config r, pc_fromLSN = pos, pc_limit = reader_limit limit, pc_segments = [],
             pc_nextLSN = 0, pc_hasMore = False\<rparr>"
    let ?f = "collectRoot xxh r (hh_WriterEpoch (hd_Header h))"
    have "list_all2 (\<lambda>root es. \<forall>c. ?f c root = Inr (foldl pc_add c es)) (headRoots h) ess"
      using ess f by (auto simp: head_ranges_roots list_all2_conv_all_nth intro!: collectRoot_spec)
    then have "loopE pc_hasMore ?f c (headRoots h) = Inr (foldl pc_add c es)" for c
      unfolding es by (rule segc.loop_concat)
    then show ?thesis
      using assms(2) False segc.foldl_add[of ?c es] by (simp add: Reader_ListSegments_def page Let_def)
  qed
qed

end
