(* ===== verification/Cat_Reach.thy ===== *)
theory Cat_Reach
  imports Cat_Reader_Spec
begin

text \<open>
  Which page objects a head can reach. \<^verbatim>\<open>page_below\<close> is the reachability relation the
  catalog's references define; the garbage collector's question
  (\<^verbatim>\<open>IsPageReachable\<close>) is answered exactly, on every store contents, whenever it is
  answered at all, and \<^verbatim>\<open>ListPagePaths\<close> enumerates one level of the tree in order.
\<close>


section \<open>Reachability\<close>

inductive page_below :: "(bytes \<Rightarrow> u64) \<Rightarrow> Reader \<Rightarrow> u64 \<Rightarrow> IndexEntry \<Rightarrow> IndexEntry \<Rightarrow> bool"
  for xxh :: "bytes \<Rightarrow> u64" and r :: Reader where
  self: "page_below xxh r ep ref ref"
| child: "\<lbrakk>ie_Level ref \<noteq> 0; loadIndex xxh r ref ep = Inr page; child \<in> set (xp_Entries page);
    page_below xxh r (ph_WriterEpoch (xp_Header page)) child ref'\<rbrakk> \<Longrightarrow> page_below xxh r ep ref ref'"

definition head_reaches :: "(bytes \<Rightarrow> u64) \<Rightarrow> Reader \<Rightarrow> Head \<Rightarrow> IndexEntry \<Rightarrow> bool" where
  "head_reaches xxh r h ref' \<longleftrightarrow> (\<exists>ref\<in>set (head_refs h). page_below xxh r (hh_WriterEpoch (hd_Header h)) ref ref')"

lemma loadIndex_child:
  assumes "loadIndex xxh r ref ep = Inr page" "child \<in> set (xp_Entries page)"
  shows "ref_ok child" "ie_SeqLo ref \<le> ie_SeqLo child" "ie_SeqHi child \<le> ie_SeqHi ref" "ie_Level child < ie_Level ref"
proof -
  note V = validateIndexPage_Inr[OF loadIndex_Inr(1)[OF assms(1)]] and M = loadIndex_Inr(2)[OF assms(1), unfolded matchesPageRef_def]
  show "ref_ok child" using V(1) assms(2) by (simp add: list_all_iff)
  have "unat (ie_SeqLo ref) \<le> ie_lo child \<and> ie_hi child \<le> unat (ie_SeqHi ref) + 1"
    using rfi.tiles_bounds[OF V(5,1) assms(2)] M by simp
  then show "ie_SeqLo ref \<le> ie_SeqLo child" "ie_SeqHi child \<le> ie_SeqHi ref"
    by (simp_all add: ie_lo_def ie_hi_def word_le_nat_alt)
  show "ie_Level child < ie_Level ref" using loadIndex_level[OF assms] by (simp add: word_less_nat_alt)
qed

lemma page_below_within:
  "page_below xxh r ep ref ref' \<Longrightarrow> ref_ok ref \<Longrightarrow>
     ref_ok ref' \<and> ie_SeqLo ref \<le> ie_SeqLo ref' \<and> ie_SeqHi ref' \<le> ie_SeqHi ref
     \<and> (ref' = ref \<or> ie_Level ref' < ie_Level ref)"
proof (induction rule: page_below.induct)
  case (child ref ep page child ref')
  note C = loadIndex_child[OF child(2,3)]
  have "ref_ok ref'" "ie_SeqLo child \<le> ie_SeqLo ref'" "ie_SeqHi ref' \<le> ie_SeqHi child" "ie_Level ref' \<le> ie_Level child"
    using child.IH[OF C(1)] by auto
  then show ?case using C by (auto intro: order_trans dest: le_less_trans)
qed simp

lemma PagePath_inject:
  assumes "ref_ok a" "ref_ok b" "PagePath c a = PagePath c b"
  shows "ie_Level a = ie_Level b" "ie_SeqLo a = ie_SeqLo b" "ie_SeqHi a = ie_SeqHi b"
proof -
  note la = ref_okD(3)[OF assms(1)] and lb = ref_okD(3)[OF assms(2)]
  have "ie_Level a = ie_Level b \<and> ie_SeqLo a = ie_SeqLo b \<and> ie_SeqHi a = ie_SeqHi b"
    using assms(3) IndexPagePath_inject[OF la lb, of c] PagePath_kinds[OF la, of c b] PagePath_kinds[OF lb, of c a]
    by (auto simp: PagePath_def LeafPagePath_inject split: if_splits)
  then show "ie_Level a = ie_Level b" "ie_SeqLo a = ie_SeqLo b" "ie_SeqHi a = ie_SeqHi b" by auto
qed

definition target_of :: "Config \<Rightarrow> IndexEntry \<Rightarrow> PageTarget" where
  "target_of c ref = \<lparr>pgt_Key = PagePath c ref, pgt_Level = ie_Level ref, pgt_SeqLo = ie_SeqLo ref, pgt_SeqHi = ie_SeqHi ref\<rparr>"

lemma loopE_id:
  "loopE (\<lambda>found. found) f b xs = Inr c \<Longrightarrow> (\<And>b b' x. f b x = f b' x) \<Longrightarrow>
     (c \<longleftrightarrow> b \<or> (\<exists>x\<in>set xs. f False x = Inr True)) \<and> (\<not> c \<longrightarrow> (\<forall>x\<in>set xs. f False x = Inr False))"
proof (induction xs arbitrary: b)
  case (Cons x xs)
  show ?case
  proof (cases b)
    case True
    then show ?thesis using Cons.prems(1) by simp
  next
    case False
    then obtain b' where b': "f False x = Inr b'" "loopE (\<lambda>found. found) f b' xs = Inr c" using Cons.prems(1) by auto
    note IH = Cons.IH[OF b'(2) Cons.prems(2)]
    show ?thesis
    proof (cases b')
      case True
      then have "c" using IH by blast
      then show ?thesis using b'(1) True by simp
    next
      case f: False
      have head: "f False x \<noteq> Inr True" using b'(1) f by simp
      have "f False x = Inr False" using b'(1) f by simp
      then show ?thesis using IH f False head unfolding list.set by blast
    qed
  qed
qed simp

lemma loopE_any:
  assumes "loopE (\<lambda>found. found) f False xs = Inr c" "\<And>b b' x. f b x = f b' x"
  shows "(c \<longleftrightarrow> (\<exists>x\<in>set xs. f False x = Inr True)) \<and> (\<not> c \<longrightarrow> (\<forall>x\<in>set xs. f False x = Inr False))"
  using loopE_id[OF assms] by blast

lemma pageReachable_exact:
  assumes "ref_ok r0"
  shows "pageReachable xxh r ref (target_of (rd_config r) r0) ep = Inr b \<Longrightarrow> ref_ok ref \<Longrightarrow>
    b \<longleftrightarrow> (\<exists>ref'. page_below xxh r ep ref ref' \<and> PagePath (rd_config r) ref' = PagePath (rd_config r) r0)"
proof (induction "unat (ie_Level ref)" arbitrary: ref ep b rule: less_induct)
  case less
  let ?t = "target_of (rd_config r) r0" and ?c = "rd_config r"
  let ?out = "\<lambda>x. ie_SeqHi r0 < ie_SeqLo x \<or> ie_SeqLo r0 > ie_SeqHi x"
  have r0: "ie_SeqLo r0 \<le> ie_SeqHi r0" using assms by (rule ref_okD)
  have same: "ie_Level ref' = ie_Level r0 \<and> ie_SeqLo x \<le> ie_SeqLo r0 \<and> ie_SeqHi r0 \<le> ie_SeqHi x
      \<and> (ref' = x \<or> ie_Level r0 < ie_Level x)"
    if "page_below xxh r ep' x ref'" "PagePath ?c ref' = PagePath ?c r0" "ref_ok x" for ep' x ref'
    using page_below_within[OF that(1,3)] PagePath_inject[OF _ assms that(2)] by auto
  have out: "\<not> (page_below xxh r ep' x ref' \<and> PagePath ?c ref' = PagePath ?c r0)" if "?out x" "ref_ok x" for ep' x ref'
  proof
    assume "page_below xxh r ep' x ref' \<and> PagePath ?c ref' = PagePath ?c r0"
    then have "ie_SeqLo x \<le> ie_SeqLo r0" "ie_SeqHi r0 \<le> ie_SeqHi x" using same that(2) by blast+
    then have "ie_SeqLo x \<le> ie_SeqHi r0" "ie_SeqLo r0 \<le> ie_SeqHi x" using r0 by (meson order_trans)+
    then show False using that(1) by auto
  qed
  show ?case
  proof (cases "PagePath ?c ref = PagePath ?c r0")
    case True
    then show ?thesis using less.prems(1) by (subst (asm) pageReachable.simps) (auto simp: target_of_def intro: page_below.self)
  next
    case ne: False
    show ?thesis
    proof (cases "?out ref \<or> ie_Level r0 \<ge> ie_Level ref \<or> ie_Level ref = 0")
      case True
      then have b: "\<not> b" using less.prems(1) ne by (subst (asm) pageReachable.simps) (auto simp: target_of_def)
      have "\<not> (\<exists>ref'. page_below xxh r ep ref ref' \<and> PagePath ?c ref' = PagePath ?c r0)"
      proof
        assume "\<exists>ref'. page_below xxh r ep ref ref' \<and> PagePath ?c ref' = PagePath ?c r0"
        then obtain ref' where p: "page_below xxh r ep ref ref'" "PagePath ?c ref' = PagePath ?c r0" by blast
        have "\<not> ?out ref" using out[OF _ less.prems(2)] p by blast
        moreover have "ie_Level r0 < ie_Level ref" using same[OF p less.prems(2)] p(2) ne by auto
        ultimately show False using True by auto
      qed
      then show ?thesis using b by simp
    next
      case False
      let ?f = "\<lambda>ep' (_ :: bool) child. if pgt_SeqHi ?t < ie_SeqLo child \<or> pgt_SeqLo ?t > ie_SeqHi child then Inr False
            else pageReachable xxh r child ?t ep'"
      obtain page where l: "loadIndex xxh r ref ep = Inr page"
        and loop: "loopE (\<lambda>found. found) (?f (ph_WriterEpoch (xp_Header page))) False (xp_Entries page) = Inr b"
        using less.prems(1) ne False by (subst (asm) pageReachable.simps) (auto simp: target_of_def)
      let ?ep = "ph_WriterEpoch (xp_Header page)"
      have ch: "b' \<longleftrightarrow> (\<exists>ref'. page_below xxh r ?ep child ref' \<and> PagePath ?c ref' = PagePath ?c r0)"
        if "child \<in> set (xp_Entries page)" "?f ?ep False child = Inr b'" for child b'
      proof -
        note C = loadIndex_child[OF l that(1)]
        show ?thesis
        proof (cases "?out child")
          case True
          then have "\<not> b'" using that(2) by (auto simp: target_of_def)
          then show ?thesis using out[OF True C(1)] by blast
        next
          case False
          then show ?thesis using that(2) less.hyps[of child ?ep b'] C(1,4) by (auto simp: target_of_def word_less_nat_alt)
        qed
      qed
      have L: "(b \<longleftrightarrow> (\<exists>x\<in>set (xp_Entries page). ?f ?ep False x = Inr True)) \<and>
          (\<not> b \<longrightarrow> (\<forall>x\<in>set (xp_Entries page). ?f ?ep False x = Inr False))"
        by (rule loopE_any[OF loop]) (rule refl)
      have "(\<exists>ref'. page_below xxh r ep ref ref' \<and> PagePath ?c ref' = PagePath ?c r0) \<longleftrightarrow>
          (\<exists>child\<in>set (xp_Entries page). \<exists>ref'. page_below xxh r ?ep child ref' \<and> PagePath ?c ref' = PagePath ?c r0)"
        (is "?lhs \<longleftrightarrow> ?rhs")
      proof
        assume ?lhs
        then obtain ref' where p: "page_below xxh r ep ref ref'" "PagePath ?c ref' = PagePath ?c r0" by blast
        from p(1) show ?rhs
        proof cases
          case self
          then show ?thesis using p(2) ne by simp
        next
          case (child page' child')
          then show ?thesis using l p(2) by auto
        qed
      next
        assume ?rhs
        then show ?lhs using page_below.child[OF _ l] False by blast
      qed
      moreover have "b \<longleftrightarrow> (\<exists>child\<in>set (xp_Entries page). \<exists>ref'. page_below xxh r ?ep child ref' \<and> PagePath ?c ref' = PagePath ?c r0)"
        using L ch by (cases b) blast+
      ultimately show ?thesis by simp
    qed
  qed
qed

lemma PagePath_nonempty: "PagePath c ref \<noteq> []"
  by (simp add: PagePath_def LeafPagePath_def IndexPagePath_def)

text \<open>C20: the reachability question of the garbage collector is answered exactly. Whatever the
  store holds, if the check whether a page object is reachable from a valid head returns an answer,
  the answer is yes if and only if some chain of references from the head leads to that object; in
  particular a reachable page is never reported unreachable.\<close>

theorem IsPageReachable_exact:
  assumes "validateHead h = Inr ()" "ref_ok r0"
    and "IsPageReachable xxh ctx r h (target_of (rd_config r) r0) = Inr b"
  shows "b \<longleftrightarrow> (\<exists>ref. head_reaches xxh r h ref \<and> PagePath (rd_config r) ref = PagePath (rd_config r) r0)"
proof -
  let ?ep = "hh_WriterEpoch (hd_Header h)" and ?t = "target_of (rd_config r) r0"
  let ?f = "rootReachable xxh r ?t ?ep"
  have ok: "ref_ok ref" if "ref \<in> set (head_refs h)" for ref
    using sections_ok_refs[OF validateHead_Inr(8)[OF assms(1)] that] by simp
  have loop: "loopE (\<lambda>found. found) ?f False (headRoots h) = Inr b"
    using assms(3) by (auto simp: IsPageReachable_def split: option.splits if_splits)
  have L: "(b \<longleftrightarrow> (\<exists>x\<in>set (headRoots h). ?f False x = Inr True)) \<and>
      (\<not> b \<longrightarrow> (\<forall>x\<in>set (headRoots h). ?f False x = Inr False))"
  proof (rule loopE_any[OF loop])
    show "?f x root = ?f y root" for x y root by (cases root) simp_all
  qed
  have roots: "(\<exists>x\<in>set (headRoots h). ?f False x = Inr True) \<longleftrightarrow>
      (\<exists>ref\<in>set (head_refs h). pageReachable xxh r ref ?t ?ep = Inr True)"
    by (simp add: headRoots_eq bex_Un)
  have all: "(\<forall>x\<in>set (headRoots h). ?f False x = Inr False) \<Longrightarrow>
      (\<forall>ref\<in>set (head_refs h). pageReachable xxh r ref ?t ?ep = Inr False)"
    by (simp add: headRoots_eq ball_Un)
  show ?thesis
    unfolding head_reaches_def using L roots all pageReachable_exact[OF assms(2)] ok by (cases b) blast+
qed


text \<open>A configuration and a head with one active segment, for examples.\<close>

definition sample_config :: Config where
  "sample_config = \<lparr>cf_CatalogPrefix = ''catalog'', cf_DataRoot = ''objlog'', cf_StreamID = ''orders'', cf_Partition = 3,
     cf_LeafLimit = 2, cf_IndexLimit = 2, cf_HashAlgo = HashCRC32C, cf_StreamKey = 5, cf_DataRootKey = 6\<rparr>"

definition sample_reader :: Reader where
  "sample_reader = \<lparr>rd_config = sample_config, rd_pages = (\<lambda>_. Inl [ErrObjectNotFound])\<rparr>"

definition sample_leaf :: LeafEntry where
  "sample_leaf = \<lparr>le_BaseLSN = 100, le_LastLSN = 109, le_MinTimestampMS = 1000, le_MaxTimestampMS = 1009,
     le_RecordCount = 10, le_BlockCount = 1, le_SizeBytes = 700, le_BlockIndexOffset = 380, le_BlockIndexLength = 128,
     le_Codec = CodecNone, le_HashAlgo = HashCRC32C, le_SegmentHash = 1, le_TrailerHash = 2, le_WriterEpoch = 1,
     le_SegmentUUID = 77, le_WriterTag = 9\<rparr>"

definition sample_head1 :: Head where
  "sample_head1 = \<lparr>hd_Header = (hd_Header sample_head)\<lparr>hh_Flags := 1, hh_ActiveCount := 1, hh_NextLSN := 110,
       hh_WriterEpoch := 1, hh_WriterID := 9, hh_Generation := 2, hh_SegmentCount := 1, hh_ReachableSegmentCount := 1\<rparr>,
     hd_LastSegment = sample_leaf, hd_Active = [sample_leaf], hd_Sections = []\<rparr>"

definition sample_ref :: IndexEntry where
  "sample_ref = \<lparr>ie_Level = 0, ie_EntryCount = 2, ie_SeqLo = 100, ie_SeqHi = 119, ie_MinTimestampMS = 1000,
     ie_MaxTimestampMS = 1019, ie_Generation = 3, ie_PageID = 8, ie_SegmentCount = 2\<rparr>"

lemma sample_head1_valid:
  "validateHead sample_head1 = Inr ()" "validateConfigHead sample_config sample_head1 = Inr ()"
  "ref_ok sample_ref"
  by code_simp+

lemma sample_head1_leaves: "head_leaves xxh r sample_head1 = Inr [sample_leaf]"
  by (simp add: head_leaves_def head_refs_def sample_head1_def)

theorem IsPageReachable_exact_witness:
  "\<not> (\<exists>ref. head_reaches (\<lambda>_. 0) sample_reader sample_head1 ref \<and> PagePath sample_config ref = PagePath sample_config sample_ref)"
proof -
  have "IsPageReachable (\<lambda>_. 0) None sample_reader sample_head1 (target_of sample_config sample_ref) = Inr False"
    using sample_head1_valid PagePath_nonempty[of sample_config sample_ref]
    by (simp add: IsPageReachable_def target_of_def sample_reader_def)
      (simp add: sample_head1_def headRoots_def sample_ref_def MaxIndexLevel_def)
  then show ?thesis
    using IsPageReachable_exact[OF sample_head1_valid(1,3), of "\<lambda>_. 0" None sample_reader False]
    by (simp add: sample_reader_def)
qed


section \<open>Listing one level\<close>

function level_refs :: "(bytes \<Rightarrow> u64) \<Rightarrow> Reader \<Rightarrow> u8 \<Rightarrow> u64 \<Rightarrow> IndexEntry \<Rightarrow> IndexEntry list res" where
  "level_refs xxh r level ep ref =
     (if ie_Level ref < level then Inr []
      else if ie_Level ref = level then Inr [ref]
      else bindE (loadIndex xxh r ref ep) (\<lambda>page.
        bindE (mapE (\<lambda>child. level_refs xxh r level (ph_WriterEpoch (xp_Header page)) child) (xp_Entries page)) (\<lambda>rss.
          Inr (concat rss))))"
  by pat_completeness auto
termination
  by (relation "measure (\<lambda>(xxh, r, _, _, ref). unat (ie_Level ref))") (auto dest: loadIndex_level)

declare level_refs.simps [simp del]

lemma level_refs_below:
  "level_refs xxh r level ep ref = Inr rs \<Longrightarrow>
     set rs = {ref'. page_below xxh r ep ref ref' \<and> ie_Level ref' = level}" if "ref_ok ref"
  using that
proof (induction xxh r level ep ref arbitrary: rs rule: level_refs.induct)
  case (1 xxh r level ep ref)
  consider (below) "ie_Level ref < level" | (at) "ie_Level ref = level" | (above) "level < ie_Level ref" by force
  then show ?case
  proof cases
    case below
    then have "rs = []" using 1(2) by (subst (asm) level_refs.simps) simp
    moreover have "\<not> (page_below xxh r ep ref ref' \<and> ie_Level ref' = level)" for ref'
      using page_below_within[OF _ 1(3)] below by fastforce
    ultimately show ?thesis by auto
  next
    case at
    then have "rs = [ref]" using 1(2) by (subst (asm) level_refs.simps) simp
    moreover have "page_below xxh r ep ref ref' \<and> ie_Level ref' = level \<longleftrightarrow> ref' = ref" for ref'
      using page_below_within[OF _ 1(3)] at by (fastforce intro: page_below.self)
    ultimately show ?thesis by auto
  next
    case above
    then have nz: "ie_Level ref \<noteq> 0" "\<not> ie_Level ref < level" "ie_Level ref \<noteq> level" by auto
    obtain page rss where l: "loadIndex xxh r ref ep = Inr page" and rs: "rs = concat rss"
      and rss: "list_all2 (\<lambda>child rs. level_refs xxh r level (ph_WriterEpoch (xp_Header page)) child = Inr rs) (xp_Entries page) rss"
      using 1(2) nz by (subst (asm) level_refs.simps) (auto simp: mapE_eq_Inr)
    let ?ep = "ph_WriterEpoch (xp_Header page)"
    have IH: "set (rss ! k) = {ref'. page_below xxh r ?ep (xp_Entries page ! k) ref' \<and> ie_Level ref' = level}"
      if "k < length (xp_Entries page)" for k
      using 1(1)[OF nz(2,3) l, of "xp_Entries page ! k" "rss ! k"] rss loadIndex_child(1)[OF l] that
      by (auto simp: list_all2_conv_all_nth)
    have len: "length rss = length (xp_Entries page)" using rss by (simp add: list_all2_lengthD)
    have "set rs = (\<Union>k<length (xp_Entries page). set (rss ! k))"
      by (auto simp: rs set_conv_nth[of rss] len)
    also have "\<dots> = (\<Union>k<length (xp_Entries page). {ref'. page_below xxh r ?ep (xp_Entries page ! k) ref' \<and> ie_Level ref' = level})"
      by (rule SUP_cong) (simp_all add: IH)
    also have "\<dots> = {ref'. \<exists>child\<in>set (xp_Entries page). page_below xxh r ?ep child ref' \<and> ie_Level ref' = level}"
      unfolding set_conv_nth[of "xp_Entries page"] by blast
    also have "\<dots> = {ref'. page_below xxh r ep ref ref' \<and> ie_Level ref' = level}"
    proof -
      have "page_below xxh r ep ref ref' \<longleftrightarrow> (\<exists>child\<in>set (xp_Entries page). page_below xxh r ?ep child ref')"
        if "ie_Level ref' = level" for ref'
      proof
        assume "page_below xxh r ep ref ref'"
        then show "\<exists>child\<in>set (xp_Entries page). page_below xxh r ?ep child ref'"
          by cases (use that nz l in auto)
      qed (use page_below.child[OF nz(1) l] in blast)
      then show ?thesis by blast
    qed
    finally show ?thesis .
  qed
qed

interpretation pathc: collector ppc_add ppc_hasMore "\<lambda>c e. unat (ppc_fromSeqLo c) < ie_hi e" ppc_paths ppc_limit
  "\<lambda>c. PagePath (ppc_config c)" ie_SeqLo ppc_nextSeqLo
  by unfold_locales (simp_all add: ppc_add_def search_bounds(3)[symmetric] not_le)

lemma level_refs_within:
  "level_refs xxh r level ep ref = Inr rs \<Longrightarrow> ref_ok ref \<Longrightarrow> ref' \<in> set rs \<Longrightarrow> ie_SeqHi ref' \<le> ie_SeqHi ref"
  using level_refs_below[of ref xxh r level ep rs] page_below_within by auto

lemma collectPagePath_spec:
  "level_refs xxh r level ep ref = Inr rs \<Longrightarrow> ref_ok ref \<Longrightarrow>
     collectPagePath xxh r ref level ep c = Inr (foldl ppc_add c rs)"
proof (induction xxh r ref level ep c arbitrary: rs rule: collectPagePath.induct)
  case (1 xxh r ref level ep c)
  show ?case
  proof (cases "ppc_hasMore c \<or> ie_SeqHi ref < ppc_fromSeqLo c \<or> ie_Level ref < level")
    case True
    have "foldl ppc_add c rs = c"
    proof (cases "ppc_hasMore c")
      case False
      show ?thesis
      proof (cases "ie_Level ref < level")
        case True
        then have "rs = []" using 1(2) by (subst (asm) level_refs.simps) simp
        then show ?thesis by simp
      next
        case nl: False
        then show ?thesis using True False level_refs_within[OF 1(2,3)] by (intro pathc.foldl_skip) (auto simp: search_bounds(3)[symmetric] not_le dest: le_less_trans)
      qed
    qed (simp add: pathc.foldl_done)
    then show ?thesis using True by (subst collectPagePath.simps) simp
  next
    case go: False
    show ?thesis
    proof (cases "ie_Level ref = level")
      case True
      then have "rs = [ref]" using 1(2) by (subst (asm) level_refs.simps) simp
      then show ?thesis using go True by (subst collectPagePath.simps) simp
    next
      case False
      obtain page rss where l: "loadIndex xxh r ref ep = Inr page" and rs: "rs = concat rss"
        and rss: "list_all2 (\<lambda>child rs. level_refs xxh r level (ph_WriterEpoch (xp_Header page)) child = Inr rs) (xp_Entries page) rss"
        using 1(2) go False by (subst (asm) level_refs.simps) (auto simp: mapE_eq_Inr)
      note V = validateIndexPage_Inr[OF loadIndex_Inr(1)[OF l]]
      let ?xs = "xp_Entries page" and ?ep = "ph_WriterEpoch (xp_Header page)" and ?P = "\<lambda>e. unat (ppc_fromSeqLo c) < ie_hi e"
      let ?s = "search_list ?P (xp_Entries page)"
      have len: "length rss = length ?xs" using rss by (simp add: list_all2_lengthD)
      have "take ?s ?xs = takeWhile (\<lambda>e. \<not> ?P e) ?xs" using V(5,1) by (intro take_search_list rfi.tiles_mono)
      then have before: "ie_SeqHi child < ppc_fromSeqLo c" if "child \<in> set (take ?s ?xs)" for child
        using that by (auto dest!: set_takeWhileD simp: ie_hi_def word_less_nat_alt)
      have "foldl ppc_add c (concat (take ?s rss)) = c"
      proof (rule pathc.foldl_skip)
        fix e assume "e \<in> set (concat (take ?s rss))"
        then obtain rs' where "rs' \<in> set (take ?s rss)" "e \<in> set rs'" by auto
        then obtain k where k: "k < ?s" "k < length ?xs" "e \<in> set (rss ! k)" using len by (auto simp: in_set_conv_nth[of rs'])
        have "?xs ! k \<in> set (take ?s ?xs)" using k(1,2) by (auto simp: in_set_conv_nth intro!: exI[of _ k])
        moreover have "ie_SeqHi e \<le> ie_SeqHi (?xs ! k)"
          using level_refs_within[of xxh r level ?ep "?xs ! k" "rss ! k" e] rss loadIndex_child(1)[OF l] k
          by (auto simp: list_all2_conv_all_nth)
        ultimately have "ie_SeqHi e < ppc_fromSeqLo c" using before le_less_trans by blast
        then show "\<not> ?P e" by (simp add: search_bounds(3)[symmetric])
      qed
      moreover have "concat rss = concat (take ?s rss) @ concat (drop ?s rss)"
        by (metis append_take_drop_id concat_append)
      ultimately have sum: "foldl ppc_add c rs = foldl ppc_add c (concat (drop ?s rss))" by (simp add: rs)
      have "loopE ppc_hasMore (\<lambda>c child. collectPagePath xxh r child level ?ep c) c (drop ?s ?xs)
          = Inr (foldl ppc_add c (concat (drop ?s rss)))"
      proof (rule pathc.loop_concat)
        have "list_all2 (\<lambda>child rs. level_refs xxh r level ?ep child = Inr rs) (drop ?s ?xs) (drop ?s rss)"
          using rss by (rule list_all2_dropI)
        then show "list_all2 (\<lambda>child rs. \<forall>c. collectPagePath xxh r child level ?ep c = Inr (foldl ppc_add c rs)) (drop ?s ?xs) (drop ?s rss)"
        proof (rule list.rel_mono_strong)
          fix child rs' assume ch: "child \<in> set (drop ?s ?xs)" "level_refs xxh r level ?ep child = Inr rs'"
          then have "ref_ok child" using loadIndex_child(1)[OF l] by (auto dest: in_set_dropD)
          then show "\<forall>c. collectPagePath xxh r child level ?ep c = Inr (foldl ppc_add c rs')"
            using 1(1)[OF go False l refl, unfolded search_bounds, OF ch(1) ch(2)] by blast
        qed
      qed
      then show ?thesis using go False l sum by (subst collectPagePath.simps) (simp add: search_bounds Let_def)
    qed
  qed
qed


definition head_level_refs :: "(bytes \<Rightarrow> u64) \<Rightarrow> Reader \<Rightarrow> u8 \<Rightarrow> Head \<Rightarrow> IndexEntry list res" where
  "head_level_refs xxh r level h =
     bindE (mapE (level_refs xxh r level (hh_WriterEpoch (hd_Header h))) (head_refs h)) (\<lambda>rss. Inr (concat rss))"

lemma head_level_refs_reaches:
  assumes "validateHead h = Inr ()" "head_level_refs xxh r level h = Inr rs"
  shows "set rs = {ref. head_reaches xxh r h ref \<and> ie_Level ref = level}"
proof -
  let ?ep = "hh_WriterEpoch (hd_Header h)"
  obtain rss where rs: "rs = concat rss"
    and rss: "list_all2 (\<lambda>ref rs. level_refs xxh r level ?ep ref = Inr rs) (head_refs h) rss"
    using assms(2) by (auto simp: head_level_refs_def mapE_eq_Inr)
  have ok: "ref_ok ref" if "ref \<in> set (head_refs h)" for ref
    using sections_ok_refs[OF validateHead_Inr(8)[OF assms(1)] that] by simp
  have "set (rss ! k) = {ref. page_below xxh r ?ep (head_refs h ! k) ref \<and> ie_Level ref = level}"
    if "k < length (head_refs h)" for k
    using level_refs_below[OF ok] rss that by (simp add: list_all2_conv_all_nth)
  moreover have "length rss = length (head_refs h)" using rss by (simp add: list_all2_lengthD)
  ultimately have "set rs = (\<Union>k<length (head_refs h). {ref. page_below xxh r ?ep (head_refs h ! k) ref \<and> ie_Level ref = level})"
    unfolding rs set_concat set_conv_nth[of rss] by auto
  then show ?thesis unfolding head_reaches_def set_conv_nth[of "head_refs h"] by blast
qed

lemma ListPagePaths_spec:
  fixes pos :: u64
  assumes "validateHead h = Inr ()" "validateConfigHead (rd_config r) h = Inr ()" "head_level_refs xxh r level h = Inr rs"
    and "level \<le> MaxIndexLevel"
  defines "rest \<equiv> filter (\<lambda>ref. pos \<le> ie_SeqHi ref) rs"
  shows "ListPagePaths xxh None r h level pos limit
    = Inr \<lparr>pp_Paths = map (PagePath (rd_config r)) (take (reader_limit limit) rest),
           pp_NextSeqLo = (if reader_limit limit < length rest then ie_SeqLo (rest ! reader_limit limit) else 0),
           pp_HasMore = (reader_limit limit < length rest)\<rparr>"
proof -
  let ?ep = "hh_WriterEpoch (hd_Header h)"
  let ?f = "collectRootPath xxh r level ?ep"
  let ?c = "\<lparr>ppc_config = rd_config r, ppc_fromSeqLo = pos, ppc_limit = reader_limit limit, ppc_paths = [],
      ppc_nextSeqLo = 0, ppc_hasMore = False\<rparr>"
  obtain rss where rs: "rs = concat rss"
    and rss: "list_all2 (\<lambda>ref rs. level_refs xxh r level ?ep ref = Inr rs) (head_refs h) rss"
    using assms(3) by (auto simp: head_level_refs_def mapE_eq_Inr)
  have ok: "ref_ok ref" if "ref \<in> set (head_refs h)" for ref
    using sections_ok_refs[OF validateHead_Inr(8)[OF assms(1)] that] by simp
  let ?rss = "rss @ map (\<lambda>_. []) (hd_Active h)"
  have "list_all2 (\<lambda>ref rs. \<forall>c. ?f c (RootRef ref) = Inr (foldl ppc_add c rs)) (head_refs h) rss"
    using rss by (rule list.rel_mono_strong) (simp add: collectPagePath_spec ok)
  then have "list_all2 (\<lambda>root rs. \<forall>c. ?f c root = Inr (foldl ppc_add c rs)) (headRoots h) ?rss"
    unfolding headRoots_eq by (intro list_all2_appendI) (simp_all add: list.rel_map list.rel_refl)
  then have "loopE ppc_hasMore ?f ?c (headRoots h) = Inr (foldl ppc_add ?c (concat ?rss))"
    by (rule pathc.loop_concat)
  moreover have "concat ?rss = rs" by (simp add: rs)
  ultimately have "loopE ppc_hasMore ?f ?c (headRoots h) = Inr (foldl ppc_add ?c rs)" by (simp only:)
  moreover have "filter (\<lambda>e. unat pos < ie_hi e) rs = rest" by (simp add: rest_def search_bounds(3))
  ultimately show ?thesis
    using assms(2,4) pathc.foldl_add[of ?c rs] by (simp add: ListPagePaths_def Let_def not_less)
qed

text \<open>C21: listing the page objects of one level is complete. When the pages above the level can be
  read, the listing returns the paths of references of that level at or after the start position, in
  order and up to the limit, with the position of the next one when there are more; and those
  references are exactly the ones of that level that the head reaches.\<close>

theorem ListPagePaths_complete:
  assumes "validateHead h = Inr ()" "validateConfigHead (rd_config r) h = Inr ()" "head_level_refs xxh r level h = Inr rs"
    and "level \<le> MaxIndexLevel"
  shows "set rs = {ref. head_reaches xxh r h ref \<and> ie_Level ref = level}
    \<and> ListPagePaths xxh None r h level pos limit
      = (let rest = filter (\<lambda>ref. pos \<le> ie_SeqHi ref) rs
         in Inr \<lparr>pp_Paths = map (PagePath (rd_config r)) (take (reader_limit limit) rest),
           pp_NextSeqLo = (if reader_limit limit < length rest then ie_SeqLo (rest ! reader_limit limit) else 0),
           pp_HasMore = (reader_limit limit < length rest)\<rparr>)"
  using head_level_refs_reaches[OF assms(1,3)] ListPagePaths_spec[OF assms] by (simp add: Let_def)

text \<open>A head whose only section refers to one leaf page.\<close>

definition sample_head2 :: Head where
  "sample_head2 = \<lparr>hd_Header = (hd_Header sample_head1)\<lparr>hh_ActiveCount := 0, hh_LevelCount := 1, hh_NextLSN := 120,
       hh_Generation := 3, hh_SegmentCount := 2, hh_ReachableSegmentCount := 2\<rparr>,
     hd_LastSegment = sample_leaf\<lparr>le_BaseLSN := 110, le_LastLSN := 119, le_MinTimestampMS := 1010, le_MaxTimestampMS := 1019\<rparr>,
     hd_Active = [], hd_Sections = [\<lparr>os_Level = 1, os_Entries = [sample_ref]\<rparr>]\<rparr>"

lemma sample_head2_valid:
  "validateHead sample_head2 = Inr ()" "validateConfigHead sample_config sample_head2 = Inr ()"
  by code_simp+

lemma sample_head2_refs: "head_level_refs xxh r 0 sample_head2 = Inr [sample_ref]"
  by (simp add: head_level_refs_def head_refs_def sample_head2_def level_refs.simps[of xxh r 0] sample_ref_def)

theorem ListPagePaths_complete_witness:
  "\<exists>page. ListPagePaths (\<lambda>_. 0) None sample_reader sample_head2 0 0 10 = Inr page
     \<and> pp_Paths page = [PagePath sample_config sample_ref]
     \<and> {ref. head_reaches (\<lambda>_. 0) sample_reader sample_head2 ref \<and> ie_Level ref = 0} = {sample_ref}"
proof -
  have v: "validateConfigHead (rd_config sample_reader) sample_head2 = Inr ()"
    using sample_head2_valid by (simp add: sample_reader_def)
  have lim: "reader_limit 10 = 10" by (simp add: reader_limit_def MaxSegmentPageLimit_def)
  show ?thesis
    using ListPagePaths_complete[OF sample_head2_valid(1) v sample_head2_refs, of "\<lambda>_. 0" 0 10] lim
    by (simp add: MaxIndexLevel_def sample_reader_def)
qed

end
