(* ===== verification/Cat_Reads.thy ===== *)
theory Cat_Reads
  imports Cat_Reach
begin

text \<open>
  The paged catalog as a catalog: the reader of \<^verbatim>\<open>catengine/reader.go\<close> interprets the same
  interface as the in-process catalog, on the list of segments its head stands for, so the facts
  proved of the interface hold of it.
\<close>

definition head_segments :: "(bytes \<Rightarrow> u64) \<Rightarrow> Reader \<Rightarrow> Head \<Rightarrow> SegmentRef list" where
  "head_segments xxh r h = map (segmentRef (rd_config r)) (projr (head_leaves xxh r h))"

text \<open>A head that is valid, belongs to the reader's partition, and whose pages can all be read.\<close>

definition readable :: "(bytes \<Rightarrow> u64) \<Rightarrow> Reader \<Rightarrow> Head \<Rightarrow> bool" where
  "readable xxh r h \<longleftrightarrow> validateHead h = Inr () \<and> validateConfigHead (rd_config r) h = Inr ()
     \<and> isl (head_leaves xxh r h) = False"

lemma readableE:
  assumes "readable xxh r h"
  obtains es where "validateHead h = Inr ()" "validateConfigHead (rd_config r) h = Inr ()"
    "head_leaves xxh r h = Inr es" "head_segments xxh r h = map (segmentRef (rd_config r)) es"
  using assms by (cases "head_leaves xxh r h") (auto simp: readable_def head_segments_def)

lemma find_map: "List.find P (map f xs) = map_option f (List.find (\<lambda>x. P (f x)) xs)"
  by (induction xs) auto

lemma find_in_leaves: "find_in (map (segmentRef c) es) l = map_option (segmentRef c) (find_leaf es l)"
  by (simp add: find_in_def find_leaf_def find_map)

lemma find_ts_leaves: "find_ts_in (map (segmentRef c) es) t = map_option (segmentRef c) (find_ts es t)"
  by (simp add: find_ts_in_def find_ts_def find_map)

lemma head_segments_spec:
  assumes "readable xxh r h"
  shows "list_all seg_ok (head_segments xxh r h)" "ts_ordered (head_segments xxh r h)"
    "seg_tiles (hh_OldestLSN (hd_Header h)) (head_segments xxh r h) (hh_NextLSN (hd_Header h))"
    "unat (hh_ReachableSegmentCount (hd_Header h)) = length (head_segments xxh r h)"
proof -
  obtain es where e: "validateHead h = Inr ()" "head_leaves xxh r h = Inr es"
      "head_segments xxh r h = map (segmentRef (rd_config r)) es"
    using readableE[OF assms] by metis
  note S = head_leaves_spec[OF e(1,2)]
  show "list_all seg_ok (head_segments xxh r h)" using S(1) by (auto simp: e(3) list_all_iff segmentRef_valid)
  show "ts_ordered (head_segments xxh r h)"
    using S(2) by (simp add: e(3) ts_ordered_def leaf_ordered_def sorted_wrt_map)
  show "seg_tiles (hh_OldestLSN (hd_Header h)) (head_segments xxh r h) (hh_NextLSN (hd_Header h))"
    using S(3) by (simp add: e(3) tiles_map o_def)
  show "unat (hh_ReachableSegmentCount (hd_Header h)) = length (head_segments xxh r h)"
    using S(4) by (simp add: e(3))
qed

lemma reader_limit_normalized: "reader_limit (int (normalizedLimit req)) = normalizedLimit req"
  using normalizedLimit_pos[of req] by (simp add: reader_limit_def MaxSegmentPageLimit_def DefaultSegmentPageLimit_def)

interpretation paged: catalog_reads
  "\<lambda>(xxh, r, h). head_segments xxh r h" "\<lambda>(xxh, r, h). hh_OldestLSN (hd_Header h)"
  "\<lambda>(xxh, r, h). hh_NextLSN (hd_Header h)" "\<lambda>(xxh, r, h). Reader_FindSegment xxh None r h"
  "\<lambda>(xxh, r, h) req. Reader_ListSegments xxh None r h (ls_FromLSN req) (int (normalizedLimit req))"
  "\<lambda>(xxh, r, h). cf_Partition (rd_config r)" "\<lambda>(xxh, r, h). readable xxh r h"
proof (unfold_locales; clarify)
  fix xxh r h l req
  assume ok: "readable xxh r h"
  show "list_all seg_ok (head_segments xxh r h)"
    "seg_tiles (hh_OldestLSN (hd_Header h)) (head_segments xxh r h) (hh_NextLSN (hd_Header h))"
    using head_segments_spec[OF ok] by blast+
  obtain es where e: "validateHead h = Inr ()" "validateConfigHead (rd_config r) h = Inr ()" "head_leaves xxh r h = Inr es"
      "head_segments xxh r h = map (segmentRef (rd_config r)) es"
    using readableE[OF ok] .
  show "Reader_FindSegment xxh None r h l = Inr (find_in (head_segments xxh r h) (unat l))"
    by (simp add: Reader_FindSegment_spec[OF e(1-3)] e(4) find_in_leaves)
  show "Reader_ListSegments xxh None r h (ls_FromLSN req) (int (normalizedLimit req))
      = Inr (page_of (head_segments xxh r h) (unat (ls_FromLSN req)) (normalizedLimit req))"
    by (simp add: Reader_ListSegments_spec[OF e(1-3)] e(4) reader_limit_normalized)
qed


section \<open>Properties\<close>

text \<open>C13: a valid head whose pages can be read stands for a list of valid segments that covers every
  log sequence number from its oldest to its next exactly once, in order of time and of the length
  its header counts; and the three reads of the paged catalog return what a linear scan of that list
  returns: the segment that holds a number, the page of segments from a position and, if the last
  segment of the list is the one the head records as its last (the reader compares a timestamp with
  that record first, and the validation of a head checks only its last number when no segment is
  open; heads that are created, taken over, appended to and trimmed keep it so), the first segment
  whose maximum time reaches a timestamp.\<close>

theorem paged_reads_refine_list:
  assumes "readable xxh r h"
  shows "list_all seg_ok (head_segments xxh r h) \<and> ts_ordered (head_segments xxh r h)
    \<and> seg_tiles (hh_OldestLSN (hd_Header h)) (head_segments xxh r h) (hh_NextLSN (hd_Header h))
    \<and> unat (hh_ReachableSegmentCount (hd_Header h)) = length (head_segments xxh r h)
    \<and> Reader_FindSegment xxh None r h lsn = Inr (find_in (head_segments xxh r h) (unat lsn))
    \<and> Reader_ListSegments xxh None r h pos limit
        = Inr (page_of (head_segments xxh r h) (unat pos) (reader_limit limit))
    \<and> ((head_segments xxh r h \<noteq> [] \<longrightarrow> last (head_segments xxh r h) = segmentRef (rd_config r) (hd_LastSegment h)) \<longrightarrow>
        Reader_LookupTimestamp xxh None r h t = Inr (find_ts_in (head_segments xxh r h) (sint t)))"
proof -
  obtain es where e: "validateHead h = Inr ()" "validateConfigHead (rd_config r) h = Inr ()" "head_leaves xxh r h = Inr es"
      "head_segments xxh r h = map (segmentRef (rd_config r)) es"
    using readableE[OF assms] .
  have "Reader_LookupTimestamp xxh None r h t = Inr (find_ts_in (head_segments xxh r h) (sint t))"
    if l: "head_segments xxh r h \<noteq> [] \<longrightarrow> last (head_segments xxh r h) = segmentRef (rd_config r) (hd_LastSegment h)"
  proof -
    have "last es = hd_LastSegment h" if "es \<noteq> []"
    proof -
      have "segmentRef (rd_config r) (last es) = segmentRef (rd_config r) (hd_LastSegment h)"
        using l that by (simp add: e(4) last_map)
      then show ?thesis by (simp add: segmentRef_def)
    qed
    from Reader_LookupTimestamp_spec[OF e(1-3) this] show ?thesis by (simp add: e(4) find_ts_leaves)
  qed
  then show ?thesis
    using head_segments_spec[OF assms] Reader_FindSegment_spec[OF e(1-3)] Reader_ListSegments_spec[OF e(1-3)]
    by (simp add: e(4) find_in_leaves)
qed

lemma sample_head1_readable: "readable xxh sample_reader sample_head1"
  using sample_head1_valid by (simp add: readable_def sample_head1_leaves) (simp add: sample_reader_def)

lemma sample_head1_segments: "head_segments xxh sample_reader sample_head1 = [segmentRef sample_config sample_leaf]"
  by (simp add: head_segments_def sample_head1_leaves) (simp add: sample_reader_def)

theorem paged_reads_refine_list_witness:
  "Reader_FindSegment (\<lambda>_. 0) None sample_reader sample_head1 105 = Inr (Some (segmentRef sample_config sample_leaf))
   \<and> Reader_LookupTimestamp (\<lambda>_. 0) None sample_reader sample_head1 1500 = Inr None"
proof -
  have l: "last (head_segments (\<lambda>_. 0) sample_reader sample_head1)
      = segmentRef (rd_config sample_reader) (hd_LastSegment sample_head1)"
    by (simp add: sample_head1_segments) (simp add: sample_reader_def sample_head1_def)
  note P = paged_reads_refine_list[OF sample_head1_readable, of "\<lambda>_. 0" 105 0 0 1500]
  have "Reader_FindSegment (\<lambda>_. 0) None sample_reader sample_head1 105
      = Inr (find_in (head_segments (\<lambda>_. 0) sample_reader sample_head1) (unat (105 :: u64)))"
    "Reader_LookupTimestamp (\<lambda>_. 0) None sample_reader sample_head1 1500
      = Inr (find_ts_in (head_segments (\<lambda>_. 0) sample_reader sample_head1) (sint (1500 :: i64)))"
    using P l by blast+
  then show ?thesis
    by (simp add: sample_head1_segments find_in_def find_ts_in_def) (simp add: le_lo_def le_hi_def sample_leaf_def)
qed

text \<open>C14: a lookup in the paged catalog is sound on every store contents, whatever its pages hold. If
  it returns a segment, the segment is valid, belongs to the reader's stream and partition, lies in
  the retained range as far as the number asked for goes, and holds that number.\<close>

theorem paged_lookup_sound:
  assumes "validateHead h = Inr ()" "Reader_FindSegment xxh ctx r h lsn = Inr (Some s)"
  shows "seg_ok s \<and> sr_BaseLSN s \<le> lsn \<and> lsn \<le> sr_LastLSN s
    \<and> hh_OldestLSN (hd_Header h) \<le> lsn \<and> lsn < hh_NextLSN (hd_Header h)
    \<and> sr_StreamID s = cf_StreamID (rd_config r) \<and> sr_Partition s = cf_Partition (rd_config r)"
proof -
  let ?i = "search_list (\<lambda>root. root_seqHi root \<ge> lsn) (headRoots h)"
  note V = validateHead_Inr[OF assms(1)]
  have range: "hh_OldestLSN (hd_Header h) \<le> lsn" "lsn < hh_NextLSN (hd_Header h)"
    and i: "?i \<noteq> length (headRoots h)" "\<not> root_seqLo (headRoots h ! ?i) > lsn"
    and root: "(case headRoots h ! ?i of RootLeaf leaf \<Rightarrow> Inr (Some (segmentRef (rd_config r) leaf))
        | RootRef ref \<Rightarrow> findInPage xxh r ref lsn (hh_WriterEpoch (hd_Header h))) = Inr (Some s)"
    using assms(2) by (auto simp: Reader_FindSegment_def Let_def split: option.splits if_splits)
  have lt: "?i < length (headRoots h)" using i(1) search_list_le[of _ "headRoots h"] le_neq_implies_less by blast
  then have hit: "root_seqHi (headRoots h ! ?i) \<ge> lsn" by (rule search_list_hit)
  have "\<exists>e. leaf_ok e \<and> s = segmentRef (rd_config r) e \<and> le_BaseLSN e \<le> lsn \<and> lsn \<le> le_LastLSN e"
  proof (cases "headRoots h ! ?i")
    case (RootRef ref)
    then show ?thesis using root findInPage_sound by simp
  next
    case (RootLeaf leaf)
    have "RootLeaf leaf \<in> set (headRoots h)" using lt RootLeaf nth_mem by metis
    then have "leaf \<in> set (hd_Active h)" by (auto simp: headRoots_eq)
    then have "leaf_ok leaf" using V(9) by (simp add: active_ok_def list_all_iff)
    then show ?thesis using root i(2) hit RootLeaf by (auto simp: not_less)
  qed
  then show ?thesis using range segmentRef_valid by (auto simp: segmentRef_def)
qed

theorem paged_lookup_sound_witness:
  "sr_BaseLSN (segmentRef sample_config sample_leaf) \<le> 105 \<and> seg_ok (segmentRef sample_config sample_leaf)"
proof -
  have "Reader_FindSegment (\<lambda>_. 0) None sample_reader sample_head1 105 = Inr (Some (segmentRef sample_config sample_leaf))"
    using paged.find_seg[of "(\<lambda>_. 0, sample_reader, sample_head1)" 105] sample_head1_readable
    by (simp add: sample_head1_segments find_in_def) (simp add: le_lo_def le_hi_def sample_leaf_def)
  then show ?thesis using paged_lookup_sound[OF sample_head1_valid(1)] by blast
qed

text \<open>C15: a reader of the paged catalog that follows pages from any position, with any page limit,
  receives every segment from that position on, once and in order, after at most one request more
  than there are such segments.\<close>

theorem paged_paging_complete:
  assumes "readable xxh r h"
    and "length (filter (\<lambda>s. unat pos < seg_hi s) (head_segments xxh r h)) < fuel"
  shows "follow_pages (\<lambda>l. Reader_ListSegments xxh None r h l (int (normalizedLimit
        \<lparr>ls_Partition = cf_Partition (rd_config r), ls_FromLSN = l, ls_Limit = limit\<rparr>))) fuel pos
    = Some (Inr (filter (\<lambda>s. unat pos < seg_hi s) (head_segments xxh r h)))"
  using paged.follow_all[of "(xxh, r, h)" pos fuel limit] assms by simp

theorem paged_paging_complete_witness:
  "follow_pages (\<lambda>l. Reader_ListSegments (\<lambda>_. 0) None sample_reader sample_head1 l (int (normalizedLimit
        \<lparr>ls_Partition = cf_Partition (rd_config sample_reader), ls_FromLSN = l, ls_Limit = 1\<rparr>))) 2 0
    = Some (Inr [segmentRef sample_config sample_leaf])"
proof -
  have "filter (\<lambda>s. unat (0 :: u64) < seg_hi s) (head_segments (\<lambda>_. 0) sample_reader sample_head1)
      = [segmentRef sample_config sample_leaf]"
    by (simp add: sample_head1_segments le_hi_def)
  then show ?thesis using paged_paging_complete[OF sample_head1_readable, of 0 "\<lambda>_. 0" 2 1] by simp
qed

end
