(* ===== verification/Cat_Tree_Spec.thy ===== *)
theory Cat_Tree_Spec
  imports Cat_Tree
begin

text \<open>
  What the operations of \<^verbatim>\<open>catengine/tree.go\<close> do to the list of segments. A store that
  keeps every object and holds the pages of a mutation expands the new head to the old list with the
  segment at its end; sealed pages are read back as they were sealed; the generation in a page's key
  keeps a mutation away from every page of the old head.
\<close>


section \<open>Expansion and growing stores\<close>

definition expand :: "(bytes \<Rightarrow> u64) \<Rightarrow> Reader \<Rightarrow> u64 \<Rightarrow> IndexEntry list \<Rightarrow> LeafEntry list res" where
  "expand xxh r ep refs = bindE (mapE (leaves xxh r ep) refs) (\<lambda>ess. Inr (concat ess))"

lemma head_leaves_expand:
  "head_leaves xxh r h = Inr es \<longleftrightarrow>
     (\<exists>fs. expand xxh r (hh_WriterEpoch (hd_Header h)) (head_refs h) = Inr fs \<and> es = fs @ hd_Active h)"
  by (auto simp: head_leaves_def expand_def)

lemma expand_eq: "expand xxh r ep refs = Inr es \<longleftrightarrow>
    (\<exists>ess. list_all2 (\<lambda>ref fs. leaves xxh r ep ref = Inr fs) refs ess \<and> es = concat ess)"
  by (auto simp: expand_def mapE_eq_Inr)

lemma expand_Nil [simp]: "expand xxh r ep [] = Inr []"
  by (simp add: expand_def)

lemma expand_append:
  "expand xxh r ep (as @ bs) = Inr es \<longleftrightarrow> (\<exists>xs ys. expand xxh r ep as = Inr xs \<and> expand xxh r ep bs = Inr ys \<and> es = xs @ ys)"
proof
  let ?P = "\<lambda>ref fs. leaves xxh r ep ref = Inr fs"
  assume "expand xxh r ep (as @ bs) = Inr es"
  then obtain us vs where "list_all2 ?P as us" "list_all2 ?P bs vs" "es = concat (us @ vs)"
    unfolding expand_eq list_all2_append1 by blast
  then show "\<exists>xs ys. expand xxh r ep as = Inr xs \<and> expand xxh r ep bs = Inr ys \<and> es = xs @ ys"
    unfolding expand_eq concat_append by blast
next
  let ?P = "\<lambda>ref fs. leaves xxh r ep ref = Inr fs"
  assume "\<exists>xs ys. expand xxh r ep as = Inr xs \<and> expand xxh r ep bs = Inr ys \<and> es = xs @ ys"
  then obtain us vs where "list_all2 ?P as us" "list_all2 ?P bs vs" "es = concat (us @ vs)"
    unfolding expand_eq by auto
  then show "expand xxh r ep (as @ bs) = Inr es" unfolding expand_eq using list_all2_appendI by blast
qed

lemma expand_single [simp]: "expand xxh r ep [ref] = leaves xxh r ep ref"
  by (cases "leaves xxh r ep ref") (auto simp: expand_def)

text \<open>A store that has every object another has, unchanged.\<close>

definition extends :: "Reader \<Rightarrow> Reader \<Rightarrow> bool" where
  "extends r r' \<longleftrightarrow> rd_config r' = rd_config r \<and> (\<forall>k body. rd_pages r k = Inr body \<longrightarrow> rd_pages r' k = Inr body)"

lemma extends_refl: "extends r r"
  by (simp add: extends_def)

lemma loadLeaf_mono:
  "extends r r' \<Longrightarrow> ep \<le> ep' \<Longrightarrow> loadLeaf xxh r ref ep = Inr page \<Longrightarrow> loadLeaf xxh r' ref ep' = Inr page"
proof -
  assume e: "extends r r'" "ep \<le> ep'" and l: "loadLeaf xxh r ref ep = Inr page"
  obtain body where b: "rd_pages r (LeafPagePath (rd_config r) ref) = Inr body" "ParseLeafPage xxh body = Inr (page, ie_PageID ref)"
    using loadLeaf_Inr(4)[OF l] by blast
  then show ?thesis using loadLeaf_Inr(2,3)[OF l] e by (simp add: loadLeaf_def extends_def not_less)
qed

lemma loadIndex_mono:
  "extends r r' \<Longrightarrow> ep \<le> ep' \<Longrightarrow> loadIndex xxh r ref ep = Inr page \<Longrightarrow> loadIndex xxh r' ref ep' = Inr page"
proof -
  assume e: "extends r r'" "ep \<le> ep'" and l: "loadIndex xxh r ref ep = Inr page"
  obtain body where b: "rd_pages r (IndexPagePath (rd_config r) ref) = Inr body" "ParseIndexPage xxh body = Inr (page, ie_PageID ref)"
    using loadIndex_Inr(4)[OF l] by blast
  then show ?thesis using loadIndex_Inr(2,3)[OF l] e by (simp add: loadIndex_def extends_def not_less)
qed

lemma leaves_leafI: "ie_Level ref = 0 \<Longrightarrow> loadLeaf xxh r ref ep = Inr page \<Longrightarrow> leaves xxh r ep ref = Inr (lp_Entries page)"
  by (subst leaves.simps) simp

lemma leaves_indexI:
  "ie_Level ref \<noteq> 0 \<Longrightarrow> loadIndex xxh r ref ep = Inr page \<Longrightarrow>
     expand xxh r (ph_WriterEpoch (xp_Header page)) (xp_Entries page) = Inr es \<Longrightarrow> leaves xxh r ep ref = Inr es"
  by (subst leaves.simps) (auto simp: expand_def)

lemma leaves_mono:
  "leaves xxh r ep ref = Inr es \<Longrightarrow> extends r r' \<Longrightarrow> ep \<le> ep' \<Longrightarrow> leaves xxh r' ep' ref = Inr es"
proof (induction xxh r ep ref arbitrary: es ep' rule: leaves.induct)
  case (1 xxh r ep ref)
  show ?case
  proof (cases "ie_Level ref = 0")
    case True
    obtain page where "loadLeaf xxh r ref ep = Inr page" "es = lp_Entries page" using leaves_leaf[OF 1(2) True] .
    then show ?thesis using leaves_leafI[OF True] loadLeaf_mono[OF 1(3,4)] by blast
  next
    case False
    obtain page ess where l: "loadIndex xxh r ref ep = Inr page" and es: "es = concat ess"
      and ch: "list_all2 (\<lambda>child es. leaves xxh r (ph_WriterEpoch (xp_Header page)) child = Inr es) (xp_Entries page) ess"
      using leaves_index[OF 1(2) False] .
    have "list_all2 (\<lambda>child es. leaves xxh r' (ph_WriterEpoch (xp_Header page)) child = Inr es) (xp_Entries page) ess"
      using ch by (rule list.rel_mono_strong) (use 1(1)[OF False l _ _ 1(3) order_refl] in blast)
    then have "expand xxh r' (ph_WriterEpoch (xp_Header page)) (xp_Entries page) = Inr es"
      using es by (auto simp: expand_eq)
    then show ?thesis using leaves_indexI[OF False loadIndex_mono[OF 1(3,4) l]] by blast
  qed
qed

lemma expand_mono:
  "expand xxh r ep refs = Inr es \<Longrightarrow> extends r r' \<Longrightarrow> ep \<le> ep' \<Longrightarrow> expand xxh r' ep' refs = Inr es"
proof -
  assume "expand xxh r ep refs = Inr es" and e: "extends r r'" "ep \<le> ep'"
  then obtain ess where a: "list_all2 (\<lambda>ref fs. leaves xxh r ep ref = Inr fs) refs ess" "es = concat ess"
    unfolding expand_eq by blast
  have "list_all2 (\<lambda>ref fs. leaves xxh r' ep' ref = Inr fs) refs ess"
    using a(1) by (rule list_all2_mono) (rule leaves_mono[OF _ e])
  then show ?thesis using a(2) unfolding expand_eq by blast
qed


section \<open>Sealed pages\<close>

definition holds :: "Reader \<Rightarrow> PageObject list \<Rightarrow> bool" where
  "holds r pages \<longleftrightarrow> (\<forall>p\<in>set pages. rd_pages r (po_Key p) = Inr (po_Body p))"

lemma holds_simps [simp]:
  "holds r []" "holds r (p # ps) \<longleftrightarrow> rd_pages r (po_Key p) = Inr (po_Body p) \<and> holds r ps"
  "holds r (ps @ qs) \<longleftrightarrow> holds r ps \<and> holds r qs"
  by (auto simp: holds_def)

lemma sealLeaf_leaves:
  assumes "sealLeaf xxh (rd_config r) g ep es = Inr (ref, obj)" "holds r [obj]"
  shows "leaves xxh r ep ref = Inr es" "ie_Generation ref = g" "ie_Level ref = 0" "po_Key obj = PagePath (rd_config r) ref" "po_Ref obj = ref"
proof -
  obtain page where m: "MarshalLeafPage xxh page = Inr (po_Body obj, ie_PageID ref)" and es: "lp_Entries page = es"
    and h: "matchesPageRef (lp_Header page) ref (rd_config r)" "ph_WriterEpoch (lp_Header page) = ep"
    and k: "po_Key obj = LeafPagePath (rd_config r) ref" "ie_Level ref = 0" "ie_Generation ref = g" "po_Ref obj = ref"
    using assms(1) by (auto simp: sealLeaf_def Let_def matchesPageRef_def split: prod.splits)
  have "loadLeaf xxh r ref ep = Inr page"
    using ParseLeafPage_Marshal[OF m] assms(2) h k by (simp add: loadLeaf_def)
  then show "leaves xxh r ep ref = Inr es" using leaves_leafI[OF k(2)] es by blast
  show "ie_Generation ref = g" "ie_Level ref = 0" "po_Key obj = PagePath (rd_config r) ref" "po_Ref obj = ref"
    using k by (simp_all add: PagePath_def)
qed

lemma sealIndex_leaves:
  assumes "sealIndex xxh (rd_config r) g ep level refs = Inr (ref, obj)" "holds r [obj]" "level \<noteq> 0"
    and "expand xxh r ep refs = Inr es"
  shows "leaves xxh r ep ref = Inr es"
proof -
  obtain page where m: "MarshalIndexPage xxh page = Inr (po_Body obj, ie_PageID ref)" and es: "xp_Entries page = refs"
    and h: "matchesPageRef (xp_Header page) ref (rd_config r)" "ph_WriterEpoch (xp_Header page) = ep"
    and k: "po_Key obj = IndexPagePath (rd_config r) ref" "ie_Level ref = level"
    using assms(1) by (auto simp: sealIndex_def Let_def matchesPageRef_def split: prod.splits)
  have "loadIndex xxh r ref ep = Inr page"
    using ParseIndexPage_Marshal[OF m] assms(2) h k by (simp add: loadIndex_def)
  then show ?thesis using leaves_indexI[of ref xxh r ep page es] es h(2) k(2) assms(3,4) by simp
qed

lemma sealIndex_ref:
  assumes "sealIndex xxh c g ep level refs = Inr (ref, obj)"
  shows "ie_Generation ref = g" "ie_Level ref = level" "po_Key obj = IndexPagePath c ref" "po_Ref obj = ref"
  using assms by (auto simp: sealIndex_def Let_def split: prod.splits)


section \<open>Pushing a reference\<close>

text \<open>Growing adds empty sections only.\<close>

lemma grow_sections_spec:
  "\<exists>new. grow_sections ss n = ss @ new \<and> list_all (\<lambda>s. os_Entries s = []) new \<and> length (ss @ new) = max n (length ss)"
proof (induction ss n rule: grow_sections.induct)
  case (1 ss n)
  show ?case
  proof (cases "length ss < n")
    case True
    let ?s = "\<lparr>os_Level = of_nat (length ss + 1), os_Entries = []\<rparr>"
    obtain new where "grow_sections (ss @ [?s]) n = (ss @ [?s]) @ new" "list_all (\<lambda>s. os_Entries s = []) new"
      "length ((ss @ [?s]) @ new) = max n (length (ss @ [?s]))" using 1[OF True] by blast
    then show ?thesis using True by (intro exI[of _ "?s # new"]) (simp add: grow_sections.simps[of ss])
  qed (simp add: grow_sections.simps[of ss])
qed

definition low_empty :: "Head \<Rightarrow> u8 \<Rightarrow> bool" where
  "low_empty h level \<longleftrightarrow> list_all (\<lambda>s. os_Entries s = []) (take (unat level - 1) (hd_Sections h))"

lemma concat_empty: "list_all (\<lambda>s. os_Entries s = []) ss \<Longrightarrow> concat (map os_Entries (rev ss)) = []"
  by (auto simp: list_all_iff)

lemma head_refs_update:
  assumes "i < length ss" "list_all (\<lambda>s. os_Entries s = []) (take i ss)"
  shows "concat (map os_Entries (rev (ss[i := s]))) = concat (map os_Entries (rev (drop (Suc i) ss))) @ os_Entries s"
  using assms by (simp add: upd_conv_take_nth_drop) (auto simp: list_all_iff)

lemma take_update_low:
  "list_all P (take i ss) \<Longrightarrow> i < length ss \<Longrightarrow> P s \<Longrightarrow> list_all P (take (Suc i) (ss[i := s]))"
  by (simp add: take_Suc_conv_app_nth)

lemma push_sections:
  assumes "low_empty h level" "level \<noteq> 0" "ss = grow_sections (hd_Sections h) (unat level)" "i = unat level - 1"
  obtains up where "head_refs h = up @ os_Entries (ss ! i)" "i < length ss"
    "\<And>s. head_refs (h\<lparr>hd_Sections := ss[i := s]\<rparr>) = up @ os_Entries s"
    "list_all (\<lambda>s. os_Entries s = []) (take i ss)"
proof -
  obtain new where n: "ss = hd_Sections h @ new" "list_all (\<lambda>s. os_Entries s = []) new"
      "length ss = max (unat level) (length (hd_Sections h))"
    using grow_sections_spec[of "hd_Sections h" "unat level"] assms(3) by metis
  have i: "i < length ss" using n(3) assms(2,4) unat_gt_0[of level] by linarith
  have low: "list_all (\<lambda>s. os_Entries s = []) (take i ss)"
    using assms(1,4) n(1,2) by (auto simp: low_empty_def list_all_iff dest: in_set_takeD)
  have "head_refs h = concat (map os_Entries (rev ss))" using concat_empty[OF n(2)] by (simp add: head_refs_def n(1))
  then have "head_refs h = concat (map os_Entries (rev (drop (Suc i) ss))) @ os_Entries (ss ! i)"
    using head_refs_update[OF i low, of "ss ! i"] by simp
  then show thesis using that i low head_refs_update[OF i low] by (simp add: head_refs_def)
qed

text \<open>One step of the recursion: the reference stays in its section, or the full section is sealed.\<close>

lemma push_Inr:
  fixes h :: Head and level :: u8
  defines "ss \<equiv> grow_sections (hd_Sections h) (unat level)" and "i \<equiv> unat level - 1"
  assumes "push xxh c h level ref pages = Inr (h', pages')"
  obtains (keep) "level \<noteq> 0" "\<not> level > MaxOpenIndexLevel" "pages' = pages"
      "h' = h\<lparr>hd_Sections := ss[i := (ss ! i)\<lparr>os_Entries := os_Entries (ss ! i) @ [ref]\<rparr>]\<rparr>"
    | (carry) parent object where "level \<noteq> 0" "\<not> level > MaxOpenIndexLevel" "level \<noteq> MaxOpenIndexLevel"
      "sealIndex xxh c (hh_Generation (hd_Header h)) (hh_WriterEpoch (hd_Header h)) level (os_Entries (ss ! i) @ [ref])
         = Inr (parent, object)"
      "push xxh c (h\<lparr>hd_Sections := ss[i := (ss ! i)\<lparr>os_Entries := []\<rparr>]\<rparr>) (level + 1) parent (pages @ [object])
         = Inr (h', pages')"
proof -
  let ?n = "length (os_Entries (ss ! i))"
  have lim: "(of_nat (length (os_Entries (ss ! i) @ [ref])) :: u32) < cf_IndexLimit c" if "?n + 1 < unat (cf_IndexLimit c)"
    using that unat_u32_less[of "cf_IndexLimit c"]
    by (simp add: word_less_nat_alt unsigned_of_nat take_bit_nat_eq_self del: of_nat_add of_nat_Suc)
  note P = assms(3)[unfolded push.simps[of xxh c h level ref pages] Let_def, folded ss_def, folded i_def]
  have l: "level \<noteq> 0" "\<not> level > MaxOpenIndexLevel" using P by (auto split: if_splits)
  have full: "\<not> (level = MaxOpenIndexLevel \<and> ?n + 1 \<ge> unat (cf_IndexLimit c))" using P by (auto split: if_splits)
  show thesis
  proof (cases "(of_nat (length (os_Entries (ss ! i) @ [ref])) :: u32) < cf_IndexLimit c")
    case True
    then show thesis using P l full keep by (auto simp del: length_append split: if_splits)
  next
    case False
    then have "level \<noteq> MaxOpenIndexLevel" using full lim by force
    then show thesis using P l full False carry by (auto simp del: length_append split: prod.splits)
  qed
qed

lemma level_measure: "\<not> level > MaxOpenIndexLevel \<Longrightarrow> 65 - unat (level + 1) < 65 - unat level \<and> unat level \<le> 64"
  by (simp add: open_level_succ) (simp add: MaxOpenIndexLevel_def MaxIndexLevel_def word_less_nat_alt not_less)

lemma below_open_level: "\<not> level > MaxOpenIndexLevel \<Longrightarrow> level \<noteq> MaxOpenIndexLevel \<Longrightarrow> level \<le> MaxIndexLevel"
  by (simp add: MaxOpenIndexLevel_def MaxIndexLevel_def word_less_nat_alt word_le_nat_alt word_unat_eq_iff)

lemma push_pages:
  "push xxh c h level ref pages = Inr (h', pages') \<Longrightarrow>
     (\<exists>new. pages' = pages @ new \<and> length new + unat level \<le> 64
       \<and> (\<forall>p\<in>set new. po_Key p = PagePath c (po_Ref p) \<and> ie_Level (po_Ref p) \<le> MaxIndexLevel
            \<and> ie_Generation (po_Ref p) = hh_Generation (hd_Header h)))
     \<and> hd_Header h' = hd_Header h \<and> hd_Active h' = hd_Active h \<and> hd_LastSegment h' = hd_LastSegment h"
proof (induction "65 - unat level" arbitrary: h level ref pages rule: less_induct)
  case less
  from less(2) show ?case
  proof (cases rule: push_Inr)
    case keep
    then show ?thesis using level_measure[of level] by simp
  next
    case (carry parent object)
    note S = sealIndex_ref[OF carry(4)]
    obtain new where new: "pages' = (pages @ [object]) @ new" "length new + unat (level + 1) \<le> 64"
        "\<forall>p\<in>set new. po_Key p = PagePath c (po_Ref p) \<and> ie_Level (po_Ref p) \<le> MaxIndexLevel
            \<and> ie_Generation (po_Ref p) = hh_Generation (hd_Header h)"
      and same: "hd_Header h' = hd_Header h" "hd_Active h' = hd_Active h" "hd_LastSegment h' = hd_LastSegment h"
      using less(1)[OF conjunct1[OF level_measure[OF carry(2)]] carry(5)] by auto
    have "po_Key object = PagePath c (po_Ref object)" using S carry(1) by (simp add: PagePath_def)
    moreover have "ie_Level (po_Ref object) \<le> MaxIndexLevel" using S carry(2,3) below_open_level by metis
    ultimately show ?thesis using new same S(1,4) open_level_succ[OF carry(2)]
      by (intro conjI exI[of _ "object # new"]) auto
  qed
qed

lemma push_spec:
  "push xxh c h level ref pages = Inr (h', pages') \<Longrightarrow> rd_config r = c \<Longrightarrow> low_empty h level \<Longrightarrow> holds r pages' \<Longrightarrow>
     expand xxh r (hh_WriterEpoch (hd_Header h)) (head_refs h) = Inr es \<Longrightarrow>
     leaves xxh r (hh_WriterEpoch (hd_Header h)) ref = Inr fs \<Longrightarrow>
     expand xxh r (hh_WriterEpoch (hd_Header h)) (head_refs h') = Inr (es @ fs)"
proof (induction "65 - unat level" arbitrary: h level ref pages es fs rule: less_induct)
  case less
  let ?ss = "grow_sections (hd_Sections h) (unat level)" and ?i = "unat level - 1"
  let ?ep = "hh_WriterEpoch (hd_Header h)"
  have l: "level \<noteq> 0" using less(2) by (rule push_Inr) auto
  obtain up where up: "head_refs h = up @ os_Entries (?ss ! ?i)" "?i < length ?ss"
      "\<And>s. head_refs (h\<lparr>hd_Sections := ?ss[?i := s]\<rparr>) = up @ os_Entries s"
      "list_all (\<lambda>s. os_Entries s = []) (take ?i ?ss)"
    by (rule push_sections[OF less(4) l refl refl]) blast
  obtain us vs where es: "expand xxh r ?ep up = Inr us" "expand xxh r ?ep (os_Entries (?ss ! ?i)) = Inr vs" "es = us @ vs"
    using less(6) unfolding up(1) expand_append by blast
  have full: "expand xxh r ?ep (os_Entries (?ss ! ?i) @ [ref]) = Inr (vs @ fs)"
    using es(2) less(7) by (auto simp: expand_append)
  from less(2) show ?case
  proof (cases rule: push_Inr)
    case keep
    have "head_refs h' = up @ (os_Entries (?ss ! ?i) @ [ref])" using keep(4) up(3) by simp
    then show ?thesis using es(1,3) full unfolding \<open>head_refs h' = _\<close> expand_append[of _ _ _ up] by auto
  next
    case (carry parent object)
    let ?h = "h\<lparr>hd_Sections := ?ss[?i := (?ss ! ?i)\<lparr>os_Entries := []\<rparr>]\<rparr>"
    have obj: "holds r [object]" using push_pages[OF carry(5)] less(5) by auto
    have par: "leaves xxh r ?ep parent = Inr (vs @ fs)"
      using sealIndex_leaves[OF _ obj l full] carry(4) less(3) by simp
    have low: "low_empty ?h (level + 1)"
      using take_update_low[OF up(4,2), of "(?ss ! ?i)\<lparr>os_Entries := []\<rparr>"] l open_level_succ[OF carry(2)] unat_gt_0[of level]
      by (simp add: low_empty_def)
    have "expand xxh r (hh_WriterEpoch (hd_Header ?h)) (head_refs h') = Inr (us @ (vs @ fs))"
      by (rule less(1)[OF conjunct1[OF level_measure[OF carry(2)]] carry(5) less(3) low less(5)])
        (use up(3) es(1) par in simp_all)
    then show ?thesis using es(3) by simp
  qed
qed


section \<open>Appending a segment\<close>

lemma MarshalHead_valid: "MarshalHead xxh h = Inr body \<Longrightarrow> validateHead h = Inr ()"
  by (auto simp: MarshalHead_def)

lemma append_entry_fields [simp]:
  "hd_Active (append_entry h e) = hd_Active h @ [e]" "hd_LastSegment (append_entry h e) = e"
  "hd_Sections (append_entry h e) = hd_Sections h"
  "hh_WriterEpoch (hd_Header (append_entry h e)) = hh_WriterEpoch (hd_Header h)"
  "hh_WriterID (hd_Header (append_entry h e)) = hh_WriterID (hd_Header h)"
  "hh_Generation (hd_Header (append_entry h e)) = hh_Generation (hd_Header h) + 1"
  "hh_NextLSN (hd_Header (append_entry h e)) = le_LastLSN e + 1"
  "hh_SegmentCount (hd_Header (append_entry h e)) = hh_SegmentCount (hd_Header h) + 1"
  by (simp_all add: append_entry_def Let_def)

lemma append_seal_spec:
  assumes "append_seal xxh c nxt = Inr (nxt', pages)" "hd_Active nxt \<noteq> []"
  shows "hd_LastSegment nxt' = hd_LastSegment nxt"
    "\<exists>n. hd_Header nxt' = (hd_Header nxt)\<lparr>hh_ActiveCount := n\<rparr>"
    "length pages \<le> 64"
    "\<And>p. p \<in> set pages \<Longrightarrow> po_Key p = PagePath c (po_Ref p) \<and> ie_Level (po_Ref p) \<le> MaxIndexLevel \<and> ie_Generation (po_Ref p) = hh_Generation (hd_Header nxt)"
    "\<And>r es. \<lbrakk>rd_config r = c; holds r pages; expand xxh r (hh_WriterEpoch (hd_Header nxt)) (head_refs nxt) = Inr es\<rbrakk> \<Longrightarrow>
       \<exists>fs. expand xxh r (hh_WriterEpoch (hd_Header nxt)) (head_refs nxt') = Inr fs \<and> fs @ hd_Active nxt' = es @ hd_Active nxt"
proof -
  let ?ep = "hh_WriterEpoch (hd_Header nxt)"
  consider (keep) "nxt' = nxt\<lparr>hd_Header := (hd_Header nxt)\<lparr>hh_ActiveCount := of_nat (length (hd_Active nxt))\<rparr>\<rparr>" "pages = []"
    | (seal) ref object where "sealLeaf xxh c (hh_Generation (hd_Header nxt)) ?ep (hd_Active nxt) = Inr (ref, object)"
      "push xxh c (nxt\<lparr>hd_Active := [], hd_Header := (hd_Header nxt)\<lparr>hh_ActiveCount := 0\<rparr>\<rparr>) 1 ref [object] = Inr (nxt', pages)"
    using assms(1) by (auto simp: append_seal_def split: if_splits prod.splits)
  then have "hd_LastSegment nxt' = hd_LastSegment nxt
    \<and> (\<exists>n. hd_Header nxt' = (hd_Header nxt)\<lparr>hh_ActiveCount := n\<rparr>)
    \<and> length pages \<le> 64
    \<and> (\<forall>p\<in>set pages. po_Key p = PagePath c (po_Ref p) \<and> ie_Level (po_Ref p) \<le> MaxIndexLevel \<and> ie_Generation (po_Ref p) = hh_Generation (hd_Header nxt))
    \<and> (\<forall>r es. rd_config r = c \<longrightarrow> holds r pages \<longrightarrow> expand xxh r ?ep (head_refs nxt) = Inr es \<longrightarrow>
       (\<exists>fs. expand xxh r ?ep (head_refs nxt') = Inr fs \<and> fs @ hd_Active nxt' = es @ hd_Active nxt))"
  proof cases
    case keep
    then show ?thesis by (auto simp: head_refs_def)
  next
    case (seal ref object)
    let ?n = "nxt\<lparr>hd_Active := [], hd_Header := (hd_Header nxt)\<lparr>hh_ActiveCount := 0\<rparr>\<rparr>"
    obtain new where new: "pages = [object] @ new" "length new + unat (1 :: u8) \<le> 64"
      "\<forall>p\<in>set new. po_Key p = PagePath c (po_Ref p) \<and> ie_Level (po_Ref p) \<le> MaxIndexLevel \<and> ie_Generation (po_Ref p) = hh_Generation (hd_Header nxt)"
      and same: "hd_Header nxt' = hd_Header ?n" "hd_Active nxt' = []" "hd_LastSegment nxt' = hd_LastSegment nxt"
      using push_pages[OF seal(2)] by auto
    have obj: "po_Key object = PagePath c (po_Ref object)" "ie_Level (po_Ref object) \<le> MaxIndexLevel" "ie_Generation (po_Ref object) = hh_Generation (hd_Header nxt)"
      using seal(1) by (auto simp: sealLeaf_def PagePath_def Let_def split: prod.splits)
    have "expand xxh r ?ep (head_refs nxt') = Inr (es @ hd_Active nxt)"
      if r: "rd_config r = c" "holds r pages" "expand xxh r ?ep (head_refs nxt) = Inr es" for r es
    proof -
      have "leaves xxh r ?ep ref = Inr (hd_Active nxt)"
        using sealLeaf_leaves(1)[of xxh r _ ?ep] seal(1) r(1,2) new(1) by simp
      then show ?thesis
        using push_spec[OF seal(2) r(1) _ r(2)] r(3) by (simp add: low_empty_def head_refs_def)
    qed
    moreover have "\<exists>n. hd_Header nxt' = (hd_Header nxt)\<lparr>hh_ActiveCount := n\<rparr>"
      using same(1) by (intro exI[of _ 0]) simp
    ultimately show ?thesis using new same(2,3) obj by auto
  qed
  then show "hd_LastSegment nxt' = hd_LastSegment nxt"
    "\<exists>n. hd_Header nxt' = (hd_Header nxt)\<lparr>hh_ActiveCount := n\<rparr>"
    "length pages \<le> 64"
    "\<And>p. p \<in> set pages \<Longrightarrow> po_Key p = PagePath c (po_Ref p) \<and> ie_Level (po_Ref p) \<le> MaxIndexLevel \<and> ie_Generation (po_Ref p) = hh_Generation (hd_Header nxt)"
    "\<And>r es. \<lbrakk>rd_config r = c; holds r pages; expand xxh r (hh_WriterEpoch (hd_Header nxt)) (head_refs nxt) = Inr es\<rbrakk> \<Longrightarrow>
       \<exists>fs. expand xxh r (hh_WriterEpoch (hd_Header nxt)) (head_refs nxt') = Inr fs \<and> fs @ hd_Active nxt' = es @ hd_Active nxt"
    by blast+
qed

lemma Append_Inr:
  assumes "Append xxh c h seg = Inr m"
  obtains entry nxt where "leafEntry c seg = Inr entry" "validateConfigHead c h = Inr ()"
    "hh_Generation (hd_Header h) \<noteq> MaxUint64" "hh_WriterEpoch (hd_Header h) \<noteq> 0"
    "sr_WriterEpoch seg = hh_WriterEpoch (hd_Header h)" "sr_WriterTag seg = hh_WriterID (hd_Header h)"
    "sr_BaseLSN seg = hh_NextLSN (hd_Header h)"
    "HasLastSegment h \<Longrightarrow> sint (le_MaxTimestampMS (hd_LastSegment h)) \<le> sint (sr_MinTimestampMS seg)"
    "append_seal xxh c (append_entry h entry) = Inr (nxt, mu_Pages m)"
    "mu_Head m = nxt\<lparr>hd_Header := (hd_Header nxt)\<lparr>hh_LevelCount := of_nat (length (hd_Sections nxt))\<rparr>\<rparr>"
    "MarshalHead xxh (mu_Head m) = Inr (mu_HeadBody m)"
proof -
  obtain entry where e: "leafEntry c seg = Inr entry" using assms by (auto simp: Append_def split: if_splits)
  have s: "seg = segmentRef c entry" using leafEntry_Inr(1)[OF e] by simp
  show thesis
    using assms e that[of entry] unfolding s
    by (auto simp: Append_def Let_def not_less segmentRef_def split: if_splits prod.splits)
qed

end
