(* ===== verification/Cat_Append.thy ===== *)
theory Cat_Append
  imports Cat_Tree_Spec
begin

text \<open>
  The contract of an append to the paged catalog: exactly which segments are accepted, what the new
  head stands for, and what a takeover does to the writers before it.
\<close>


section \<open>Heads whose last segment is the last of the list\<close>

definition linked :: "(bytes \<Rightarrow> u64) \<Rightarrow> Reader \<Rightarrow> Head \<Rightarrow> bool" where
  "linked xxh r h \<longleftrightarrow> readable xxh r h
     \<and> (head_segments xxh r h \<noteq> [] \<longrightarrow> last (head_segments xxh r h) = segmentRef (rd_config r) (hd_LastSegment h))"

lemma segmentRef_inject [simp]: "segmentRef c e = segmentRef c e' \<longleftrightarrow> e = e'"
  by (auto simp: segmentRef_def)

lemma linkedE:
  assumes "linked xxh r h"
  obtains es where "validateHead h = Inr ()" "validateConfigHead (rd_config r) h = Inr ()"
    "head_leaves xxh r h = Inr es" "head_segments xxh r h = map (segmentRef (rd_config r)) es"
    "es \<noteq> [] \<Longrightarrow> last es = hd_LastSegment h"
proof -
  have rd: "readable xxh r h" using assms by (simp add: linked_def)
  obtain es where e: "validateHead h = Inr ()" "validateConfigHead (rd_config r) h = Inr ()"
      "head_leaves xxh r h = Inr es" "head_segments xxh r h = map (segmentRef (rd_config r)) es"
    using readableE[OF rd] .
  moreover have "es \<noteq> [] \<Longrightarrow> last es = hd_LastSegment h"
    using assms by (simp add: linked_def e(4) last_map)
  ultimately show thesis using that by blast
qed

lemma head_segments_eq: "head_leaves xxh r h = Inr es \<Longrightarrow> head_segments xxh r h = map (segmentRef (rd_config r)) es"
  by (simp add: head_segments_def)

lemma linkedI:
  assumes "validateHead h = Inr ()" "validateConfigHead (rd_config r) h = Inr ()" "head_leaves xxh r h = Inr es"
    "es \<noteq> [] \<Longrightarrow> last es = hd_LastSegment h"
  shows "linked xxh r h"
  using assms by (simp add: linked_def readable_def head_segments_eq[OF assms(3)] last_map)

lemma validateConfigHead_iff:
  "validateConfigHead c h = Inr () \<longleftrightarrow> hh_Partition (hd_Header h) = cf_Partition c
     \<and> hh_StreamKey (hd_Header h) = cf_StreamKey c \<and> hh_DataRootKey (hd_Header h) = cf_DataRootKey c
     \<and> hh_LeafLimit (hd_Header h) = cf_LeafLimit c \<and> hh_IndexLimit (hd_Header h) = cf_IndexLimit c
     \<and> hh_HashAlgo (hd_Header h) = cf_HashAlgo c \<and> hh_SegmentLayoutVersion (hd_Header h) = SegmentLayoutV1"
  by (auto simp: validateConfigHead_def Let_def)

lemma validateHead_fields_iff:
  "validateHead_fields h = Inr () \<longleftrightarrow> hh_Flags (hd_Header h) AND NOT FlagHasLastSegment = 0
     \<and> HashAlgo_Validate (hh_HashAlgo (hd_Header h)) = Inr () \<and> hh_SegmentLayoutVersion (hd_Header h) = SegmentLayoutV1
     \<and> hh_LeafLimit (hd_Header h) \<noteq> 0 \<and> hh_LeafLimit (hd_Header h) \<le> of_nat MaxLeafEntries
     \<and> 2 \<le> hh_IndexLimit (hd_Header h) \<and> hh_IndexLimit (hd_Header h) \<le> of_nat MaxIndexEntries
     \<and> length (hd_Active h) < unat (hh_LeafLimit (hd_Header h)) \<and> hh_ActiveCount (hd_Header h) = of_nat (length (hd_Active h))
     \<and> length (hd_Sections h) \<le> unat MaxOpenIndexLevel \<and> hh_LevelCount (hd_Header h) = of_nat (length (hd_Sections h))
     \<and> hh_OldestLSN (hd_Header h) \<le> hh_NextLSN (hd_Header h) \<and> hh_AppliedRetentionLSN (hd_Header h) \<le> hh_NextLSN (hd_Header h)
     \<and> (hh_AppliedRetentionVersion (hd_Header h) = 0 \<longrightarrow> hh_AppliedRetentionLSN (hd_Header h) = 0)
     \<and> (hh_WriterEpoch (hd_Header h) = 0) = (hh_WriterID (hd_Header h) = 0)
     \<and> hh_ReachableSegmentCount (hd_Header h) \<le> hh_SegmentCount (hd_Header h)
     \<and> hh_StreamKey (hd_Header h) \<noteq> 0 \<and> hh_DataRootKey (hd_Header h) \<noteq> 0"
proof -
  have if_res: "(if b then Inl x else y) = Inr () \<longleftrightarrow> \<not> b \<and> y = Inr ()" for b x and y :: "unit res" by simp
  have res: "\<not> hh_NextLSN (hd_Header h) > ReservedLSN" by (simp add: ReservedLSN_def not_less)
  show ?thesis
    unfolding validateHead_fields_def Let_def if_res de_Morgan_disj not_less not_le not_not de_Morgan_conj
    using res by (simp only: not_less simp_thms imp_conv_disj conj_ac)
qed


section \<open>The new head\<close>

lemma Append_linked:
  assumes "linked xxh r h" "Append xxh (rd_config r) h seg = Inr m" "extends r r'" "holds r' (mu_Pages m)"
  shows "linked xxh r' (mu_Head m)" "head_segments xxh r' (mu_Head m) = head_segments xxh r h @ [seg]"
    "segmentRef (rd_config r) (hd_LastSegment (mu_Head m)) = seg"
    "hh_NextLSN (hd_Header (mu_Head m)) = sr_LastLSN seg + 1"
    "hh_Generation (hd_Header (mu_Head m)) = hh_Generation (hd_Header h) + 1"
    "hh_WriterEpoch (hd_Header (mu_Head m)) = hh_WriterEpoch (hd_Header h)"
    "hh_WriterID (hd_Header (mu_Head m)) = hh_WriterID (hd_Header h)"
proof -
  let ?c = "rd_config r" and ?ep = "hh_WriterEpoch (hd_Header h)"
  have c: "rd_config r' = ?c" using assms(3) by (simp add: extends_def)
  obtain es where e: "validateHead h = Inr ()" "validateConfigHead ?c h = Inr ()"
      "head_leaves xxh r h = Inr es" "head_segments xxh r h = map (segmentRef ?c) es"
    using linkedE[OF assms(1)] by metis
  obtain entry nxt where a: "leafEntry ?c seg = Inr entry"
      "append_seal xxh ?c (append_entry h entry) = Inr (nxt, mu_Pages m)"
      "mu_Head m = nxt\<lparr>hd_Header := (hd_Header nxt)\<lparr>hh_LevelCount := of_nat (length (hd_Sections nxt))\<rparr>\<rparr>"
      "MarshalHead xxh (mu_Head m) = Inr (mu_HeadBody m)"
    using Append_Inr[OF assms(2)] by metis
  have seg: "segmentRef ?c entry = seg" using leafEntry_Inr(1)[OF a(1)] .
  have lsn: "le_LastLSN entry = sr_LastLSN seg" using seg by auto
  have act: "hd_Active (append_entry h entry) \<noteq> []" by simp
  note S = append_seal_spec[OF a(2) act]
  obtain n where n: "hd_Header nxt = (hd_Header (append_entry h entry))\<lparr>hh_ActiveCount := n\<rparr>" using S(2) by blast
  have hdr: "hh_WriterEpoch (hd_Header nxt) = ?ep" "hh_Generation (hd_Header nxt) = hh_Generation (hd_Header h) + 1"
    "hh_NextLSN (hd_Header nxt) = le_LastLSN entry + 1" "hh_WriterID (hd_Header nxt) = hh_WriterID (hd_Header h)"
    by (simp_all add: n)
  show last: "segmentRef ?c (hd_LastSegment (mu_Head m)) = seg" using S(1) a(3) seg by simp
  show "hh_NextLSN (hd_Header (mu_Head m)) = sr_LastLSN seg + 1"
    "hh_Generation (hd_Header (mu_Head m)) = hh_Generation (hd_Header h) + 1"
    "hh_WriterEpoch (hd_Header (mu_Head m)) = ?ep"
    "hh_WriterID (hd_Header (mu_Head m)) = hh_WriterID (hd_Header h)"
    using hdr lsn a(3) by simp_all
  obtain fs where fs: "expand xxh r ?ep (head_refs h) = Inr fs" "es = fs @ hd_Active h"
    using e(3) by (auto simp: head_leaves_expand)
  have "expand xxh r' ?ep (head_refs h) = Inr fs" using expand_mono[OF fs(1) assms(3) order_refl] .
  then have "expand xxh r' ?ep (head_refs (append_entry h entry)) = Inr fs" by (simp add: head_refs_def)
  then obtain gs where gs: "expand xxh r' ?ep (head_refs nxt) = Inr gs" "gs @ hd_Active nxt = fs @ hd_Active h @ [entry]"
    using S(5)[OF c assms(4), of fs] by auto
  have new: "head_leaves xxh r' (mu_Head m) = Inr (es @ [entry])"
    using gs hdr(1) fs(2) by (simp add: head_leaves_expand a(3) head_refs_def)
  then show segs: "head_segments xxh r' (mu_Head m) = head_segments xxh r h @ [seg]"
    using e(4) seg c by (simp add: head_segments_eq)
  have "validateConfigHead ?c (mu_Head m) = Inr ()"
    using e(2) by (simp add: validateConfigHead_iff a(3) n) (simp add: append_entry_def Let_def)
  moreover have "hd_LastSegment (mu_Head m) = entry" using S(1) a(3) by simp
  ultimately show "linked xxh r' (mu_Head m)"
    using linkedI[OF MarshalHead_valid[OF a(4)] _ new] c by simp
qed


section \<open>Accepted segments\<close>

lemma u64_succ: "x \<noteq> MaxUint64 \<Longrightarrow> unat (x + 1) = unat x + 1"
  using unat_succ_lsn[of x] by (simp add: le_MaxRecordLSN_iff ReservedLSN_def MaxUint64_def)

lemma u64_not_max: "x \<le> y \<Longrightarrow> y \<noteq> MaxUint64 \<Longrightarrow> x \<noteq> MaxUint64"
  unfolding MaxUint64_def by (metis bit.compl_zero word_order.extremum_uniqueI)

text \<open>The last root ends in time where the last segment does.\<close>

lemma last_root_time:
  assumes "linked xxh r h" "head_ranges h \<noteq> []"
  shows "rr_maxTS (last (head_ranges h)) = le_MaxTimestampMS (hd_LastSegment h)"
proof -
  obtain es where e: "validateHead h = Inr ()" "head_leaves xxh r h = Inr es" "es \<noteq> [] \<Longrightarrow> last es = hd_LastSegment h"
    using linkedE[OF assms(1)] by metis
  note V = validateHead_Inr[OF e(1)]
  show ?thesis
  proof (cases "hd_Active h = []")
    case True
    let ?refs = "head_refs h"
    obtain ess where l: "list_all2 (\<lambda>ref fs. leaves xxh r (hh_WriterEpoch (hd_Header h)) ref = Inr fs) ?refs ess" "es = concat ess"
      using e(2) True by (auto simp: head_leaves_expand expand_eq)
    have ne: "?refs \<noteq> []" "ess \<noteq> []" using assms(2) True l(1) by (auto simp: head_ranges_eq)
    have ft: "list_all2 (\<lambda>ref fs. fits (ref_range ref) fs) ?refs ess"
      using l(1) by (rule list_all2_mono) (rule leaves_fits)
    have fl: "fits (ref_range (last ?refs)) (last ess)"
      using list_all2_nthD[OF ft, of "length ?refs - 1"] ne list_all2_lengthD[OF ft] by (simp add: last_conv_nth)
    have nz: "\<forall>fs\<in>set ess. fs \<noteq> []"
      using ft by (auto simp: list_all2_conv_all_nth in_set_conv_nth fits_def)
    have "last es = last (last ess)" "es \<noteq> []" using hd_last_concat(2)[OF ne(2) nz] l(2) nz ne(2) by auto
    then show ?thesis using e(3) fl True ne(1) by (simp add: fits_def head_ranges_eq last_map)
  next
    case False
    have "HasLastSegment h" using V(7) assms(2) by blast
    then have "last (hd_Active h) = hd_LastSegment h"
      using V(10) False assms(2) by (simp add: head_tail_ok_def Let_def)
    then show ?thesis using False by (simp add: head_ranges_eq last_map leaf_range_def)
  qed
qed

definition counted :: "Head \<Rightarrow> Head" where
  "counted h = h\<lparr>hd_Header := (hd_Header h)\<lparr>hh_ActiveCount := of_nat (length (hd_Active h)),
     hh_LevelCount := of_nat (length (hd_Sections h))\<rparr>\<rparr>"

lemma append_entry_has: "HasLastSegment (append_entry h e)"
  by (simp add: append_entry_def Let_def HasLastSegment_def FlagHasLastSegment_def bit.conj_disj_distrib2)

lemma append_head_tail:
  assumes "linked xxh r h" "leaf_ok entry" "le_WriterEpoch entry = hh_WriterEpoch (hd_Header h)"
    and "le_BaseLSN entry = hh_NextLSN (hd_Header h)" "le_LastLSN entry \<noteq> MaxRecordLSN"
    and "HasLastSegment h \<Longrightarrow> sint (le_MaxTimestampMS (hd_LastSegment h)) \<le> sint (le_MinTimestampMS entry)"
    and "hh_SegmentCount (hd_Header h) \<noteq> MaxUint64"
  shows "head_tail_ok (counted (append_entry h entry))"
proof -
  let ?h = "counted (append_entry h entry)" and ?rs = "head_ranges h"
  obtain es where e: "validateHead h = Inr ()" using linkedE[OF assms(1)] by metis
  note V = validateHead_Inr[OF e] and T = validateHead_Inr(10)[OF e, unfolded head_tail_ok_def Let_def]
  have rs: "head_ranges ?h = ?rs @ [leaf_range entry]"
    by (simp add: counted_def head_ranges_def append_entry_def Let_def)
  have has: "HasLastSegment ?h"
    using append_entry_has[of h entry] by (simp add: counted_def HasLastSegment_def)
  have le: "hh_ReachableSegmentCount (hd_Header h) \<le> hh_SegmentCount (hd_Header h)"
    using V(11) by (auto simp: validateHead_fields_def Let_def split: if_splits)
  have rc: "hh_ReachableSegmentCount (hd_Header h) \<noteq> MaxUint64"
    using le assms(7) by (rule u64_not_max)
  have sc: "hh_SegmentCount (hd_Header h) + 1 \<noteq> 0"
    using u64_succ[OF assms(7)] by (metis add_is_0 unat_0 zero_neq_one)
  have nxt: "root_next (last ?rs) (leaf_range entry)" if ne: "?rs \<noteq> []"
  proof -
    have l: "HasLastSegment h" using V(7) ne by blast
    then have "rr_seqHi (last ?rs) = le_LastLSN (hd_LastSegment h)" "le_LastLSN (hd_LastSegment h) \<noteq> MaxRecordLSN"
      "le_LastLSN (hd_LastSegment h) + 1 = hh_NextLSN (hd_Header h)" using T ne by simp_all
    then show ?thesis using last_root_time[OF assms(1) ne] assms(4,6) l by (simp add: root_next_def leaf_range_def)
  qed
  have ch: "successively root_next ?rs" using T V(7) by (cases "HasLastSegment h") auto
  have chain: "successively root_next (?rs @ [leaf_range entry])"
    using ch nxt by (auto simp: successively_append_iff)
  have oldest: "rr_seqLo (hd (?rs @ [leaf_range entry])) = hh_OldestLSN (hd_Header ?h)"
    using T V(7) assms(4) by (cases "HasLastSegment h"; cases "?rs = []")
      (auto simp: counted_def append_entry_def Let_def leaf_range_def)
  have cnt: "unat (hh_ReachableSegmentCount (hd_Header ?h)) = range_count (?rs @ [leaf_range entry])"
    using V(4) u64_succ[OF rc] by (simp add: counted_def append_entry_def Let_def leaf_range_def)
  show ?thesis
    using has oldest chain cnt assms(2,3,5) sc
    by (simp add: head_tail_ok_def Let_def rs) (simp add: counted_def leaf_range_def)
qed


lemma append_head_valid:
  assumes "linked xxh r h" "leaf_ok entry" "le_WriterEpoch entry = hh_WriterEpoch (hd_Header h)"
    and "le_BaseLSN entry = hh_NextLSN (hd_Header h)" "le_LastLSN entry \<noteq> MaxRecordLSN"
    and "HasLastSegment h \<Longrightarrow> sint (le_MaxTimestampMS (hd_LastSegment h)) \<le> sint (le_MinTimestampMS entry)"
    and "hh_SegmentCount (hd_Header h) \<noteq> MaxUint64" "hh_Generation (hd_Header h) \<noteq> MaxUint64"
    and "length (hd_Active h) + 1 < unat (hh_LeafLimit (hd_Header h))"
  shows "validateHead (counted (append_entry h entry)) = Inr ()"
proof -
  let ?h = "counted (append_entry h entry)" and ?H = "hd_Header h" and ?H' = "hd_Header (counted (append_entry h entry))"
  obtain es where e: "validateHead h = Inr ()" using linkedE[OF assms(1)] by metis
  note V = validateHead_Inr[OF e] and O = leaf_okD[OF assms(2)]
  have up: "hh_NextLSN ?H \<le> le_LastLSN entry + 1" "hh_SegmentCount ?H < hh_SegmentCount ?H + 1"
      "hh_Generation ?H \<le> hh_Generation ?H + 1"
    using O(1,2) assms(4) unat_succ_lsn[of "le_LastLSN entry"] u64_succ[OF assms(7)] u64_succ[OF assms(8)]
    by (simp_all add: word_le_nat_alt word_less_nat_alt)
  note F = V(11)[unfolded validateHead_fields_iff]
  have le: "hh_OldestLSN ?H \<le> le_LastLSN entry + 1" "hh_AppliedRetentionLSN ?H \<le> le_LastLSN entry + 1"
      "hh_ReachableSegmentCount ?H \<le> hh_SegmentCount ?H"
    using F up(1) by (auto intro: order_trans)
  have same: "hh_HashAlgo ?H' = hh_HashAlgo ?H" "hh_SegmentLayoutVersion ?H' = hh_SegmentLayoutVersion ?H"
      "hh_LeafLimit ?H' = hh_LeafLimit ?H" "hh_IndexLimit ?H' = hh_IndexLimit ?H" "hh_WriterEpoch ?H' = hh_WriterEpoch ?H"
      "hh_AppliedRetentionLSN ?H' = hh_AppliedRetentionLSN ?H" "hh_AppliedRetentionVersion ?H' = hh_AppliedRetentionVersion ?H"
      "hh_WriterID ?H' = hh_WriterID ?H" "hh_StreamKey ?H' = hh_StreamKey ?H" "hh_DataRootKey ?H' = hh_DataRootKey ?H"
      "hh_Generation ?H' = hh_Generation ?H + 1" "hh_NextLSN ?H' = le_LastLSN entry + 1"
      "hh_SegmentCount ?H' = hh_SegmentCount ?H + 1" "hh_ReachableSegmentCount ?H' = hh_ReachableSegmentCount ?H + 1"
      "hh_ActiveCount ?H' = of_nat (length (hd_Active ?h))" "hh_LevelCount ?H' = of_nat (length (hd_Sections ?h))"
      "hd_Active ?h = hd_Active h @ [entry]" "hd_Sections ?h = hd_Sections h"
    by (simp_all add: counted_def append_entry_def Let_def)
  have flags: "hh_Flags ?H' AND NOT FlagHasLastSegment = 0"
    using F by (simp add: counted_def append_entry_def Let_def bit.conj_disj_distrib2)
  have oldest: "hh_OldestLSN ?H' \<le> hh_NextLSN ?H'"
    using le(1) up(1) assms(4) by (simp add: counted_def append_entry_def Let_def)
  have reach: "hh_ReachableSegmentCount ?H + 1 \<le> hh_SegmentCount ?H + 1"
    using le(3) u64_succ[OF u64_not_max[OF le(3) assms(7)]] u64_succ[OF assms(7)] by (simp add: word_le_nat_alt)
  have fields: "validateHead_fields ?h = Inr ()"
    using F flags oldest reach assms(9) le(2) unfolding validateHead_fields_iff same by simp
  have sec: "sections_ok ?h"
    using V(8) up(3) by (fastforce simp: sections_ok_def section_ok_def section_ref_def same list_all_iff)
  have la: "hd_Active h \<noteq> [] \<Longrightarrow> le_WriterEpoch (last (hd_Active h)) \<le> hh_WriterEpoch ?H"
    using V(9) last_in_set[of "hd_Active h"] unfolding active_ok_def list_all_iff by blast
  have act: "active_ok ?h"
    using V(9) assms(2,3) by (cases "hd_Active h = []") (auto simp: la active_ok_def same successively_append_iff epoch_le_def list_all_iff)
  show ?thesis using fields sec act append_head_tail[OF assms(1-7)] by (simp add: validateHead_iff)
qed


lemma leafEntry_iff:
  "(\<exists>e. leafEntry c seg = Inr e) \<longleftrightarrow> seg_ok seg \<and> sr_StreamID seg = cf_StreamID c \<and> sr_Partition seg = cf_Partition c
     \<and> sr_WriterTag seg \<noteq> 0
     \<and> sr_URI seg = SegmentObjectKey (cf_DataRoot c) (cf_StreamID c) (cf_Partition c) (sr_BaseLSN seg)
          (sr_WriterEpoch seg) (sr_SegmentUUID seg)"
  by (auto simp: leafEntry_def Let_def SegmentURI_def)

text \<open>When the leaf stays open, the accepted append only adds the entry to the active leaves.\<close>

lemma append_seal_open:
  assumes "length (hd_Active h) + 1 < unat (cf_LeafLimit c)"
  shows "append_seal xxh c (append_entry h e)
    = Inr ((append_entry h e)\<lparr>hd_Header := (hd_Header (append_entry h e))\<lparr>hh_ActiveCount := of_nat (length (hd_Active h) + 1)\<rparr>\<rparr>, [])"
proof -
  have "unat (of_nat (length (hd_Active h) + 1) :: u32) = length (hd_Active h) + 1"
    using assms unat_u32_less[of "cf_LeafLimit c"] by (simp add: unsigned_of_nat take_bit_nat_eq_self del: of_nat_add of_nat_Suc)
  then have "(of_nat (length (hd_Active h) + 1) :: u32) \<noteq> cf_LeafLimit c" using assms by auto
  then show ?thesis by (simp add: append_seal_def)
qed

lemma counted_eq:
  "(let n = (append_entry h e)\<lparr>hd_Header := (hd_Header (append_entry h e))\<lparr>hh_ActiveCount := of_nat (length (hd_Active h) + 1)\<rparr>\<rparr>
    in n\<lparr>hd_Header := (hd_Header n)\<lparr>hh_LevelCount := of_nat (length (hd_Sections n))\<rparr>\<rparr>) = counted (append_entry h e)"
  by (simp add: counted_def)

lemma MarshalHead_Inr: "validateHead h = Inr () \<Longrightarrow> \<exists>body. MarshalHead xxh h = Inr body"
proof -
  assume v: "validateHead h = Inr ()"
  then have "HashAlgo_Validate (hh_HashAlgo (hd_Header h)) = Inr ()"
    using validateHead_Inr(11)[OF v] by (auto simp: validateHead_fields_def Let_def split: if_splits)
  then show ?thesis using v
    by (auto simp: MarshalHead_def appendTrailer_def validateHashAlgo_def HashBytes_def HashAlgo_Validate_def Let_def split: if_splits)
qed

lemma Append_open:
  assumes "linked xxh r h" "c = rd_config r" "length (hd_Active h) + 1 < unat (cf_LeafLimit c)"
    and "leafEntry c seg = Inr entry"
    and "hh_WriterEpoch (hd_Header h) \<noteq> 0" "sr_WriterEpoch seg = hh_WriterEpoch (hd_Header h)"
    and "sr_WriterTag seg = hh_WriterID (hd_Header h)" "sr_BaseLSN seg = hh_NextLSN (hd_Header h)"
    and "HasLastSegment h \<Longrightarrow> sint (le_MaxTimestampMS (hd_LastSegment h)) \<le> sint (sr_MinTimestampMS seg)"
    and "sr_LastLSN seg \<noteq> MaxRecordLSN" "hh_Generation (hd_Header h) \<noteq> MaxUint64" "hh_SegmentCount (hd_Header h) \<noteq> MaxUint64"
  obtains body where "Append xxh c h seg = Inr \<lparr>mu_Head = counted (append_entry h entry), mu_HeadBody = body, mu_Pages = []\<rparr>"
proof -
  have s: "seg = segmentRef c entry" and ok: "leaf_ok entry" using leafEntry_Inr[OF assms(4)] by auto
  have f: "le_WriterEpoch entry = sr_WriterEpoch seg" "le_WriterTag entry = sr_WriterTag seg"
    "le_BaseLSN entry = sr_BaseLSN seg" "le_LastLSN entry = sr_LastLSN seg" "le_MinTimestampMS entry = sr_MinTimestampMS seg"
    unfolding s by (simp_all add: segmentRef_def)
  have cfg: "validateConfigHead c h = Inr ()" "hh_LeafLimit (hd_Header h) = cf_LeafLimit c"
    using linkedE[OF assms(1)] assms(2) validateConfigHead_iff by metis+
  have "validateHead (counted (append_entry h entry)) = Inr ()"
    using assms f cfg(2) by (intro append_head_valid[OF assms(1) ok]) simp_all
  then obtain body where "MarshalHead xxh (counted (append_entry h entry)) = Inr body" using MarshalHead_Inr by blast
  then have "Append xxh c h seg = Inr \<lparr>mu_Head = counted (append_entry h entry), mu_HeadBody = body, mu_Pages = []\<rparr>"
    using assms(4-12) f cfg(1) append_seal_open[OF assms(3), of xxh entry] counted_eq[of h entry]
    by (auto simp: Append_def Let_def)
  then show thesis by (rule that)
qed


text \<open>A head below which an append starts: no segment yet, one writer.\<close>

definition sample_head0 :: Head where
  "sample_head0 = fresh_head sample_config 100
     \<lparr>hd_Header := (hd_Header (fresh_head sample_config 100))\<lparr>hh_WriterEpoch := 1, hh_WriterID := 9, hh_Generation := 1\<rparr>\<rparr>"

lemma sample_head0_valid:
  "validateHead sample_head0 = Inr ()" "validateConfigHead sample_config sample_head0 = Inr ()" "leaf_ok sample_leaf"
  by code_simp+

lemma sample_head0_linked: "linked xxh sample_reader sample_head0"
proof (rule linkedI)
  show "head_leaves xxh sample_reader sample_head0 = Inr []"
    by (simp add: head_leaves_def head_refs_def sample_head0_def fresh_head_def)
qed (use sample_head0_valid in \<open>simp_all add: sample_reader_def\<close>)

lemma sample_append:
  obtains body where "Append xxh sample_config sample_head0 (segmentRef sample_config sample_leaf)
    = Inr \<lparr>mu_Head = counted (append_entry sample_head0 sample_leaf), mu_HeadBody = body, mu_Pages = []\<rparr>"
proof (rule Append_open[OF sample_head0_linked _ _ leafEntry_segmentRef[OF sample_head0_valid(3)]])
  show "sample_config = rd_config sample_reader" by (simp add: sample_reader_def)
  show "length (hd_Active sample_head0) + 1 < unat (cf_LeafLimit sample_config)"
    by (simp add: sample_head0_def fresh_head_def) (simp add: sample_config_def)
  show "HasLastSegment sample_head0 \<Longrightarrow> sint (le_MaxTimestampMS (hd_LastSegment sample_head0))
      \<le> sint (sr_MinTimestampMS (segmentRef sample_config sample_leaf))"
    by (simp add: HasLastSegment_def sample_head0_def fresh_head_def)
qed (simp_all add: segmentRef_def sample_head0_def fresh_head_def sample_leaf_def MaxRecordLSN_def ReservedLSN_def MaxUint64_def)


section \<open>Properties\<close>

text \<open>C22: an append to the paged catalog is an append to the list of segments. If it succeeds on a head
  that can be read, then in every store that keeps the old objects and holds the pages it returned,
  the new head is valid, can be read and stands for the old list with the segment at its end; the
  generation is one higher and the writer is the same.\<close>

theorem Append_appends_segment:
  assumes "linked xxh r h" "Append xxh (rd_config r) h seg = Inr m" "extends r r'" "holds r' (mu_Pages m)"
  shows "linked xxh r' (mu_Head m) \<and> head_segments xxh r' (mu_Head m) = head_segments xxh r h @ [seg]
    \<and> hh_Generation (hd_Header (mu_Head m)) = hh_Generation (hd_Header h) + 1
    \<and> hh_WriterEpoch (hd_Header (mu_Head m)) = hh_WriterEpoch (hd_Header h)
    \<and> hh_WriterID (hd_Header (mu_Head m)) = hh_WriterID (hd_Header h)
    \<and> ParseHead xxh (mu_HeadBody m) = Inr (mu_Head m)"
  using Append_linked[OF assms] Append_Inr[OF assms(2)] ParseHead_Marshal by metis

theorem Append_appends_segment_witness:
  "head_segments (\<lambda>_. 0) sample_reader (counted (append_entry sample_head0 sample_leaf))
     = [segmentRef sample_config sample_leaf]"
proof -
  obtain body where a: "Append (\<lambda>_. 0) (rd_config sample_reader) sample_head0 (segmentRef sample_config sample_leaf)
      = Inr \<lparr>mu_Head = counted (append_entry sample_head0 sample_leaf), mu_HeadBody = body, mu_Pages = []\<rparr>"
    using sample_append[of "\<lambda>_. 0"] by (auto simp: sample_reader_def)
  have "head_segments (\<lambda>_. 0) sample_reader sample_head0 = []"
    by (simp add: head_segments_def head_leaves_def head_refs_def sample_head0_def fresh_head_def)
  then show ?thesis using Append_appends_segment[OF sample_head0_linked a extends_refl] by simp
qed

text \<open>C23: while the open leaf has room, an append succeeds exactly for the segments that a writer may
  commit: valid, of this stream and partition, under the key the layout gives it, written under the
  head's fence and writer identity, starting at the next log sequence number, not before the last
  segment in time, and leaving room for one more number; no generation or segment counter may be
  exhausted. Every other segment is refused.\<close>

theorem Append_accepts:
  assumes "linked xxh r h" "c = rd_config r" "length (hd_Active h) + 1 < unat (cf_LeafLimit c)"
  shows "(\<exists>m. Append xxh c h seg = Inr m) \<longleftrightarrow>
    seg_ok seg \<and> sr_StreamID seg = cf_StreamID c \<and> sr_Partition seg = cf_Partition c \<and> sr_WriterTag seg \<noteq> 0
    \<and> sr_URI seg = SegmentObjectKey (cf_DataRoot c) (cf_StreamID c) (cf_Partition c) (sr_BaseLSN seg)
         (sr_WriterEpoch seg) (sr_SegmentUUID seg)
    \<and> hh_WriterEpoch (hd_Header h) \<noteq> 0 \<and> sr_WriterEpoch seg = hh_WriterEpoch (hd_Header h)
    \<and> sr_WriterTag seg = hh_WriterID (hd_Header h) \<and> sr_BaseLSN seg = hh_NextLSN (hd_Header h)
    \<and> (HasLastSegment h \<longrightarrow> sint (le_MaxTimestampMS (hd_LastSegment h)) \<le> sint (sr_MinTimestampMS seg))
    \<and> sr_LastLSN seg \<noteq> MaxRecordLSN
    \<and> hh_Generation (hd_Header h) \<noteq> MaxUint64 \<and> hh_SegmentCount (hd_Header h) \<noteq> MaxUint64"
    (is "?L \<longleftrightarrow> ?R")
proof
  assume ?L
  then obtain m where m: "Append xxh c h seg = Inr m" by blast
  show ?R using m
  proof (rule Append_Inr)
    fix entry nxt
    assume a: "leafEntry c seg = Inr entry" "hh_Generation (hd_Header h) \<noteq> MaxUint64" "hh_WriterEpoch (hd_Header h) \<noteq> 0"
      "sr_WriterEpoch seg = hh_WriterEpoch (hd_Header h)" "sr_WriterTag seg = hh_WriterID (hd_Header h)"
      "sr_BaseLSN seg = hh_NextLSN (hd_Header h)"
      "HasLastSegment h \<Longrightarrow> sint (le_MaxTimestampMS (hd_LastSegment h)) \<le> sint (sr_MinTimestampMS seg)"
      "append_seal xxh c (append_entry h entry) = Inr (nxt, mu_Pages m)"
      "mu_Head m = nxt\<lparr>hd_Header := (hd_Header nxt)\<lparr>hh_LevelCount := of_nat (length (hd_Sections nxt))\<rparr>\<rparr>"
      "MarshalHead xxh (mu_Head m) = Inr (mu_HeadBody m)"
    have hd: "mu_Head m = counted (append_entry h entry)"
      using a(8,9) append_seal_open[OF assms(3), of xxh entry] counted_eq[of h entry] by (auto simp: Let_def)
    note T = validateHead_Inr(10)[OF MarshalHead_valid[OF a(10)], unfolded hd head_tail_ok_def Let_def]
    have "HasLastSegment (counted (append_entry h entry))"
      using append_entry_has[of h entry] by (simp add: counted_def HasLastSegment_def)
    with T have "le_LastLSN entry \<noteq> MaxRecordLSN" "hh_SegmentCount (hd_Header h) + 1 \<noteq> 0"
      by (simp_all add: counted_def)
    moreover have "le_LastLSN entry = sr_LastLSN seg" using leafEntry_Inr(1)[OF a(1)] by auto
    ultimately have "sr_LastLSN seg \<noteq> MaxRecordLSN" "hh_SegmentCount (hd_Header h) \<noteq> MaxUint64"
      by (auto simp: MaxUint64_def)
    then show ?R using a(2-7) leafEntry_iff[of c seg, THEN iffD1, OF exI, OF a(1)] by simp
  qed
next
  assume R: ?R
  then obtain entry where e: "leafEntry c seg = Inr entry" using leafEntry_iff[of c seg] by blast
  show ?L by (rule Append_open[OF assms e]) (use R in auto)
qed

theorem Append_accepts_witness:
  "\<exists>m. Append (\<lambda>_. 0) sample_config sample_head0 (segmentRef sample_config sample_leaf) = Inr m"
proof -
  have "segmentRef sample_config sample_leaf = segmentRef (rd_config sample_reader) sample_leaf"
    by (simp add: sample_reader_def)
  have c: "sample_config = rd_config sample_reader" by (simp add: sample_reader_def)
  have room: "length (hd_Active sample_head0) + 1 < unat (cf_LeafLimit sample_config)"
    by (simp add: sample_head0_def fresh_head_def) (simp add: sample_config_def)
  have has: "\<not> HasLastSegment sample_head0"
    by (simp add: HasLastSegment_def sample_head0_def fresh_head_def)
  show ?thesis
    using Append_accepts[OF sample_head0_linked c room, of "\<lambda>_. 0" "segmentRef sample_config sample_leaf"]
      segmentRef_valid[OF sample_head0_valid(3), of sample_config] has
    by (simp add: segmentRef_def SegmentURI_def)
      (simp add: sample_head0_def fresh_head_def sample_leaf_def MaxRecordLSN_def ReservedLSN_def MaxUint64_def)
qed


lemma page_below_generation:
  "page_below xxh r ep ref ref' \<Longrightarrow> ie_Generation ref' \<le> ie_Generation ref"
proof (induction rule: page_below.induct)
  case (child ref ep page child ref')
  note V = loadIndex_Inr(1,2)[OF child(2)]
  have "ie_Generation child \<le> ph_Generation (xp_Header page)"
    using V(1) child(3) by (auto simp: validateIndexPage_def Let_def validateIndexPage_loop_iff list_all_iff split: if_splits)
  then show ?case using V(2) child(5) by (simp add: matchesPageRef_def)
qed simp

lemma PagePath_generation:
  assumes "ie_Level a \<le> MaxIndexLevel" "ie_Level b \<le> MaxIndexLevel" "PagePath c a = PagePath c b"
  shows "ie_Generation a = ie_Generation b"
  using assms(3) IndexPagePath_inject[OF assms(1,2), of c] PagePath_kinds[OF assms(1), of c b] PagePath_kinds[OF assms(2), of c a]
  by (auto simp: PagePath_def LeafPagePath_inject split: if_splits)

lemma fresh_generation:
  assumes "validateHead h = Inr ()" "hh_Generation (hd_Header h) \<noteq> MaxUint64" "head_reaches xxh r h ref"
    and "ie_Level a \<le> MaxIndexLevel" "ie_Generation a = hh_Generation (hd_Header h) + 1"
  shows "PagePath c a \<noteq> PagePath c ref"
proof
  assume eq: "PagePath c a = PagePath c ref"
  obtain root where root: "root \<in> set (head_refs h)" "page_below xxh r (hh_WriterEpoch (hd_Header h)) root ref"
    using assms(3) by (auto simp: head_reaches_def)
  have ok: "ref_ok root" "ie_Generation root \<le> hh_Generation (hd_Header h)"
    using sections_ok_refs[OF validateHead_Inr(8)[OF assms(1)] root(1)] by auto
  have "ie_Generation ref = ie_Generation a"
    using PagePath_generation[OF assms(4) _ eq] page_below_within[OF root(2) ok(1)] ref_okD(3) by auto
  then have "hh_Generation (hd_Header h) + 1 \<le> hh_Generation (hd_Header h)"
    using page_below_generation[OF root(2)] ok(2) assms(5) by auto
  then show False using u64_succ[OF assms(2)] by (simp add: word_le_nat_alt)
qed

text \<open>C24: an append writes at most 64 pages, each under the key of its reference and in the next
  generation, so it never writes over a page that the old head reaches: readers of the old head are
  not disturbed by an append that is still under way.\<close>

theorem Append_pages_fresh:
  assumes "validateHead h = Inr ()" "Append xxh c h seg = Inr m"
  shows "length (mu_Pages m) \<le> 64
    \<and> (\<forall>p\<in>set (mu_Pages m). po_Key p = PagePath c (po_Ref p)
         \<and> ie_Generation (po_Ref p) = hh_Generation (hd_Header h) + 1
         \<and> (\<forall>r ref. head_reaches xxh r h ref \<longrightarrow> po_Key p \<noteq> PagePath c ref))"
  using assms(2)
proof (rule Append_Inr)
  fix entry nxt
  assume gen: "hh_Generation (hd_Header h) \<noteq> MaxUint64" and sl: "append_seal xxh c (append_entry h entry) = Inr (nxt, mu_Pages m)"
  have act: "hd_Active (append_entry h entry) \<noteq> []" by simp
  note S = append_seal_spec(3,4)[OF sl act]
  show ?thesis
  proof (intro conjI ballI allI impI)
    show "length (mu_Pages m) \<le> 64" by (rule S(1))
    fix p assume p: "p \<in> set (mu_Pages m)"
    show k: "po_Key p = PagePath c (po_Ref p)" and g: "ie_Generation (po_Ref p) = hh_Generation (hd_Header h) + 1"
      using S(2)[OF p] by auto
    fix r ref assume "head_reaches xxh r h ref"
    then show "po_Key p \<noteq> PagePath c ref" using fresh_generation[OF assms(1) gen _ _ g] S(2)[OF p] k by metis
  qed
qed

theorem Append_pages_fresh_witness:
  "\<exists>m. Append (\<lambda>_. 0) sample_config sample_head0 (segmentRef sample_config sample_leaf) = Inr m \<and> length (mu_Pages m) \<le> 64"
  using sample_append[of "\<lambda>_. 0"] Append_pages_fresh[OF sample_head0_valid(1)] by metis

text \<open>The last log sequence number of a partition cannot be committed to the paged catalog: whatever
  the head, the append of a segment that ends at the highest record number fails, although the
  segment is valid and a head may name the reserved number as its next one.\<close>

lemma Append_refuses_last_lsn:
  assumes "sr_LastLSN seg = MaxRecordLSN"
  shows "\<exists>err. Append xxh c h seg = Inl err"
proof (cases "Append xxh c h seg")
  case (Inr m)
  then have False
  proof (rule Append_Inr)
    fix entry nxt
    assume a: "leafEntry c seg = Inr entry" "append_seal xxh c (append_entry h entry) = Inr (nxt, mu_Pages m)"
      "mu_Head m = nxt\<lparr>hd_Header := (hd_Header nxt)\<lparr>hh_LevelCount := of_nat (length (hd_Sections nxt))\<rparr>\<rparr>"
      "MarshalHead xxh (mu_Head m) = Inr (mu_HeadBody m)"
    have act: "hd_Active (append_entry h entry) \<noteq> []" by simp
    note S = append_seal_spec(1,2)[OF a(2) act]
    have "HasLastSegment (mu_Head m)" "hd_LastSegment (mu_Head m) = entry"
      using S append_entry_has[of h entry] by (auto simp: a(3) HasLastSegment_def)
    then have "le_LastLSN entry \<noteq> MaxRecordLSN" using validateHead_Inr(6)[OF MarshalHead_valid[OF a(4)]] by auto
    then show False using leafEntry_Inr(1)[OF a(1)] assms by auto
  qed
  then show ?thesis ..
qed blast

end
