(* ===== verification/Cat_Takeover.thy ===== *)
theory Cat_Takeover
  imports Cat_Append
begin

text \<open>
  Fresh heads and takeover (\<^verbatim>\<open>NewHead\<close> and \<^verbatim>\<open>Takeover\<close> of
  \<^verbatim>\<open>catengine/tree.go\<close>): a new partition is readable and empty; a takeover keeps the
  segments and shuts out every writer of an earlier epoch.
\<close>

definition taken_over :: "Head \<Rightarrow> bytes16 \<Rightarrow> Head" where
  "taken_over h w = h\<lparr>hd_Header := (hd_Header h)\<lparr>hh_WriterEpoch := hh_WriterEpoch (hd_Header h) + 1,
     hh_Generation := hh_Generation (hd_Header h) + 1, hh_WriterID := w\<rparr>\<rparr>"

lemma taken_over_valid:
  assumes "validateHead h = Inr ()" "w \<noteq> 0" "hh_WriterEpoch (hd_Header h) \<noteq> MaxUint64" "hh_Generation (hd_Header h) \<noteq> MaxUint64"
  shows "validateHead (taken_over h w) = Inr ()"
proof -
  let ?h = "taken_over h w"
  note V = validateHead_Inr[OF assms(1)]
  have ep: "hh_WriterEpoch (hd_Header h) \<le> hh_WriterEpoch (hd_Header h) + 1" "hh_WriterEpoch (hd_Header h) + 1 \<noteq> 0"
    "hh_Generation (hd_Header h) \<le> hh_Generation (hd_Header h) + 1"
    using u64_succ[OF assms(3)] u64_succ[OF assms(4)] by (auto simp: word_le_nat_alt word_unat_eq_iff)
  have "validateHead_fields ?h = Inr ()"
    using V(11) ep(2) assms(2) by (simp add: validateHead_fields_iff taken_over_def)
  moreover have "sections_ok ?h"
    using V(8) order_trans[OF _ ep(3)] by (fastforce simp: taken_over_def sections_ok_def section_ok_def section_ref_def list_all_iff)
  moreover have "active_ok ?h"
    using V(9) order_trans[OF _ ep(1)] by (auto simp: taken_over_def active_ok_def list_all_iff)
  moreover have "head_tail_ok ?h"
    using V(10) order_trans[OF _ ep(1)]
    by (auto simp: taken_over_def head_tail_ok_def Let_def HasLastSegment_def head_ranges_def split: if_splits)
  ultimately show ?thesis by (simp add: validateHead_iff)
qed

lemma Takeover_eq:
  "Takeover xxh c h w =
     (if w = 0 then Inl [ErrInvalidRequest]
      else bindE (validateConfigHead c h) (\<lambda>_.
        if hh_WriterEpoch (hd_Header h) = MaxUint64 then Inl [ErrFenceExhausted]
        else if hh_Generation (hd_Header h) = MaxUint64 then Inl [ErrGenerationExhausted]
        else bindE (MarshalHead xxh (taken_over h w)) (\<lambda>body.
          Inr \<lparr>mu_Head = taken_over h w, mu_HeadBody = body, mu_Pages = []\<rparr>)))"
  by (simp add: Takeover_def taken_over_def Let_def)

lemma taken_over_linked:
  assumes "linked xxh r h" "validateHead (taken_over h w) = Inr ()" "hh_WriterEpoch (hd_Header h) \<noteq> MaxUint64"
  shows "linked xxh r (taken_over h w)" "head_segments xxh r (taken_over h w) = head_segments xxh r h"
proof -
  obtain es where e: "validateConfigHead (rd_config r) h = Inr ()" "head_leaves xxh r h = Inr es"
      "head_segments xxh r h = map (segmentRef (rd_config r)) es" "es \<noteq> [] \<Longrightarrow> last es = hd_LastSegment h"
    using linkedE[OF assms(1)] by metis
  have up: "hh_WriterEpoch (hd_Header h) \<le> hh_WriterEpoch (hd_Header h) + 1"
    using u64_succ[OF assms(3)] by (simp add: word_le_nat_alt)
  obtain fs where fs: "expand xxh r (hh_WriterEpoch (hd_Header h)) (head_refs h) = Inr fs" "es = fs @ hd_Active h"
    using e(2) by (auto simp: head_leaves_expand)
  have new: "head_leaves xxh r (taken_over h w) = Inr es"
    using expand_mono[OF fs(1) extends_refl up] fs(2) by (simp add: head_leaves_expand taken_over_def head_refs_def)
  then show "head_segments xxh r (taken_over h w) = head_segments xxh r h" using e(3) by (simp add: head_segments_eq)
  have "validateConfigHead (rd_config r) (taken_over h w) = Inr ()"
    using e(1) by (simp add: validateConfigHead_iff taken_over_def)
  then show "linked xxh r (taken_over h w)"
    using linkedI[OF assms(2) _ new] e(4) by (simp add: taken_over_def)
qed


section \<open>Properties\<close>

text \<open>C25: a takeover succeeds exactly when the new writer has an identity and neither the fence nor the
  generation is exhausted. It keeps every segment, writes no page, raises the fence by one, and from
  then on the append of a segment written under the old fence or an earlier one is refused as stale.\<close>

theorem Takeover_fences:
  assumes "linked xxh r h" "c = rd_config r"
  shows "((\<exists>m. Takeover xxh c h w = Inr m) \<longleftrightarrow>
      w \<noteq> 0 \<and> hh_WriterEpoch (hd_Header h) \<noteq> MaxUint64 \<and> hh_Generation (hd_Header h) \<noteq> MaxUint64)
    \<and> (Takeover xxh c h w = Inr m \<longrightarrow>
        linked xxh r (mu_Head m) \<and> head_segments xxh r (mu_Head m) = head_segments xxh r h \<and> mu_Pages m = []
        \<and> unat (hh_WriterEpoch (hd_Header (mu_Head m))) = unat (hh_WriterEpoch (hd_Header h)) + 1
        \<and> (\<forall>seg. sr_WriterEpoch seg \<le> hh_WriterEpoch (hd_Header h) \<longrightarrow>
             (\<nexists>m'. Append xxh c (mu_Head m) seg = Inr m')
             \<and> (leafEntry c seg = Inr e \<and> hh_Generation (hd_Header (mu_Head m)) \<noteq> MaxUint64 \<longrightarrow>
                  Append xxh c (mu_Head m) seg = Inl [ErrStaleWriter])))"
proof -
  obtain es where v: "validateHead h = Inr ()" "validateConfigHead c h = Inr ()"
    using linkedE[OF assms(1)] assms(2) by metis
  have valid: "validateHead (taken_over h w) = Inr ()"
    if "w \<noteq> 0" "hh_WriterEpoch (hd_Header h) \<noteq> MaxUint64" "hh_Generation (hd_Header h) \<noteq> MaxUint64"
    using taken_over_valid[OF v(1) that] .
  have ex: "(\<exists>m. Takeover xxh c h w = Inr m) \<longleftrightarrow>
      w \<noteq> 0 \<and> hh_WriterEpoch (hd_Header h) \<noteq> MaxUint64 \<and> hh_Generation (hd_Header h) \<noteq> MaxUint64"
    using valid MarshalHead_Inr[of "taken_over h w" xxh] v(2) by (auto simp: Takeover_eq)
  have post: "linked xxh r (mu_Head m) \<and> head_segments xxh r (mu_Head m) = head_segments xxh r h \<and> mu_Pages m = []
      \<and> unat (hh_WriterEpoch (hd_Header (mu_Head m))) = unat (hh_WriterEpoch (hd_Header h)) + 1"
    and hd: "mu_Head m = taken_over h w" if t: "Takeover xxh c h w = Inr m"
  proof -
    have ne: "w \<noteq> 0" "hh_WriterEpoch (hd_Header h) \<noteq> MaxUint64" "hh_Generation (hd_Header h) \<noteq> MaxUint64"
      using t ex by auto
    show m: "mu_Head m = taken_over h w" using t ne v(2) by (auto simp: Takeover_eq)
    have "mu_Pages m = []" using t ne v(2) by (auto simp: Takeover_eq)
    then show "linked xxh r (mu_Head m) \<and> head_segments xxh r (mu_Head m) = head_segments xxh r h \<and> mu_Pages m = []
      \<and> unat (hh_WriterEpoch (hd_Header (mu_Head m))) = unat (hh_WriterEpoch (hd_Header h)) + 1"
      using taken_over_linked[OF assms(1) valid[OF ne] ne(2)] u64_succ[OF ne(2)] by (simp add: m) (simp add: taken_over_def)
  qed
  have stale: "Append xxh c (mu_Head m) seg = Inl [ErrStaleWriter]"
    if "Takeover xxh c h w = Inr m" "sr_WriterEpoch seg \<le> hh_WriterEpoch (hd_Header h)"
      "leafEntry c seg = Inr e'" "hh_Generation (hd_Header (mu_Head m)) \<noteq> MaxUint64" for seg e'
  proof -
    have "le_WriterEpoch e' = sr_WriterEpoch seg" using leafEntry_Inr(1)[OF that(3)] by (auto simp: segmentRef_def)
    then have "le_WriterEpoch e' \<noteq> hh_WriterEpoch (hd_Header (mu_Head m))"
      using post[OF that(1)] that(2) by (auto simp: word_le_nat_alt)
    moreover have "validateConfigHead c (mu_Head m) = Inr ()"
      using v(2) hd[OF that(1)] by (simp add: validateConfigHead_iff taken_over_def)
    ultimately show ?thesis using that(3,4) by (simp add: Append_def)
  qed
  have "\<nexists>m'. Append xxh c (mu_Head m) seg = Inr m'"
    if "Takeover xxh c h w = Inr m" "sr_WriterEpoch seg \<le> hh_WriterEpoch (hd_Header h)" for seg
    using stale[OF that] Append_Inr[of xxh c "mu_Head m" seg] by (metis sum.distinct(1))
  then show ?thesis using ex post stale by blast
qed

theorem Takeover_fences_witness:
  "\<exists>m. Takeover (\<lambda>_. 0) sample_config sample_head1 4 = Inr m
     \<and> head_segments (\<lambda>_. 0) sample_reader (mu_Head m) = [segmentRef sample_config sample_leaf]"
proof -
  have c: "sample_config = rd_config sample_reader" by (simp add: sample_reader_def)
  have l: "linked (\<lambda>_. 0) sample_reader sample_head1"
    using sample_head1_valid c by (intro linkedI[OF _ _ sample_head1_leaves]) (simp_all add: sample_head1_def)
  have ne: "hh_WriterEpoch (hd_Header sample_head1) \<noteq> MaxUint64" "hh_Generation (hd_Header sample_head1) \<noteq> MaxUint64"
    by code_simp+
  note T = Takeover_fences[OF l c, of 4]
  have "(4 :: bytes16) \<noteq> 0" by simp
  then obtain m where "Takeover (\<lambda>_. 0) sample_config sample_head1 4 = Inr m" using T ne by blast
  then show ?thesis using T[of m] sample_head1_segments by auto
qed

text \<open>C26: for a configuration within the limits that its constructor enforces, a partition can be created
  at every start number but the reserved one; the new head is valid for the configuration, holds no
  segment, starts and ends at that number and has no writer.\<close>

theorem NewHead_empty:
  assumes "cf_LeafLimit c \<noteq> 0" "cf_LeafLimit c \<le> of_nat MaxLeafEntries" "2 \<le> cf_IndexLimit c"
    and "cf_IndexLimit c \<le> of_nat MaxIndexEntries" "HashAlgo_Validate (cf_HashAlgo c) = Inr ()"
    and "cf_StreamKey c \<noteq> 0" "cf_DataRootKey c \<noteq> 0"
  shows "if n = ReservedLSN then NewHead xxh c n = Inl [ErrInvalidRequest]
    else \<exists>h body. NewHead xxh c n = Inr (h, body) \<and> ParseHead xxh body = Inr h
      \<and> linked xxh \<lparr>rd_config = c, rd_pages = src\<rparr> h \<and> head_segments xxh \<lparr>rd_config = c, rd_pages = src\<rparr> h = []
      \<and> hh_OldestLSN (hd_Header h) = n \<and> hh_NextLSN (hd_Header h) = n \<and> hh_WriterEpoch (hd_Header h) = 0"
proof (cases "n = ReservedLSN")
  case False
  let ?h = "fresh_head c n" and ?r = "\<lparr>rd_config = c, rd_pages = src\<rparr>"
  have "0 < unat (cf_LeafLimit c)" using assms(1) by (simp add: unat_gt_0)
  then have "validateHead_fields ?h = Inr ()"
    using assms by (simp add: validateHead_fields_iff fresh_head_def)
  then have v: "validateHead ?h = Inr ()"
    by (simp add: validateHead_iff sections_ok_def active_ok_def head_tail_ok_def HasLastSegment_def head_ranges_def fresh_head_def)
  obtain body where b: "MarshalHead xxh ?h = Inr body" using MarshalHead_Inr[OF v] by blast
  have l: "head_leaves xxh ?r ?h = Inr []" by (simp add: head_leaves_def head_refs_def fresh_head_def)
  have "validateConfigHead (rd_config ?r) ?h = Inr ()" by (simp add: validateConfigHead_iff fresh_head_def)
  then have "linked xxh ?r ?h" using linkedI[OF v _ l] by simp
  moreover have "NewHead xxh c n = Inr (?h, body)" using False b by (simp add: NewHead_def)
  moreover have "ParseHead xxh body = Inr ?h" using ParseHead_Marshal[OF b] .
  ultimately show ?thesis using False head_segments_eq[OF l] by (auto simp: fresh_head_def)
qed (simp add: NewHead_def)

theorem NewHead_empty_witness:
  "\<exists>h body. NewHead (\<lambda>_. 0) sample_config 100 = Inr (h, body) \<and> head_segments (\<lambda>_. 0) sample_reader h = []"
proof -
  have c: "cf_LeafLimit sample_config \<noteq> 0" "cf_LeafLimit sample_config \<le> of_nat MaxLeafEntries"
    "2 \<le> cf_IndexLimit sample_config" "cf_IndexLimit sample_config \<le> of_nat MaxIndexEntries"
    "HashAlgo_Validate (cf_HashAlgo sample_config) = Inr ()" "cf_StreamKey sample_config \<noteq> 0" "cf_DataRootKey sample_config \<noteq> 0"
    by code_simp+
  have "(100 :: u64) \<noteq> ReservedLSN" by (simp add: ReservedLSN_def)
  then show ?thesis
    using NewHead_empty[OF c, of 100 "\<lambda>_. 0" "\<lambda>_. Inl [ErrObjectNotFound]"] unfolding sample_reader_def by auto
qed

end
