(* ===== verification/Cat_Retention.thy ===== *)
theory Cat_Retention
  imports Cat_Takeover
begin

text \<open>
  Retention on the paged catalog (\<^verbatim>\<open>catengine/retention.go\<close>): the head advances to the
  segment that holds the boundary; whole sections and entries below it are dropped and the pages on
  the path of the boundary are rewritten, one per level. The run-time panics of the segment count are
  kept as an outcome of their own.
\<close>


section \<open>Operations\<close>

function trimPageRef ::
  "(bytes \<Rightarrow> u64) \<Rightarrow> Config \<Rightarrow> Reader \<Rightarrow> IndexEntry \<Rightarrow> u64 \<Rightarrow> u64 \<Rightarrow> u64 \<Rightarrow> (IndexEntry \<times> PageObject list) res" where
  "trimPageRef xxh config r ref effective generation writerEpoch =
     (if effective \<le> ie_SeqLo ref then Inr (ref, [])
      else if effective > ie_SeqHi ref then Inl []
      else if ie_Level ref = 0 then
        bindE (loadLeaf xxh r ref writerEpoch) (\<lambda>page.
        let entries = lp_Entries page; start = search_list (\<lambda>e. le_LastLSN e \<ge> effective) entries
        in if start = length entries \<or> le_BaseLSN (entries ! start) \<noteq> effective then Inl []
        else bindE (sealLeaf xxh config generation writerEpoch (drop start entries)) (\<lambda>(trimmed, object).
          Inr (trimmed, [object])))
      else
        bindE (loadIndex xxh r ref writerEpoch) (\<lambda>page.
        let start = search_list (\<lambda>e. ie_SeqHi e \<ge> effective) (xp_Entries page)
        in if start = length (xp_Entries page) then Inl []
        else let first = xp_Entries page ! start; rest = drop (Suc start) (xp_Entries page)
        in bindE (if ie_SeqLo first < effective
                  then trimPageRef xxh config r first effective generation writerEpoch
                  else Inr (first, [])) (\<lambda>(first, objects).
           if ie_SeqLo first \<noteq> effective then Inl []
           else bindE (sealIndex xxh config generation writerEpoch (ie_Level ref) (first # rest)) (\<lambda>(trimmed, object).
             Inr (trimmed, objects @ [object])))))"
  by pat_completeness auto
termination
  by (relation "measure (\<lambda>(xxh, config, r, ref, _). unat (ie_Level ref))") (auto dest: loadIndex_search)

declare trimPageRef.simps [simp del]

definition trim_section ::
  "(bytes \<Rightarrow> u64) \<Rightarrow> Config \<Rightarrow> Reader \<Rightarrow> u64 \<Rightarrow> u64 \<Rightarrow> u64 \<Rightarrow> OpenIndexSection \<Rightarrow> (OpenIndexSection \<times> PageObject list) res" where
  "trim_section xxh config r effective generation writerEpoch section =
     (let entries = os_Entries section; start = search_list (\<lambda>e. ie_SeqHi e \<ge> effective) entries
      in if start = length entries then Inr (section\<lparr>os_Entries := []\<rparr>, [])
      else let first = entries ! start; rest = drop (Suc start) entries
      in bindE (if ie_SeqLo first < effective
                then trimPageRef xxh config r first effective generation writerEpoch
                else Inr (first, [])) (\<lambda>(first, objects).
         Inr (section\<lparr>os_Entries := first # rest\<rparr>, objects)))"

text \<open>Empty sections above the highest used one are cut off.\<close>

definition cut_sections :: "OpenIndexSection list \<Rightarrow> OpenIndexSection list" where
  "cut_sections sections = rev (dropWhile (\<lambda>section. length (os_Entries section) = 0) (rev sections))"

definition trimHead ::
  "(bytes \<Rightarrow> u64) \<Rightarrow> Config \<Rightarrow> Reader \<Rightarrow> Head \<Rightarrow> u64 \<Rightarrow> (Head \<times> PageObject list) res" where
  "trimHead xxh config r h effective =
     bindE (mapE (trim_section xxh config r effective (hh_Generation (hd_Header h)) (hh_WriterEpoch (hd_Header h)))
       (hd_Sections h)) (\<lambda>trimmed.
     let start = search_list (\<lambda>e. le_LastLSN e \<ge> effective) (hd_Active h);
         h = h\<lparr>hd_Sections := cut_sections (map fst trimmed),
               hd_Active := (if start = length (hd_Active h) then [] else drop start (hd_Active h))\<rparr>;
         roots = headRoots h
     in if length roots = 0 \<or> root_seqLo (roots ! 0) \<noteq> effective then Inl []
     else Inr (h, concat (map snd trimmed)))"

fun count_refs :: "u64 \<Rightarrow> IndexEntry list \<Rightarrow> u64 res" where
  "count_refs count [] = Inr count"
| "count_refs count (ref # refs) =
     (if MaxUint64 - count < ie_SegmentCount ref then Inl [GoPanic] else count_refs (count + ie_SegmentCount ref) refs)"

definition reachableSegmentCount :: "Head \<Rightarrow> u64 res" where
  "reachableSegmentCount h =
     bindE (count_refs 0 (concat (map os_Entries (hd_Sections h)))) (\<lambda>count.
     if MaxUint64 - count < of_nat (length (hd_Active h)) then Inl [GoPanic]
     else Inr (count + of_nat (length (hd_Active h))))"

text \<open>The part of \<^verbatim>\<open>ApplyRetention\<close> that moves the boundary of the head.\<close>

definition retain_head ::
  "(bytes \<Rightarrow> u64) \<Rightarrow> ctx \<Rightarrow> Config \<Rightarrow> (string \<Rightarrow> bytes res) option \<Rightarrow> Head \<Rightarrow> Head \<Rightarrow> u64 \<Rightarrow> (Head \<times> PageObject list) res" where
  "retain_head xxh ctx config pages h next target =
     (if target \<le> hh_OldestLSN (hd_Header h) then Inr (next, [])
      else if target \<ge> hh_NextLSN (hd_Header h) then
        Inr (next\<lparr>hd_Header := (hd_Header next)\<lparr>hh_OldestLSN := hh_NextLSN (hd_Header h), hh_ReachableSegmentCount := 0,
               hh_ActiveCount := 0, hh_LevelCount := 0\<rparr>, hd_Active := [], hd_Sections := []\<rparr>, [])
      else
        bindE (NewReader config pages) (\<lambda>r.
        bindE (Reader_FindSegment xxh ctx r h target) (\<lambda>found.
        case found of
          None \<Rightarrow> Inl []
        | Some segment \<Rightarrow>
            let effective = sr_BaseLSN segment
            in if effective > hh_OldestLSN (hd_Header h) then
                 bindE (trimHead xxh config r next effective) (\<lambda>(next, pages).
                 Inr (next\<lparr>hd_Header := (hd_Header next)\<lparr>hh_OldestLSN := effective\<rparr>\<rparr>, pages))
               else Inr (next, []))))"

definition ApplyRetention ::
  "(bytes \<Rightarrow> u64) \<Rightarrow> ctx \<Rightarrow> Config \<Rightarrow> (string \<Rightarrow> bytes res) option \<Rightarrow> Head \<Rightarrow> u64 \<Rightarrow> u64 \<Rightarrow> Mutation res" where
  "ApplyRetention xxh ctx config pages h beforeLSN policyVersion =
     (case ctx of Some err \<Rightarrow> Inl err | None \<Rightarrow>
      bindE (validateConfigHead config h) (\<lambda>_.
      let header = hd_Header h
      in if policyVersion = 0 then Inl [ErrInvalidRequest]
      else if policyVersion = hh_AppliedRetentionVersion header \<and> beforeLSN = hh_AppliedRetentionLSN header then
        bindE (MarshalHead xxh h) (\<lambda>body. Inr \<lparr>mu_Head = h, mu_HeadBody = body, mu_Pages = []\<rparr>)
      else if policyVersion \<le> hh_AppliedRetentionVersion header then Inl [ErrRetentionRegression]
      else if beforeLSN < hh_AppliedRetentionLSN header then Inl [ErrRetentionRegression]
      else if hh_Generation header = MaxUint64 then Inl [ErrGenerationExhausted]
      else if pages = None then Inl []
      else let target = (if beforeLSN > hh_NextLSN header then hh_NextLSN header else beforeLSN);
               next = h\<lparr>hd_Header := header\<lparr>hh_Generation := hh_Generation header + 1,
                 hh_AppliedRetentionLSN := target, hh_AppliedRetentionVersion := policyVersion\<rparr>\<rparr>
      in bindE (retain_head xxh ctx config pages h next target) (\<lambda>(next, objects).
         bindE (reachableSegmentCount next) (\<lambda>count.
         let next = next\<lparr>hd_Header := (hd_Header next)\<lparr>hh_ActiveCount := of_nat (length (hd_Active next)),
               hh_LevelCount := of_nat (length (hd_Sections next)), hh_ReachableSegmentCount := count\<rparr>\<rparr>
         in bindE (MarshalHead xxh next) (\<lambda>body. Inr \<lparr>mu_Head = next, mu_HeadBody = body, mu_Pages = objects\<rparr>)))))"

end
