(* ===== verification/Cat_Retention_Spec.thy ===== *)
theory Cat_Retention_Spec
  imports Cat_Retention
begin

text \<open>
  Retention keeps a suffix of the list of segments: trimming a page reference, a section or a head
  filters the leaves below it. The count of what is left cannot overflow, because no page claims more
  segments than log sequence numbers.
\<close>


section \<open>What is kept\<close>

definition keep :: "u64 \<Rightarrow> LeafEntry list \<Rightarrow> LeafEntry list" where
  "keep eff es = filter (\<lambda>e. unat eff < le_hi e) es"

lemma keep_simps [simp]: "keep eff [] = []" "keep eff (xs @ ys) = keep eff xs @ keep eff ys"
  by (simp_all add: keep_def)

lemma fits_keep:
  assumes "fits rg es"
  shows "unat eff \<le> rng_lo rg \<Longrightarrow> keep eff es = es" "rng_hi rg \<le> unat eff \<Longrightarrow> keep eff es = []"
proof -
  have t: "tiles le_lo le_hi (rng_lo rg) es (rng_hi rg)" "list_all leaf_ok es" using assms by (auto simp: fits_def)
  show "unat eff \<le> rng_lo rg \<Longrightarrow> keep eff es = es" "rng_hi rg \<le> unat eff \<Longrightarrow> keep eff es = []"
    unfolding keep_def using lfi.tiles_bounds[OF t] by (fastforce simp: filter_id_conv filter_empty_conv)+
qed

lemma tiles_keep:
  assumes "tiles le_lo le_hi a es b" "list_all leaf_ok es"
  shows "drop (search_list (\<lambda>e. le_LastLSN e \<ge> eff) es) es = keep eff es"
  using lfi.tiles_filter[OF assms, of "unat eff"] drop_search_list[OF lfi.tiles_mono[OF assms, of "unat eff"]]
  by (simp add: search_bounds keep_def)

text \<open>Among contiguous references, those before the search position are dropped whole and those after it
  are kept whole.\<close>

lemma search_children:
  fixes eff :: u64 and refs :: "IndexEntry list"
  defines "i \<equiv> search_list (\<lambda>e. ie_SeqHi e \<ge> eff) refs"
  assumes "tiles ie_lo ie_hi a refs b" "list_all ref_ok refs" "list_all2 (\<lambda>ref es. fits (ref_range ref) es) refs ess"
  shows "i = length refs \<Longrightarrow> keep eff (concat ess) = []"
    "i \<noteq> length refs \<Longrightarrow> i < length refs \<and> keep eff (concat ess) = keep eff (ess ! i) @ concat (drop (Suc i) ess)"
proof -
  have i: "i = length (takeWhile (\<lambda>e. \<not> unat eff < ie_hi e) refs)"
    using search_list_takeWhile[OF rfi.tiles_mono[OF assms(2,3), of "unat eff"]] by (simp add: i_def search_bounds)
  have len: "length ess = length refs" using list_all2_lengthD[OF assms(4)] by simp
  have fit: "fits (ref_range (refs ! k)) (ess ! k)" if "k < length refs" for k
    using list_all2_nthD[OF assms(4) that] .
  have low: "keep eff (ess ! k) = []" if "k < i" for k
  proof -
    have "k < length refs" using that i length_takeWhile_le[of _ refs] by (meson less_le_trans)
    moreover have "\<not> unat eff < ie_hi (refs ! k)"
      using that i set_takeWhileD nth_mem takeWhile_nth by metis
    ultimately show ?thesis using fits_keep(2)[OF fit] by simp
  qed
  have none: "keep eff (concat xss) = []" if "\<forall>xs\<in>set xss. keep eff xs = []" for xss
    using that by (induction xss) auto
  have all: "keep eff (concat xss) = concat xss" if "\<forall>xs\<in>set xss. keep eff xs = xs" for xss
    using that by (induction xss) auto
  have low_all: "\<forall>xs\<in>set (take i ess). keep eff xs = []"
    using low by (auto simp: in_set_conv_nth)
  show "i = length refs \<Longrightarrow> keep eff (concat ess) = []" using none[OF low_all] len by simp
  assume "i \<noteq> length refs"
  then have lt: "i < length refs" using i length_takeWhile_le[of _ refs] le_neq_implies_less by metis
  have hit: "unat eff < ie_hi (refs ! i)" using lt nth_length_takeWhile[of _ refs] i by metis
  have "keep eff (ess ! k) = ess ! k" if "i < k" "k < length refs" for k
  proof -
    have "ie_hi (refs ! i) \<le> ie_lo (refs ! k)"
      using rfi.tiles_sorted[OF assms(2,3)] that by (simp add: sorted_wrt_iff_nth_less)
    then show ?thesis using fits_keep(1)[OF fit[OF that(2)]] hit by simp
  qed
  then have up: "\<forall>xs\<in>set (drop (Suc i) ess). keep eff xs = xs"
    using len by (auto simp: in_set_conv_nth)
  have "concat ess = concat (take i ess) @ ess ! i @ concat (drop (Suc i) ess)"
    using id_take_nth_drop[of i ess] lt len by (metis concat.simps(2) concat_append)
  then show "i < length refs \<and> keep eff (concat ess) = keep eff (ess ! i) @ concat (drop (Suc i) ess)"
    using lt none[OF low_all] all[OF up] by simp
qed

lemma expand_trim:
  fixes eff :: u64 and refs :: "IndexEntry list"
  defines "i \<equiv> search_list (\<lambda>e. ie_SeqHi e \<ge> eff) refs"
  assumes "tiles ie_lo ie_hi a refs b" "list_all ref_ok refs" "expand xxh r ep0 refs = Inr es" "extends r r'" "ep0 \<le> ep"
  shows "i = length refs \<Longrightarrow> keep eff es = []"
    "i \<noteq> length refs \<Longrightarrow> leaves xxh r' ep first = Inr (keep eff fs) \<Longrightarrow> leaves xxh r ep0 (refs ! i) = Inr fs \<Longrightarrow>
       expand xxh r' ep (first # drop (Suc i) refs) = Inr (keep eff es)"
proof -
  obtain ess where e: "list_all2 (\<lambda>ref fs. leaves xxh r ep0 ref = Inr fs) refs ess" "es = concat ess"
    using assms(4) by (auto simp: expand_eq)
  have f: "list_all2 (\<lambda>ref es. fits (ref_range ref) es) refs ess"
    using e(1) by (rule list_all2_mono) (rule leaves_fits)
  note S = search_children[OF assms(2,3) f, of eff, folded i_def]
  show "i = length refs \<Longrightarrow> keep eff es = []" using S(1) e(2) by simp
  assume ne: "i \<noteq> length refs" and first: "leaves xxh r' ep first = Inr (keep eff fs)" and old: "leaves xxh r ep0 (refs ! i) = Inr fs"
  have fs: "ess ! i = fs" using list_all2_nthD[OF e(1), of i] S(2)[OF ne] old by simp
  have "list_all2 (\<lambda>ref fs. leaves xxh r' ep ref = Inr fs) (drop (Suc i) refs) (drop (Suc i) ess)"
    using list_all2_dropI[OF e(1)] by (rule list_all2_mono) (rule leaves_mono[OF _ assms(5,6)])
  then have "expand xxh r' ep (drop (Suc i) refs) = Inr (concat (drop (Suc i) ess))" by (auto simp: expand_eq)
  then have "expand xxh r' ep ([first] @ drop (Suc i) refs) = Inr (keep eff fs @ concat (drop (Suc i) ess))"
    unfolding expand_append using first by simp
  then show "expand xxh r' ep (first # drop (Suc i) refs) = Inr (keep eff es)" using S(2)[OF ne] fs e(2) by simp
qed

lemma expand_nth: "expand xxh r ep refs = Inr es \<Longrightarrow> i < length refs \<Longrightarrow> \<exists>fs. leaves xxh r ep (refs ! i) = Inr fs"
  by (auto simp: expand_eq list_all2_conv_all_nth)


section \<open>Trimming\<close>

lemma trimPageRef_spec:
  assumes "trimPageRef xxh c r ref eff g ep = Inr (ref', objs)" "rd_config r = c" "leaves xxh r ep0 ref = Inr es" "ep0 \<le> ep"
    and "extends r r'" "holds r' objs"
  shows "leaves xxh r' ep ref' = Inr (keep eff es)"
  using assms
proof (induction "unat (ie_Level ref)" arbitrary: ref ref' objs ep0 es rule: less_induct)
  case less
  note T = less(2)[unfolded trimPageRef.simps[of xxh c r ref]]
  have c': "rd_config r' = c" using less(3,6) by (simp add: extends_def)
  show ?case
  proof (cases "eff \<le> ie_SeqLo ref")
    case True
    then have "ref' = ref" using T by simp
    moreover have "keep eff es = es"
      using fits_keep(1)[OF leaves_fits[OF less(4)], of eff] True by (simp add: ie_lo_def word_le_nat_alt)
    ultimately show ?thesis using leaves_mono[OF less(4,6,5)] by simp
  next
    case lo: False
    show ?thesis
    proof (cases "ie_Level ref = 0")
      case True
      obtain page where p: "loadLeaf xxh r ref ep0 = Inr page" "es = lp_Entries page" using leaves_leaf[OF less(4) True] .
      have l: "loadLeaf xxh r ref ep = Inr page" using loadLeaf_mono[OF extends_refl less(5) p(1)] .
      note V = validateLeafPage_Inr[OF loadLeaf_Inr(1)[OF l]]
      obtain object where o: "sealLeaf xxh c g ep (drop (search_list (\<lambda>e. le_LastLSN e \<ge> eff) es) es) = Inr (ref', object)" "objs = [object]"
        using T lo True l p(2) by (auto simp: Let_def split: if_splits prod.splits)
      then show ?thesis
        using sealLeaf_leaves(1)[of xxh r' g ep _ ref' object] less(7) c' tiles_keep[OF V(5,1), of eff] p(2) by simp
    next
      case idx: False
      obtain page ess where p: "loadIndex xxh r ref ep0 = Inr page" "es = concat ess"
        "list_all2 (\<lambda>child es. leaves xxh r (ph_WriterEpoch (xp_Header page)) child = Inr es) (xp_Entries page) ess"
        using leaves_index[OF less(4) idx] .
      let ?refs = "xp_Entries page" and ?ep1 = "ph_WriterEpoch (xp_Header page)"
      let ?i = "search_list (\<lambda>e. ie_SeqHi e \<ge> eff) ?refs"
      have l: "loadIndex xxh r ref ep = Inr page" using loadIndex_mono[OF extends_refl less(5) p(1)] .
      have ep1: "?ep1 \<le> ep" using loadIndex_Inr(3)[OF l] .
      note V = validateIndexPage_Inr[OF loadIndex_Inr(1)[OF l]]
      have ex: "expand xxh r ?ep1 ?refs = Inr es" using p(2,3) by (auto simp: expand_eq)
      have ne: "?i \<noteq> length ?refs" using T lo idx l by (auto split: if_splits)
      then have lt: "?i < length ?refs" using search_list_le[of _ ?refs] le_neq_implies_less by blast
      obtain first sub object where f: "(if ie_SeqLo (?refs ! ?i) < eff then trimPageRef xxh c r (?refs ! ?i) eff g ep
          else Inr (?refs ! ?i, [])) = Inr (first, sub)"
        and o: "sealIndex xxh c g ep (ie_Level ref) (first # drop (Suc ?i) ?refs) = Inr (ref', object)" "objs = sub @ [object]"
        using T lo idx l ne by (auto simp: Let_def split: if_splits prod.splits)
      obtain fs where fs: "leaves xxh r ?ep1 (?refs ! ?i) = Inr fs" using expand_nth[OF ex lt] by blast
      have "leaves xxh r' ep first = Inr (keep eff fs)"
      proof (cases "ie_SeqLo (?refs ! ?i) < eff")
        case True
        then show ?thesis
          using less(1)[OF loadIndex_search[OF l ne] _ less(3) fs ep1 less(6)] f o(2) less(7) by simp
      next
        case False
        then have "keep eff fs = fs"
          using fits_keep(1)[OF leaves_fits[OF fs], of eff] by (simp add: ie_lo_def word_le_nat_alt not_less)
        then show ?thesis using f False leaves_mono[OF fs less(6) ep1] by simp
      qed
      then have "expand xxh r' ep (first # drop (Suc ?i) ?refs) = Inr (keep eff es)"
        using expand_trim(2)[OF V(5,1) ex less(6) ep1 ne _ fs] by blast
      then show ?thesis using sealIndex_leaves[of xxh r' g ep _ _ ref' object] o less(7) c' idx by simp
    qed
  qed
qed


lemma trim_section_spec:
  assumes "trim_section xxh c r eff g ep s = Inr (s', objs)" "rd_config r = c"
    and "tiles ie_lo ie_hi a (os_Entries s) b" "list_all ref_ok (os_Entries s)" "expand xxh r ep (os_Entries s) = Inr es"
    and "extends r r'" "holds r' objs"
  shows "expand xxh r' ep (os_Entries s') = Inr (keep eff es)"
proof -
  let ?refs = "os_Entries s"
  let ?i = "search_list (\<lambda>e. ie_SeqHi e \<ge> eff) ?refs"
  note E = expand_trim[OF assms(3-6) order_refl]
  show ?thesis
  proof (cases "?i = length ?refs")
    case True
    then show ?thesis using assms(1) E(1) by (auto simp: trim_section_def Let_def)
  next
    case False
    then have lt: "?i < length ?refs" using search_list_le[of _ ?refs] le_neq_implies_less by blast
    obtain first where f: "(if ie_SeqLo (?refs ! ?i) < eff then trimPageRef xxh c r (?refs ! ?i) eff g ep
        else Inr (?refs ! ?i, [])) = Inr (first, objs)" and s': "os_Entries s' = first # drop (Suc ?i) ?refs"
      using assms(1) False by (auto simp: trim_section_def Let_def split: prod.splits)
    obtain fs where fs: "leaves xxh r ep (?refs ! ?i) = Inr fs" using expand_nth[OF assms(5) lt] by blast
    have "leaves xxh r' ep first = Inr (keep eff fs)"
    proof (cases "ie_SeqLo (?refs ! ?i) < eff")
      case True
      then show ?thesis using trimPageRef_spec[OF _ assms(2) fs order_refl assms(6,7)] f by simp
    next
      case False
      then have "keep eff fs = fs"
        using fits_keep(1)[OF leaves_fits[OF fs], of eff] by (simp add: ie_lo_def word_le_nat_alt not_less)
      then show ?thesis using f False leaves_mono[OF fs assms(6) order_refl] by simp
    qed
    then show ?thesis using E(2)[OF False _ fs] s' by simp
  qed
qed

lemma trim_sections_spec:
  assumes "list_all2 (\<lambda>s t. trim_section xxh c r eff g ep s = Inr t) ss ts" "rd_config r = c" "extends r r'"
    and "tiles ie_lo ie_hi a (concat (map os_Entries (rev ss))) b" "list_all ref_ok (concat (map os_Entries (rev ss)))"
    and "expand xxh r ep (concat (map os_Entries (rev ss))) = Inr es" "holds r' (concat (map snd ts))"
  shows "expand xxh r' ep (concat (map os_Entries (rev (map fst ts)))) = Inr (keep eff es)"
  using assms
proof (induction ss ts arbitrary: b es rule: list_all2_induct)
  case (Cons s ss t ts)
  obtain m where m: "tiles ie_lo ie_hi a (concat (map os_Entries (rev ss))) m" "tiles ie_lo ie_hi m (os_Entries s) b"
    using Cons.prems(3) by (auto simp: tiles_append)
  obtain xs ys where e: "expand xxh r ep (concat (map os_Entries (rev ss))) = Inr xs" "expand xxh r ep (os_Entries s) = Inr ys"
      "es = xs @ ys"
    using Cons.prems(5) by (auto simp: expand_append)
  have "expand xxh r' ep (concat (map os_Entries (rev (map fst ts)))) = Inr (keep eff xs)"
    using Cons.IH[OF Cons.prems(1,2) m(1) _ e(1)] Cons.prems(4,6) by simp
  moreover have "expand xxh r' ep (os_Entries (fst t)) = Inr (keep eff ys)"
    using trim_section_spec[OF _ Cons.prems(1) m(2) _ e(2) Cons.prems(2), of eff g "fst t" "snd t"] Cons(1) Cons.prems(4,6) by simp
  ultimately show ?case using e(3) by (auto simp: expand_append)
qed simp

lemma cut_sections_refs: "concat (map os_Entries (rev (cut_sections ss))) = concat (map os_Entries (rev ss))"
proof -
  have "concat (map os_Entries (dropWhile (\<lambda>s. length (os_Entries s) = 0) xs)) = concat (map os_Entries xs)" for xs
    by (induction xs) auto
  then show ?thesis by (simp add: cut_sections_def)
qed

lemma trimHead_spec:
  assumes "trimHead xxh c r h eff = Inr (h', objs)" "rd_config r = c" "extends r r'" "holds r' objs"
    and "tiles ie_lo ie_hi a (head_refs h) m" "list_all ref_ok (head_refs h)"
    and "tiles le_lo le_hi m (hd_Active h) b" "list_all leaf_ok (hd_Active h)"
    and "head_leaves xxh r h = Inr es"
  shows "head_leaves xxh r' h' = Inr (keep eff es)" "hd_Header h' = hd_Header h" "hd_LastSegment h' = hd_LastSegment h"
proof -
  let ?H = "hd_Header h" and ?i = "search_list (\<lambda>e. le_LastLSN e \<ge> eff) (hd_Active h)"
  obtain ts where t: "list_all2 (\<lambda>s t. trim_section xxh c r eff (hh_Generation ?H) (hh_WriterEpoch ?H) s = Inr t) (hd_Sections h) ts"
      "objs = concat (map snd ts)"
      "h' = h\<lparr>hd_Sections := cut_sections (map fst ts),
         hd_Active := (if ?i = length (hd_Active h) then [] else drop ?i (hd_Active h))\<rparr>"
    using assms(1) by (auto simp: trimHead_def mapE_eq_Inr Let_def split: if_splits)
  show "hd_Header h' = ?H" "hd_LastSegment h' = hd_LastSegment h" by (simp_all add: t(3))
  obtain fs where fs: "expand xxh r (hh_WriterEpoch ?H) (head_refs h) = Inr fs" "es = fs @ hd_Active h"
    using assms(9) by (auto simp: head_leaves_expand)
  have "expand xxh r' (hh_WriterEpoch ?H) (head_refs h') = Inr (keep eff fs)"
    using trim_sections_spec[OF t(1) assms(2,3) assms(5,6)[unfolded head_refs_def] fs(1)[unfolded head_refs_def]] assms(4) t(2)
    by (simp add: head_refs_def t(3) cut_sections_refs)
  moreover have "hd_Active h' = keep eff (hd_Active h)"
    using tiles_keep[OF assms(7,8), of eff] by (auto simp: t(3))
  ultimately show "head_leaves xxh r' h' = Inr (keep eff es)" using fs(2) by (auto simp: head_leaves_expand t(3))
qed

lemma head_tiles:
  assumes "validateHead h = Inr ()"
  obtains m where "tiles ie_lo ie_hi (unat (hh_OldestLSN (hd_Header h))) (head_refs h) m" "list_all ref_ok (head_refs h)"
    "tiles le_lo le_hi m (hd_Active h) (unat (hh_NextLSN (hd_Header h)))" "list_all leaf_ok (hd_Active h)"
proof -
  note V = validateHead_Inr[OF assms]
  have "\<exists>m. tiles ie_lo ie_hi (unat (hh_OldestLSN (hd_Header h))) (head_refs h) m
      \<and> tiles le_lo le_hi m (hd_Active h) (unat (hh_NextLSN (hd_Header h)))"
    using V(2) by (auto simp: head_ranges_eq tiles_append tiles_map o_def)
  moreover have "list_all ref_ok (head_refs h)" using sections_ok_refs[OF V(8)] by (simp add: list_all_iff)
  moreover have "list_all leaf_ok (hd_Active h)" using V(9) by (auto simp: active_ok_def list_all_iff)
  ultimately show thesis using that by blast
qed

text \<open>The segment that holds the boundary starts what is kept.\<close>

lemma keep_found:
  assumes "tiles le_lo le_hi a es b" "list_all leaf_ok es" "find_leaf es (unat target) = Some e"
  shows "keep (le_BaseLSN e) es = keep target es"
proof -
  have e: "e \<in> set es" "le_lo e \<le> unat target" "unat target < le_hi e"
    using lfi.find_iff[OF assms(1,2), of "unat target" e] assms(3) by (auto simp: find_leaf_def)
  have "(unat (le_BaseLSN e) < le_hi x) = (unat target < le_hi x)" if x: "x \<in> set es" for x
  proof -
    obtain i j where ij: "i < length es" "es ! i = e" "j < length es" "es ! j = x" using e(1) x by (metis in_set_conv_nth)
    have "j < i \<Longrightarrow> le_hi x \<le> le_lo e" "i < j \<Longrightarrow> le_hi e \<le> le_lo x" "le_lo x < le_hi x"
      using lfi.tiles_sorted[OF assms(1,2)] ij lfi.tiles_bounds[OF assms(1,2) x] by (auto simp: sorted_wrt_iff_nth_less)
    then show ?thesis using e(2,3) ij by (cases i j rule: linorder_cases) (auto simp: le_lo_def)
  qed
  then show ?thesis by (auto simp: keep_def intro: filter_cong)
qed


section \<open>The retained head\<close>

definition retain_next :: "Head \<Rightarrow> u64 \<Rightarrow> u64 \<Rightarrow> Head" where
  "retain_next h target version = h\<lparr>hd_Header := (hd_Header h)\<lparr>hh_Generation := hh_Generation (hd_Header h) + 1,
     hh_AppliedRetentionLSN := target, hh_AppliedRetentionVersion := version\<rparr>\<rparr>"

lemma retain_next_same [simp]:
  "hd_Active (retain_next h t v) = hd_Active h" "hd_Sections (retain_next h t v) = hd_Sections h"
  "hd_LastSegment (retain_next h t v) = hd_LastSegment h" "head_refs (retain_next h t v) = head_refs h"
  "head_leaves xxh r (retain_next h t v) = head_leaves xxh r h"
  "hh_Generation (hd_Header (retain_next h t v)) = hh_Generation (hd_Header h) + 1"
  "hh_WriterEpoch (hd_Header (retain_next h t v)) = hh_WriterEpoch (hd_Header h)"
  by (simp_all add: retain_next_def head_refs_def head_leaves_def)

lemma NewReader_self: "NewReader (rd_config r) (Some (rd_pages r)) = Inr r"
  by (cases r) (simp add: NewReader_def)

text \<open>Which fields of the header a moved boundary leaves alone.\<close>

definition same_identity :: "HeadHeader \<Rightarrow> HeadHeader \<Rightarrow> bool" where
  "same_identity H H' \<longleftrightarrow> hh_Partition H' = hh_Partition H \<and> hh_StreamKey H' = hh_StreamKey H \<and> hh_DataRootKey H' = hh_DataRootKey H
     \<and> hh_LeafLimit H' = hh_LeafLimit H \<and> hh_IndexLimit H' = hh_IndexLimit H \<and> hh_HashAlgo H' = hh_HashAlgo H
     \<and> hh_SegmentLayoutVersion H' = hh_SegmentLayoutVersion H \<and> hh_WriterEpoch H' = hh_WriterEpoch H
     \<and> hh_WriterID H' = hh_WriterID H \<and> hh_NextLSN H' = hh_NextLSN H \<and> hh_SegmentCount H' = hh_SegmentCount H"

lemma retain_head_spec:
  assumes "retain_head xxh None (rd_config r) (Some (rd_pages r)) h (retain_next h target v) target = Inr (h', objs)"
    and "validateHead h = Inr ()" "validateConfigHead (rd_config r) h = Inr ()" "head_leaves xxh r h = Inr es"
    and "extends r r'" "holds r' objs"
  shows "head_leaves xxh r' h' = Inr (keep target es)" "hd_LastSegment h' = hd_LastSegment h"
    "same_identity (hd_Header h) (hd_Header h')" "hh_Generation (hd_Header h') = hh_Generation (hd_Header h) + 1"
    "hh_AppliedRetentionLSN (hd_Header h') = target" "hh_AppliedRetentionVersion (hd_Header h') = v"
proof -
  let ?H = "hd_Header h" and ?n = "retain_next h target v"
  note S = head_leaves_spec[OF assms(2,4)]
  have same: "same_identity ?H (hd_Header ?n)" "hh_AppliedRetentionLSN (hd_Header ?n) = target"
    "hh_AppliedRetentionVersion (hd_Header ?n) = v" by (simp_all add: same_identity_def retain_next_def)
  have whole: "head_leaves xxh r' ?n = Inr es"
  proof -
    obtain fs where "expand xxh r (hh_WriterEpoch ?H) (head_refs h) = Inr fs" "es = fs @ hd_Active h"
      using assms(4) by (auto simp: head_leaves_expand)
    then show ?thesis using expand_mono[OF _ assms(5) order_refl] by (auto simp: head_leaves_expand)
  qed
  have "head_leaves xxh r' h' = Inr (keep target es) \<and> hd_LastSegment h' = hd_LastSegment h
    \<and> same_identity ?H (hd_Header h') \<and> hh_Generation (hd_Header h') = hh_Generation ?H + 1
    \<and> hh_AppliedRetentionLSN (hd_Header h') = target \<and> hh_AppliedRetentionVersion (hd_Header h') = v"
  proof -
    consider (below) "target \<le> hh_OldestLSN ?H" | (above) "\<not> target \<le> hh_OldestLSN ?H" "target \<ge> hh_NextLSN ?H"
      | (inside) "\<not> target \<le> hh_OldestLSN ?H" "\<not> target \<ge> hh_NextLSN ?H" by blast
    then show ?thesis
    proof cases
      case below
      have "keep target es = es"
        unfolding keep_def using below lfi.tiles_bounds[OF S(3,1)] by (fastforce simp: filter_id_conv word_le_nat_alt)
      moreover have "h' = ?n" using below assms(1) by (simp add: retain_head_def)
      ultimately show ?thesis using whole same by simp
    next
      case above
      have "keep target es = []"
        unfolding keep_def using above(2) lfi.tiles_bounds[OF S(3,1)] by (fastforce simp: filter_empty_conv word_le_nat_alt)
      then show ?thesis using above assms(1) same
        by (auto simp: retain_head_def head_leaves_def head_refs_def same_identity_def)
    next
      case inside
      obtain e where e: "find_leaf es (unat target) = Some e"
        using assms(1) inside
        by (auto simp: retain_head_def NewReader_self Reader_FindSegment_spec[OF assms(2-4)] split: option.splits)
      note k = keep_found[OF S(3,1) e]
      have f: "Reader_FindSegment xxh None r h target = Inr (Some (segmentRef (rd_config r) e))"
        using Reader_FindSegment_spec[OF assms(2-4)] e by simp
      show ?thesis
      proof (cases "le_BaseLSN e > hh_OldestLSN ?H")
        case True
        obtain nx where nx: "trimHead xxh (rd_config r) r ?n (le_BaseLSN e) = Inr (nx, objs)"
            "h' = nx\<lparr>hd_Header := (hd_Header nx)\<lparr>hh_OldestLSN := le_BaseLSN e\<rparr>\<rparr>"
          using assms(1) inside True f by (auto simp: retain_head_def NewReader_self Let_def split: prod.splits)
        obtain m where m: "tiles ie_lo ie_hi (unat (hh_OldestLSN ?H)) (head_refs h) m" "list_all ref_ok (head_refs h)"
            "tiles le_lo le_hi m (hd_Active h) (unat (hh_NextLSN ?H))" "list_all leaf_ok (hd_Active h)"
          using head_tiles[OF assms(2)] .
        have T: "head_leaves xxh r' nx = Inr (keep (le_BaseLSN e) es)" "hd_Header nx = hd_Header ?n" "hd_LastSegment nx = hd_LastSegment h"
          using trimHead_spec[OF nx(1) refl assms(5,6), of "unat (hh_OldestLSN ?H)" m "unat (hh_NextLSN ?H)" es] m assms(4) by auto
        have "head_leaves xxh r' h' = head_leaves xxh r' nx" by (simp add: nx(2) head_leaves_def head_refs_def)
        then show ?thesis using T k nx(2) same by (simp add: same_identity_def)
      next
        case False
        have "keep (le_BaseLSN e) es = es"
          unfolding keep_def using False lfi.tiles_bounds[OF S(3,1)] by (fastforce simp: filter_id_conv word_le_nat_alt not_less)
        moreover have "h' = ?n" using False inside f assms(1) by (simp add: retain_head_def NewReader_self)
        ultimately show ?thesis using k whole same by simp
      qed
    qed
  qed
  then show "head_leaves xxh r' h' = Inr (keep target es)" "hd_LastSegment h' = hd_LastSegment h"
    "same_identity ?H (hd_Header h')" "hh_Generation (hd_Header h') = hh_Generation ?H + 1"
    "hh_AppliedRetentionLSN (hd_Header h') = target" "hh_AppliedRetentionVersion (hd_Header h') = v"
    by auto
qed

lemma ApplyRetention_Inr:
  assumes "ApplyRetention xxh None c (Some src) h before v = Inr m" "hh_AppliedRetentionVersion (hd_Header h) < v"
  obtains nxt count where
    "retain_head xxh None c (Some src) h (retain_next h (min before (hh_NextLSN (hd_Header h))) v)
       (min before (hh_NextLSN (hd_Header h))) = Inr (nxt, mu_Pages m)"
    "reachableSegmentCount nxt = Inr count"
    "mu_Head m = nxt\<lparr>hd_Header := (hd_Header nxt)\<lparr>hh_ActiveCount := of_nat (length (hd_Active nxt)),
       hh_LevelCount := of_nat (length (hd_Sections nxt)), hh_ReachableSegmentCount := count\<rparr>\<rparr>"
    "MarshalHead xxh (mu_Head m) = Inr (mu_HeadBody m)" "hh_Generation (hd_Header h) \<noteq> MaxUint64"
    "hh_AppliedRetentionLSN (hd_Header h) \<le> before"
proof -
  have t: "(if before > hh_NextLSN (hd_Header h) then hh_NextLSN (hd_Header h) else before) = min before (hh_NextLSN (hd_Header h))"
    by (auto simp: min_def)
  have v: "v \<noteq> 0" "v \<noteq> hh_AppliedRetentionVersion (hd_Header h)" "\<not> v \<le> hh_AppliedRetentionVersion (hd_Header h)"
    using assms(2) by (auto simp: word_gt_0 not_le)
  show thesis
    using assms(1) v that unfolding ApplyRetention_def Let_def t retain_next_def[symmetric]
    by (auto simp: not_less split: if_splits prod.splits)
qed

lemma ApplyRetention_linked:
  assumes "linked xxh r h" "ApplyRetention xxh None (rd_config r) (Some (rd_pages r)) h before v = Inr m"
    and "hh_AppliedRetentionVersion (hd_Header h) < v" "extends r r'" "holds r' (mu_Pages m)"
  shows "linked xxh r' (mu_Head m)"
    "head_segments xxh r' (mu_Head m) = filter (\<lambda>s. unat before < seg_hi s) (head_segments xxh r h)"
    "same_identity (hd_Header h) (hd_Header (mu_Head m))"
    "hh_Generation (hd_Header (mu_Head m)) = hh_Generation (hd_Header h) + 1"
    "hh_AppliedRetentionVersion (hd_Header (mu_Head m)) = v"
    "hh_AppliedRetentionLSN (hd_Header (mu_Head m)) = min before (hh_NextLSN (hd_Header h))"
proof -
  let ?c = "rd_config r" and ?H = "hd_Header h" and ?t = "min before (hh_NextLSN (hd_Header h))"
  have c: "rd_config r' = ?c" using assms(4) by (simp add: extends_def)
  obtain es where e: "validateHead h = Inr ()" "validateConfigHead ?c h = Inr ()" "head_leaves xxh r h = Inr es"
      "head_segments xxh r h = map (segmentRef ?c) es" "es \<noteq> [] \<Longrightarrow> last es = hd_LastSegment h"
    using linkedE[OF assms(1)] by metis
  note S = head_leaves_spec[OF e(1,3)]
  obtain nxt count where n: "retain_head xxh None ?c (Some (rd_pages r)) h (retain_next h ?t v) ?t = Inr (nxt, mu_Pages m)"
      "mu_Head m = nxt\<lparr>hd_Header := (hd_Header nxt)\<lparr>hh_ActiveCount := of_nat (length (hd_Active nxt)),
         hh_LevelCount := of_nat (length (hd_Sections nxt)), hh_ReachableSegmentCount := count\<rparr>\<rparr>"
      "MarshalHead xxh (mu_Head m) = Inr (mu_HeadBody m)"
    using ApplyRetention_Inr[OF assms(2,3)] by metis
  note R = retain_head_spec[OF n(1) e(1-3) assms(4,5)]
  have new: "head_leaves xxh r' (mu_Head m) = Inr (keep ?t es)"
    using R(1) by (simp add: n(2) head_leaves_def head_refs_def)
  have k: "keep ?t es = filter (\<lambda>x. unat before < le_hi x) es"
  proof (cases "before \<le> hh_NextLSN ?H")
    case False
    then have "keep ?t es = []" "filter (\<lambda>x. unat before < le_hi x) es = []"
      unfolding keep_def using lfi.tiles_bounds[OF S(3,1)]
      by (fastforce simp: filter_empty_conv word_le_nat_alt min_def)+
    then show ?thesis by simp
  qed (simp add: keep_def min_def)
  show segs: "head_segments xxh r' (mu_Head m) = filter (\<lambda>s. unat before < seg_hi s) (head_segments xxh r h)"
    using head_segments_eq[OF new] e(4) k c by (simp add: filter_map o_def)
  show id: "same_identity ?H (hd_Header (mu_Head m))" "hh_Generation (hd_Header (mu_Head m)) = hh_Generation ?H + 1"
    "hh_AppliedRetentionVersion (hd_Header (mu_Head m)) = v" "hh_AppliedRetentionLSN (hd_Header (mu_Head m)) = ?t"
    using R by (simp_all add: n(2) same_identity_def)
  have "validateConfigHead ?c (mu_Head m) = Inr ()"
    using e(2) id(1) by (simp add: validateConfigHead_iff same_identity_def)
  moreover have "last (keep ?t es) = hd_LastSegment (mu_Head m)" if "keep ?t es \<noteq> []"
  proof -
    have "keep ?t es = dropWhile (\<lambda>x. \<not> unat ?t < le_hi x) es" using lfi.tiles_filter[OF S(3,1), of "unat ?t"] by (simp add: keep_def)
    then have "last (keep ?t es) = last es" using that by (metis last_appendR takeWhile_dropWhile_id)
    moreover have "es \<noteq> []" using that by auto
    ultimately show ?thesis using e(5) R(2) by (simp add: n(2))
  qed
  ultimately show "linked xxh r' (mu_Head m)" using linkedI[OF MarshalHead_valid[OF n(3)] _ new] c by simp
qed


section \<open>Counting what is left\<close>

lemma ref_ok_small: "ref_ok e \<Longrightarrow> unat (ie_SegmentCount e) \<le> ie_hi e - ie_lo e"
proof -
  assume ok: "ref_ok e"
  note D = ref_okD[OF ok]
  have "\<not> ie_SegmentCount e > ie_SeqHi e - ie_SeqLo e + 1"
    using ok by (auto simp: validateIndexEntry_def Let_def split: if_splits)
  moreover have "unat (ie_SeqHi e - ie_SeqLo e + 1) = unat (ie_SeqHi e) - unat (ie_SeqLo e) + 1"
  proof -
    have "ie_SeqHi e - ie_SeqLo e \<le> MaxRecordLSN"
      using D(1,2) by (simp add: word_le_nat_alt unat_sub)
    then show ?thesis using D(1) by (simp add: unat_succ_lsn unat_sub)
  qed
  ultimately show ?thesis using D(1) by (simp add: ie_lo_def ie_hi_def word_less_nat_alt word_le_nat_alt not_less)
qed

lemma ref_count_spans:
  "list_all ref_ok refs \<Longrightarrow> ref_count refs \<le> sum_list (map (\<lambda>e. ie_hi e - ie_lo e) refs)"
  by (induction refs) (auto dest!: ref_ok_small intro: add_mono)

lemma sealIndex_count_Inr: "sealIndex_count n refs = Inr m \<Longrightarrow> unat m = unat n + ref_count refs"
  by (induction n refs rule: sealIndex_count.induct) (auto simp: count_sum split: if_splits)

lemma spans_drop: "sum_list (map f (drop n xs)) \<le> sum_list (map (f :: 'a \<Rightarrow> nat) xs)"
  by (metis append_take_drop_id le_add2 map_append sum_list_append)

lemma spans_from:
  assumes "i < length refs"
  shows "f (refs ! i) + sum_list (map f (drop (Suc i) refs)) \<le> sum_list (map (f :: 'a \<Rightarrow> nat) refs)"
  using spans_drop[of f i refs] Cons_nth_drop_Suc[OF assms, symmetric] by simp

lemma trimPageRef_small:
  assumes "trimPageRef xxh c r ref eff g ep = Inr (ref', objs)" "ref_ok ref"
  shows "unat (ie_SegmentCount ref') \<le> ie_hi ref - ie_lo ref"
  using assms
proof (induction "unat (ie_Level ref)" arbitrary: ref ref' objs rule: less_induct)
  case less
  note T = less(2)[unfolded trimPageRef.simps[of xxh c r ref]]
  show ?case
  proof (cases "eff \<le> ie_SeqLo ref")
    case True
    then show ?thesis using T ref_ok_small[OF less(3)] by simp
  next
    case lo: False
    show ?thesis
    proof (cases "ie_Level ref = 0")
      case True
      obtain page object where p: "loadLeaf xxh r ref ep = Inr page"
        "sealLeaf xxh c g ep (drop (search_list (\<lambda>e. le_LastLSN e \<ge> eff) (lp_Entries page)) (lp_Entries page)) = Inr (ref', object)"
        using T lo True by (auto simp: Let_def split: if_splits prod.splits)
      note V = validateLeafPage_Inr[OF loadLeaf_Inr(1)[OF p(1)]] and M = loadLeaf_Inr(2)[OF p(1), unfolded matchesPageRef_def]
      have "ie_SegmentCount ref' = of_nat (length (drop (search_list (\<lambda>e. le_LastLSN e \<ge> eff) (lp_Entries page)) (lp_Entries page)))"
        using p(2) by (auto simp: sealLeaf_def Let_def split: prod.splits)
      then have "unat (ie_SegmentCount ref') \<le> length (lp_Entries page)"
        by (simp add: unsigned_of_nat) (meson diff_le_self le_trans take_bit_nat_less_eq_self)
      also have "\<dots> \<le> ie_hi ref - ie_lo ref"
        using lfi.tiles_length[OF V(5,1)] M by (simp add: ie_hi_def ie_lo_def)
      finally show ?thesis .
    next
      case idx: False
      obtain page where l: "loadIndex xxh r ref ep = Inr page" using T lo idx by (auto split: if_splits)
      let ?refs = "xp_Entries page"
      let ?i = "search_list (\<lambda>e. ie_SeqHi e \<ge> eff) ?refs"
      note V = validateIndexPage_Inr[OF loadIndex_Inr(1)[OF l]] and M = loadIndex_Inr(2)[OF l, unfolded matchesPageRef_def]
      have ne: "?i \<noteq> length ?refs" using T lo idx l by (auto split: if_splits)
      then have lt: "?i < length ?refs" using search_list_le[of _ ?refs] le_neq_implies_less by blast
      have ok: "ref_ok (?refs ! ?i)" "list_all ref_ok (drop (Suc ?i) ?refs)"
        using V(1) lt by (auto simp: list_all_iff dest: in_set_dropD)
      obtain first sub object where f: "(if ie_SeqLo (?refs ! ?i) < eff then trimPageRef xxh c r (?refs ! ?i) eff g ep
          else Inr (?refs ! ?i, [])) = Inr (first, sub)"
        and o: "sealIndex xxh c g ep (ie_Level ref) (first # drop (Suc ?i) ?refs) = Inr (ref', object)"
        using T lo idx l ne by (auto simp: Let_def split: if_splits prod.splits)
      have first: "unat (ie_SegmentCount first) \<le> ie_hi (?refs ! ?i) - ie_lo (?refs ! ?i)"
        using f less(1)[OF loadIndex_search[OF l ne] _ ok(1)] ref_ok_small[OF ok(1)] by (auto split: if_splits)
      obtain n where n: "sealIndex_count 0 (first # drop (Suc ?i) ?refs) = Inr n" "ie_SegmentCount ref' = n"
        using o by (auto simp: sealIndex_def Let_def split: prod.splits)
      have "unat (ie_SegmentCount ref') = unat (ie_SegmentCount first) + ref_count (drop (Suc ?i) ?refs)"
        using sealIndex_count_Inr[OF n(1)] n(2) by simp
      also have "\<dots> \<le> sum_list (map (\<lambda>e. ie_hi e - ie_lo e) ?refs)"
        using first ref_count_spans[OF ok(2)] spans_from[OF lt, of "\<lambda>e. ie_hi e - ie_lo e"] by linarith
      also have "\<dots> = ie_hi ref - ie_lo ref"
        using rfi.tiles_spans[OF V(5,1)] M by (simp add: ie_hi_def ie_lo_def)
      finally show ?thesis .
    qed
  qed
qed


lemma trim_section_small:
  assumes "trim_section xxh c r eff g ep s = Inr (s', objs)" "list_all ref_ok (os_Entries s)"
  shows "ref_count (os_Entries s') \<le> sum_list (map (\<lambda>e. ie_hi e - ie_lo e) (os_Entries s))"
proof -
  let ?refs = "os_Entries s"
  let ?i = "search_list (\<lambda>e. ie_SeqHi e \<ge> eff) ?refs"
  show ?thesis
  proof (cases "?i = length ?refs")
    case True
    then show ?thesis using assms(1) by (auto simp: trim_section_def Let_def)
  next
    case False
    then have lt: "?i < length ?refs" using search_list_le[of _ ?refs] le_neq_implies_less by blast
    have ok: "ref_ok (?refs ! ?i)" "list_all ref_ok (drop (Suc ?i) ?refs)"
      using assms(2) lt by (auto simp: list_all_iff dest: in_set_dropD)
    obtain first where f: "(if ie_SeqLo (?refs ! ?i) < eff then trimPageRef xxh c r (?refs ! ?i) eff g ep
        else Inr (?refs ! ?i, [])) = Inr (first, objs)" and s': "os_Entries s' = first # drop (Suc ?i) ?refs"
      using assms(1) False by (auto simp: trim_section_def Let_def split: prod.splits)
    have "unat (ie_SegmentCount first) \<le> ie_hi (?refs ! ?i) - ie_lo (?refs ! ?i)"
      using f trimPageRef_small[OF _ ok(1)] ref_ok_small[OF ok(1)] by (auto split: if_splits)
    then show ?thesis
      using s' ref_count_spans[OF ok(2)] spans_from[OF lt, of "\<lambda>e. ie_hi e - ie_lo e"] by simp
  qed
qed

lemma trim_sections_small:
  assumes "list_all2 (\<lambda>s t. trim_section xxh c r eff g ep s = Inr t) ss ts" "list_all ref_ok (concat (map os_Entries ss))"
  shows "ref_count (concat (map os_Entries (map fst ts))) \<le> sum_list (map (\<lambda>e. ie_hi e - ie_lo e) (concat (map os_Entries ss)))"
  using assms
proof (induction ss ts rule: list_all2_induct)
  case (Cons s ss t ts)
  have "ref_count (os_Entries (fst t)) \<le> sum_list (map (\<lambda>e. ie_hi e - ie_lo e) (os_Entries s))"
    using trim_section_small[of xxh c r eff g ep s "fst t" "snd t"] Cons by simp
  then show ?case using Cons by (simp add: add_mono)
qed simp

lemma ref_count_rev: "ref_count (concat (map os_Entries (rev ss))) = ref_count (concat (map os_Entries ss))"
  by (induction ss) auto

lemma trimHead_small:
  assumes "trimHead xxh c r h eff = Inr (h', objs)" "list_all ref_ok (head_refs h)"
  shows "ref_count (head_refs h') + length (hd_Active h')
    \<le> sum_list (map (\<lambda>e. ie_hi e - ie_lo e) (head_refs h)) + length (hd_Active h)"
proof -
  let ?f = "\<lambda>e. ie_hi e - ie_lo e" and ?H = "hd_Header h"
  obtain ts where t: "list_all2 (\<lambda>s t. trim_section xxh c r eff (hh_Generation ?H) (hh_WriterEpoch ?H) s = Inr t) (hd_Sections h) ts"
      "hd_Sections h' = cut_sections (map fst ts)" "length (hd_Active h') \<le> length (hd_Active h)"
    using assms(1) by (auto simp: trimHead_def mapE_eq_Inr Let_def split: if_splits)
  have ok: "list_all ref_ok (concat (map os_Entries (hd_Sections h)))"
    using assms(2) by (auto simp: head_refs_def list_all_iff)
  have "ref_count (concat (map os_Entries (map fst ts))) \<le> sum_list (map ?f (concat (map os_Entries (hd_Sections h))))"
    using trim_sections_small[OF t(1) ok] .
  moreover have "ref_count (head_refs h') = ref_count (concat (map os_Entries (map fst ts)))"
    unfolding head_refs_def t(2) cut_sections_refs ref_count_rev ..
  moreover have "sum_list (map ?f (concat (map os_Entries (rev ss)))) = sum_list (map ?f (concat (map os_Entries ss)))" for ss
    by (induction ss) auto
  then have "sum_list (map ?f (head_refs h)) = sum_list (map ?f (concat (map os_Entries (hd_Sections h))))"
    unfolding head_refs_def .
  ultimately show ?thesis using t(3) by linarith
qed

lemma count_refs_Inr:
  "unat n + ref_count refs < 18446744073709551616 \<Longrightarrow> \<exists>m. count_refs n refs = Inr m \<and> unat m = unat n + ref_count refs"
proof (induction n refs rule: count_refs.induct)
  case (2 n ref refs)
  then have f: "\<not> MaxUint64 - n < ie_SegmentCount ref" by (simp add: count_fits)
  then show ?case using 2(1)[OF f] 2(2) count_sum[OF f] by (simp add: add.assoc)
qed simp

lemma reachableSegmentCount_Inr:
  assumes "ref_count (head_refs h) + length (hd_Active h) < 18446744073709551616"
  shows "\<exists>n. reachableSegmentCount h = Inr n \<and> unat n = ref_count (head_refs h) + length (hd_Active h)"
proof -
  let ?k = "length (hd_Active h)"
  have r: "ref_count (head_refs h) = ref_count (concat (map os_Entries (hd_Sections h)))"
    unfolding head_refs_def by (rule ref_count_rev)
  obtain m where m: "count_refs 0 (concat (map os_Entries (hd_Sections h))) = Inr m" "unat m = ref_count (head_refs h)"
    using count_refs_Inr[of 0] assms r by force
  have k: "unat (of_nat ?k :: u64) = ?k" using assms by (simp add: unsigned_of_nat take_bit_nat_eq_self)
  then have f: "\<not> MaxUint64 - m < of_nat ?k" using m(2) assms by (simp add: count_fits)
  then show ?thesis using m k count_sum[OF f] by (simp add: reachableSegmentCount_def)
qed


section \<open>Properties\<close>

text \<open>C27: applying a newer retention policy to a head of the paged catalog that can be read keeps exactly
  the segments that reach the boundary, in order: in every store that keeps the old objects and holds
  the rewritten pages, the new head is valid, can be read and stands for that suffix; the writer, the
  next number and the lifetime count stay. When the oldest number moves, the generation grows by one
  and the policy is recorded, with the boundary asked for unless that lies beyond the next number.\<close>

theorem ApplyRetention_keeps_suffix:
  assumes "linked xxh r h" "ApplyRetention xxh None (rd_config r) (Some (rd_pages r)) h before v = Inr m"
    and "hh_AppliedRetentionVersion (hd_Header h) < v" "extends r r'" "holds r' (mu_Pages m)"
  shows "linked xxh r' (mu_Head m)
    \<and> head_segments xxh r' (mu_Head m) = filter (\<lambda>s. unat before < seg_hi s) (head_segments xxh r h)
    \<and> same_identity (hd_Header h) (hd_Header (mu_Head m))
    \<and> (hh_OldestLSN (hd_Header (mu_Head m)) \<noteq> hh_OldestLSN (hd_Header h) \<longrightarrow>
        hh_Generation (hd_Header (mu_Head m)) = hh_Generation (hd_Header h) + 1
      \<and> hh_AppliedRetentionVersion (hd_Header (mu_Head m)) = v
      \<and> (before \<le> hh_NextLSN (hd_Header h) \<longrightarrow> hh_AppliedRetentionLSN (hd_Header (mu_Head m)) = before))"
  using ApplyRetention_linked[OF assms] by simp

lemma sample_retained: "retain_head (\<lambda>_. 0) None sample_config (Some (rd_pages sample_reader)) sample_head1 (retain_next sample_head1 110 1) 110
    = Inr ((retain_next sample_head1 110 1)\<lparr>hd_Header := (hd_Header (retain_next sample_head1 110 1))
        \<lparr>hh_OldestLSN := 110, hh_ReachableSegmentCount := 0, hh_ActiveCount := 0, hh_LevelCount := 0\<rparr>,
      hd_Active := [], hd_Sections := []\<rparr>, [])"
proof -
  have "hh_OldestLSN (hd_Header sample_head1) = 100" "hh_NextLSN (hd_Header sample_head1) = 110" by code_simp+
  then show ?thesis by (simp add: retain_head_def)
qed

definition sample_retained_head :: Head where
  "sample_retained_head = (retain_next sample_head1 110 1)\<lparr>hd_Active := [], hd_Sections := [],
     hd_Header := (hd_Header (retain_next sample_head1 110 1))
       \<lparr>hh_OldestLSN := 110, hh_ActiveCount := 0, hh_LevelCount := 0, hh_ReachableSegmentCount := 0\<rparr>\<rparr>"

lemma sample_ApplyRetention:
  obtains body where "ApplyRetention (\<lambda>_. 0) None sample_config (Some (rd_pages sample_reader)) sample_head1 110 1
    = Inr \<lparr>mu_Head = sample_retained_head, mu_HeadBody = body, mu_Pages = []\<rparr>"
proof -
  have f: "hh_NextLSN (hd_Header sample_head1) = 110" "hh_AppliedRetentionVersion (hd_Header sample_head1) = 0"
    "hh_AppliedRetentionLSN (hd_Header sample_head1) = 0" "hh_Generation (hd_Header sample_head1) \<noteq> MaxUint64"
    "validateHead sample_retained_head = Inr ()" by code_simp+
  obtain body where b: "MarshalHead (\<lambda>_. 0) sample_retained_head = Inr body" using MarshalHead_Inr[OF f(5)] by blast
  have "ApplyRetention (\<lambda>_. 0) None sample_config (Some (rd_pages sample_reader)) sample_head1 110 1
    = Inr \<lparr>mu_Head = sample_retained_head, mu_HeadBody = body, mu_Pages = []\<rparr>"
    unfolding ApplyRetention_def Let_def retain_next_def[symmetric]
    using f b sample_head1_valid(2) sample_retained
    by (simp add: reachableSegmentCount_def MaxUint64_def sample_retained_head_def)
  then show thesis by (rule that)
qed

theorem ApplyRetention_keeps_suffix_witness:
  "head_segments (\<lambda>_. 0) sample_reader sample_retained_head = []
   \<and> linked (\<lambda>_. 0) sample_reader sample_retained_head"
proof -
  have c: "rd_config sample_reader = sample_config" by (simp add: sample_reader_def)
  obtain body where a: "ApplyRetention (\<lambda>_. 0) None (rd_config sample_reader) (Some (rd_pages sample_reader)) sample_head1 110 1
      = Inr \<lparr>mu_Head = sample_retained_head, mu_HeadBody = body, mu_Pages = []\<rparr>"
    using sample_ApplyRetention c by auto
  have l: "linked (\<lambda>_. 0) sample_reader sample_head1"
    using sample_head1_valid c by (intro linkedI[OF _ _ sample_head1_leaves]) (simp_all add: sample_head1_def)
  have v: "hh_AppliedRetentionVersion (hd_Header sample_head1) < 1" by code_simp
  have "filter (\<lambda>s. unat (110 :: u64) < seg_hi s) (head_segments (\<lambda>_. 0) sample_reader sample_head1) = []"
    by (simp add: sample_head1_segments le_hi_def sample_leaf_def)
  then show ?thesis using ApplyRetention_keeps_suffix[OF l a v extends_refl] by simp
qed

text \<open>A newer policy is committed even when it drops no segment: the generation grows and the policy
  is recorded, with its boundary cut off at the next number.\<close>

lemma ApplyRetention_commits_no_op:
  assumes "linked xxh r h" "ApplyRetention xxh None (rd_config r) (Some (rd_pages r)) h before v = Inr m"
    and "hh_AppliedRetentionVersion (hd_Header h) < v" "extends r r'" "holds r' (mu_Pages m)"
    and "\<forall>s \<in> set (head_segments xxh r h). unat before < seg_hi s"
  shows "head_segments xxh r' (mu_Head m) = head_segments xxh r h"
    "hh_Generation (hd_Header (mu_Head m)) = hh_Generation (hd_Header h) + 1"
    "hh_AppliedRetentionVersion (hd_Header (mu_Head m)) = v"
    "hh_AppliedRetentionLSN (hd_Header (mu_Head m)) = min before (hh_NextLSN (hd_Header h))"
  using ApplyRetention_linked[OF assms(1-5)] assms(6) by (simp_all add: filter_id_conv)

text \<open>C28: the panics of the segment count cannot happen. Whatever the store holds, when the boundary of
  a valid head is moved, counting the segments left in the head succeeds and gives their number.\<close>

theorem retention_count_never_panics:
  assumes "validateHead h = Inr ()" "retain_head xxh ctx c src h (retain_next h target v) target = Inr (h', objs)"
  shows "\<exists>n. reachableSegmentCount h' = Inr n \<and> unat n = ref_count (head_refs h') + length (hd_Active h')"
proof -
  let ?H = "hd_Header h" and ?f = "\<lambda>e. ie_hi e - ie_lo e"
  obtain m where m: "tiles ie_lo ie_hi (unat (hh_OldestLSN ?H)) (head_refs h) m" "list_all ref_ok (head_refs h)"
      "tiles le_lo le_hi m (hd_Active h) (unat (hh_NextLSN ?H))" "list_all leaf_ok (hd_Active h)"
    using head_tiles[OF assms(1)] .
  have ord: "unat (hh_OldestLSN ?H) \<le> m" "m \<le> unat (hh_NextLSN ?H)"
    using rfi.tiles_le[OF m(1,2)] lfi.tiles_le[OF m(3,4)] by auto
  have bound: "sum_list (map ?f (head_refs h)) + length (hd_Active h) < 18446744073709551616"
    using rfi.tiles_spans[OF m(1,2)] lfi.tiles_length[OF m(3,4)] ord unat_u64_less[of "hh_NextLSN ?H"] by linarith
  have old: "ref_count (head_refs h) + length (hd_Active h) < 18446744073709551616"
    using bound ref_count_spans[OF m(2)] by linarith
  consider "h' = retain_next h target v" | "hd_Active h' = []" "head_refs h' = []"
    | r eff nxt where "trimHead xxh c r (retain_next h target v) eff = Inr (nxt, objs)"
      "hd_Active h' = hd_Active nxt" "head_refs h' = head_refs nxt"
    using assms(2) by (auto simp: retain_head_def Let_def head_refs_def split: if_splits option.splits prod.splits)
  then have "ref_count (head_refs h') + length (hd_Active h') < 18446744073709551616"
  proof cases
    case (3 r eff nxt)
    then show ?thesis using trimHead_small[OF 3(1)] m(2) bound by simp
  qed (use old in simp_all)
  then show ?thesis by (rule reachableSegmentCount_Inr)
qed

theorem retention_count_never_panics_witness:
  "\<exists>n. reachableSegmentCount ((retain_next sample_head1 110 1)\<lparr>hd_Header := (hd_Header (retain_next sample_head1 110 1))
        \<lparr>hh_OldestLSN := 110, hh_ReachableSegmentCount := 0, hh_ActiveCount := 0, hh_LevelCount := 0\<rparr>,
      hd_Active := [], hd_Sections := []\<rparr>) = Inr n"
  using retention_count_never_panics[OF sample_head1_valid(1) sample_retained] by blast

end
