(* ===== verification/Blob_Store.thy ===== *)
theory Blob_Store
  imports Go_Std "HOL-Library.AList" "HOL-Library.List_Lexorder" "HOL-Library.Char_ord"
begin

text \<open>
  The conditional object store the metadata layers run on (\<^verbatim>\<open>internal/blobstore/store.go\<close>)
  and its in-memory implementation (\<^verbatim>\<open>internal/blobstore/memory/memory.go\<close>). The map of
  objects is an association list with distinct keys; the mutex makes every operation one step; the
  wall clock is an argument, the time at which the object with a given number is created. The locale
  states the protocol of the interface; the in-memory store interprets it.
\<close>


section \<open>The interface\<close>

definition DefaultListLimit :: int where "DefaultListLimit = 1000"
definition MaxListLimit :: int where "MaxListLimit = 1000"
definition JSONContentType :: string where "JSONContentType = ''application/json''"
definition BinaryContentType :: string where "BinaryContentType = ''application/octet-stream''"

definition HasSuffix :: "string \<Rightarrow> string \<Rightarrow> bool" where
  "HasSuffix s t \<longleftrightarrow> length t \<le> length s \<and> drop (length s - length t) s = t"

definition HasPrefix :: "string \<Rightarrow> string \<Rightarrow> bool" where
  "HasPrefix s t \<longleftrightarrow> take (length t) s = t"

definition ContentTypeForKey :: "string \<Rightarrow> string" where
  "ContentTypeForKey key = (if HasSuffix key ''.plc'' then BinaryContentType else JSONContentType)"

record Object =
  ob_Key :: string
  ob_Body :: bytes
  ob_Token :: string
  ob_CreatedAt :: int

record ObjectInfo =
  oi_Key :: string
  oi_Token :: string
  oi_SizeBytes :: nat
  oi_CreatedAt :: int

record ListOptions =
  lo_Prefix :: string
  lo_AfterKey :: string
  lo_Limit :: int

record ObjectPage =
  og_Objects :: "ObjectInfo list"
  og_NextAfterKey :: string
  og_HasMore :: bool

definition NormalizedLimit :: "ListOptions \<Rightarrow> int" where
  "NormalizedLimit opts =
     (if lo_Limit opts \<le> 0 then DefaultListLimit
      else if lo_Limit opts > MaxListLimit then MaxListLimit
      else lo_Limit opts)"

definition zero_Object :: Object where
  "zero_Object = \<lparr>ob_Key = [], ob_Body = [], ob_Token = [], ob_CreatedAt = 0\<rparr>"

text \<open>The interface as a value: every call takes the state of the store and returns the one after it.\<close>

record 'st Store =
  st_Get :: "ctx \<Rightarrow> string \<Rightarrow> 'st \<Rightarrow> Object res \<times> 'st"
  st_Put :: "ctx \<Rightarrow> string \<Rightarrow> bytes \<Rightarrow> 'st \<Rightarrow> Object res \<times> 'st"
  st_CompareAndSwap :: "ctx \<Rightarrow> string \<Rightarrow> string \<Rightarrow> bytes \<Rightarrow> 'st \<Rightarrow> (Object \<times> bool) res \<times> 'st"
  st_List :: "ctx \<Rightarrow> ListOptions \<Rightarrow> 'st \<Rightarrow> ObjectPage res \<times> 'st"
  st_Delete :: "ctx \<Rightarrow> string \<Rightarrow> 'st \<Rightarrow> unit res \<times> 'st"
  st_ConditionalGetter :: "(ctx \<Rightarrow> string \<Rightarrow> string \<Rightarrow> 'st \<Rightarrow> (Object \<times> bool) res \<times> 'st) option"

definition GetIfChanged :: "ctx \<Rightarrow> 'st Store \<Rightarrow> string \<Rightarrow> string \<Rightarrow> 'st \<Rightarrow> (Object \<times> bool) res \<times> 'st" where
  "GetIfChanged ctx store key token st =
     (let plain = (let (res, st) = st_Get store ctx key st in (bindE res (\<lambda>object. Inr (object, True)), st))
      in (case st_ConditionalGetter store of
        Some conditional \<Rightarrow> if token \<noteq> [] then conditional ctx key token st else plain
      | None \<Rightarrow> plain))"


section \<open>The in-memory store\<close>

record mem_object =
  mo_body :: bytes
  mo_token :: string
  mo_createdAt :: int

record MemStore =
  ms_objects :: "(string \<times> mem_object) list"
  ms_next :: u64

definition New :: MemStore where
  "New = \<lparr>ms_objects = [], ms_next = 0\<rparr>"

definition cloneObject :: "string \<Rightarrow> mem_object \<Rightarrow> Object" where
  "cloneObject key stored =
     \<lparr>ob_Key = key, ob_Body = mo_body stored, ob_Token = mo_token stored, ob_CreatedAt = mo_createdAt stored\<rparr>"

definition newObjectLocked :: "(u64 \<Rightarrow> int) \<Rightarrow> bytes \<Rightarrow> MemStore \<Rightarrow> mem_object \<times> MemStore" where
  "newObjectLocked clock body s =
     (let s = s\<lparr>ms_next := ms_next s + 1\<rparr>
      in (\<lparr>mo_body = body, mo_token = fmt_d 20 (ms_next s), mo_createdAt = clock (ms_next s)\<rparr>, s))"

definition store_object :: "string \<Rightarrow> mem_object \<Rightarrow> MemStore \<Rightarrow> MemStore" where
  "store_object key stored s = s\<lparr>ms_objects := AList.update key stored (ms_objects s)\<rparr>"

definition mem_Get :: "ctx \<Rightarrow> string \<Rightarrow> MemStore \<Rightarrow> Object res" where
  "mem_Get ctx key s =
     (case ctx of Some err \<Rightarrow> Inl err | None \<Rightarrow>
      if key = [] then Inl [BlobErrInvalidRequest]
      else (case map_of (ms_objects s) key of
        None \<Rightarrow> Inl [ErrObjectNotFound]
      | Some stored \<Rightarrow> Inr (cloneObject key stored)))"

definition mem_GetIfChanged :: "ctx \<Rightarrow> string \<Rightarrow> string \<Rightarrow> MemStore \<Rightarrow> (Object \<times> bool) res" where
  "mem_GetIfChanged ctx key token s =
     (case ctx of Some err \<Rightarrow> Inl err | None \<Rightarrow>
      if key = [] then Inl [BlobErrInvalidRequest]
      else (case map_of (ms_objects s) key of
        None \<Rightarrow> Inl [ErrObjectNotFound]
      | Some stored \<Rightarrow>
          if token \<noteq> [] \<and> mo_token stored = token
          then Inr (\<lparr>ob_Key = key, ob_Body = [], ob_Token = token, ob_CreatedAt = mo_createdAt stored\<rparr>, False)
          else Inr (cloneObject key stored, True)))"

definition mem_Put :: "(u64 \<Rightarrow> int) \<Rightarrow> ctx \<Rightarrow> string \<Rightarrow> bytes \<Rightarrow> MemStore \<Rightarrow> Object res \<times> MemStore" where
  "mem_Put clock ctx key body s =
     (case ctx of Some err \<Rightarrow> (Inl err, s) | None \<Rightarrow>
      if key = [] then (Inl [BlobErrInvalidRequest], s)
      else (case map_of (ms_objects s) key of
        Some current \<Rightarrow>
          if mo_body current \<noteq> body then (Inl [ErrImmutableConflict], s)
          else (Inr (cloneObject key current), s)
      | None \<Rightarrow>
          let (stored, s) = newObjectLocked clock body s
          in (Inr (cloneObject key stored), store_object key stored s)))"

definition mem_CompareAndSwap ::
  "(u64 \<Rightarrow> int) \<Rightarrow> ctx \<Rightarrow> string \<Rightarrow> string \<Rightarrow> bytes \<Rightarrow> MemStore \<Rightarrow> (Object \<times> bool) res \<times> MemStore" where
  "mem_CompareAndSwap clock ctx key expectedToken body s =
     (case ctx of Some err \<Rightarrow> (Inl err, s) | None \<Rightarrow>
      if key = [] then (Inl [BlobErrInvalidRequest], s)
      else (case map_of (ms_objects s) key of
        None \<Rightarrow>
          if expectedToken \<noteq> [] then (Inr (zero_Object, False), s)
          else let (stored, s) = newObjectLocked clock body s
          in (Inr (cloneObject key stored, True), store_object key stored s)
      | Some current \<Rightarrow>
          if mo_token current \<noteq> expectedToken then (Inr (cloneObject key current, False), s)
          else let (stored, s) = newObjectLocked clock body s;
                   stored = stored\<lparr>mo_createdAt := mo_createdAt current\<rparr>
          in (Inr (cloneObject key stored, True), store_object key stored s)))"

definition mem_List :: "ctx \<Rightarrow> ListOptions \<Rightarrow> MemStore \<Rightarrow> ObjectPage res" where
  "mem_List ctx opts s =
     (case ctx of Some err \<Rightarrow> Inl err | None \<Rightarrow>
      let objects = map (\<lambda>(key, stored). \<lparr>oi_Key = key, oi_Token = mo_token stored,
              oi_SizeBytes = length (mo_body stored), oi_CreatedAt = mo_createdAt stored\<rparr>)
            (filter (\<lambda>(key, stored). \<not> (\<not> HasPrefix key (lo_Prefix opts)
                 \<or> lo_AfterKey opts \<noteq> [] \<and> key \<le> lo_AfterKey opts)) (ms_objects s));
          objects = sort_key oi_Key objects;
          limit = nat (NormalizedLimit opts)
      in if length objects > limit
         then let objects = take limit objects
           in Inr \<lparr>og_Objects = objects, og_NextAfterKey = oi_Key (last objects), og_HasMore = True\<rparr>
         else Inr \<lparr>og_Objects = objects, og_NextAfterKey = [], og_HasMore = False\<rparr>)"

definition mem_Delete :: "ctx \<Rightarrow> string \<Rightarrow> MemStore \<Rightarrow> unit res \<times> MemStore" where
  "mem_Delete ctx key s =
     (case ctx of Some err \<Rightarrow> (Inl err, s) | None \<Rightarrow>
      if key = [] then (Inl [BlobErrInvalidRequest], s)
      else (Inr (), s\<lparr>ms_objects := AList.delete key (ms_objects s)\<rparr>))"

definition mem_store :: "(u64 \<Rightarrow> int) \<Rightarrow> MemStore Store" where
  "mem_store clock = \<lparr>st_Get = (\<lambda>ctx key s. (mem_Get ctx key s, s)), st_Put = mem_Put clock,
     st_CompareAndSwap = mem_CompareAndSwap clock, st_List = (\<lambda>ctx opts s. (mem_List ctx opts s, s)),
     st_Delete = mem_Delete,
     st_ConditionalGetter = Some (\<lambda>ctx key token s. (mem_GetIfChanged ctx key token s, s))\<rparr>"


section \<open>The protocol\<close>

text \<open>
  What a metadata layer may rely on: the state maps keys to objects; an immutable put either creates
  the object, finds the same bytes or fails; a swap happens exactly at the expected version and gives
  a version that was never issued before; failed comparisons change nothing and return the current
  object.
\<close>

text \<open>
  A step of a client that changes the store; calls with a cancelled context or an empty key change
  nothing. The keys in \<open>K\<close> are not deleted, and objects are only created while there are
  versions left.
\<close>

inductive store_step :: "'st Store \<Rightarrow> ('st \<Rightarrow> bool) \<Rightarrow> string set \<Rightarrow> 'st \<Rightarrow> 'st \<Rightarrow> bool" for store room K where
  step_put: "room st \<Longrightarrow> key \<noteq> [] \<Longrightarrow> st_Put store None key body st = (pres, st') \<Longrightarrow> store_step store room K st st'"
| step_swap: "room st \<Longrightarrow> key \<noteq> [] \<Longrightarrow> st_CompareAndSwap store None key token body st = (cres, st') \<Longrightarrow>
    store_step store room K st st'"
| step_delete: "key \<noteq> [] \<Longrightarrow> key \<notin> K \<Longrightarrow> st_Delete store None key st = (dres, st') \<Longrightarrow> store_step store room K st st'"

locale object_store =
  fixes store :: "'st Store"
    and object :: "'st \<Rightarrow> string \<Rightarrow> Object option"
    and issued :: "'st \<Rightarrow> string set"
    and room :: "'st \<Rightarrow> bool"
    and ok :: "'st \<Rightarrow> bool"
  assumes get: "key \<noteq> [] \<Longrightarrow> st_Get store None key st
      = (case object st key of None \<Rightarrow> Inl [ErrObjectNotFound] | Some ob \<Rightarrow> Inr ob, st)"
    and put: "\<lbrakk>ok st; room st; key \<noteq> []; st_Put store None key body st = (pres, st')\<rbrakk> \<Longrightarrow>
      ok st' \<and> (case object st key of
        None \<Rightarrow> \<exists>ob. pres = Inr ob \<and> ob_Body ob = body \<and> ob_Token ob \<notin> issued st \<and> ob_Token ob \<noteq> []
          \<and> object st' = (object st)(key \<mapsto> ob) \<and> issued st' = insert (ob_Token ob) (issued st)
      | Some ob \<Rightarrow> st' = st \<and> pres = (if ob_Body ob = body then Inr ob else Inl [ErrImmutableConflict]))"
    and swap: "\<lbrakk>ok st; room st; key \<noteq> []; st_CompareAndSwap store None key token body st = (cres, st')\<rbrakk> \<Longrightarrow>
      ok st' \<and> (if (case object st key of None \<Rightarrow> token = [] | Some ob \<Rightarrow> ob_Token ob = token)
        then \<exists>ob. cres = Inr (ob, True) \<and> ob_Body ob = body \<and> ob_Token ob \<notin> issued st \<and> ob_Token ob \<noteq> []
          \<and> object st' = (object st)(key \<mapsto> ob) \<and> issued st' = insert (ob_Token ob) (issued st)
        else st' = st)"
    and delete: "\<lbrakk>ok st; key \<noteq> []; st_Delete store None key st = (dres, st')\<rbrakk> \<Longrightarrow>
      ok st' \<and> dres = Inr () \<and> object st' = (object st)(key := None) \<and> issued st' = issued st"
    and stale: "\<lbrakk>ok st; key \<noteq> []; (case object st key of None \<Rightarrow> token \<noteq> [] | Some ob \<Rightarrow> ob_Token ob \<noteq> token)\<rbrakk> \<Longrightarrow>
      st_CompareAndSwap store None key token body st = (Inr (case object st key of None \<Rightarrow> zero_Object | Some ob \<Rightarrow> ob, False), st)"
    and tokens: "ok st \<Longrightarrow> object st key = Some ob \<Longrightarrow> ob_Token ob \<in> issued st \<and> ob_Token ob \<noteq> []"
begin

lemma put_read:
  assumes "ok st" "room st" "key \<noteq> []" "st_Put store None key body st = (Inr ob, st')"
  shows "\<exists>ob'. st_Get store None key st' = (Inr ob', st') \<and> ob_Body ob' = body"
  using put[OF assms] assms(3) by (auto simp: get split: option.splits if_splits)

lemma put_keeps:
  assumes "ok st" "room st" "key \<noteq> []" "st_Put store None key body st = (res, st')"
  shows "object st key' = Some x \<Longrightarrow> object st' key' = Some x"
  using put[OF assms] by (auto split: option.splits if_splits)

text \<open>
  From a successful swap on, every version of the object is one that was not issued before it, and
  an object that is not deleted stays there.
\<close>

lemma steps_fresh:
  assumes "(store_step store room K)\<^sup>*\<^sup>* st st'" "ok st" "I \<subseteq> issued st"
    and "\<forall>ob. object st key = Some ob \<longrightarrow> ob_Token ob \<notin> I"
  shows "ok st' \<and> I \<subseteq> issued st' \<and> (\<forall>ob. object st' key = Some ob \<longrightarrow> ob_Token ob \<notin> I)
    \<and> (key \<in> K \<longrightarrow> object st key \<noteq> None \<longrightarrow> object st' key \<noteq> None)"
  using assms(1)
proof (induction rule: rtranclp_induct)
  case (step u v)
  from step.hyps(2) show ?case
  proof (cases rule: store_step.cases)
    case (step_put k body pres)
    then show ?thesis using put[OF _ step_put] step.IH by (auto split: option.splits if_splits)
  next
    case (step_swap k token body cres)
    then show ?thesis using swap[OF _ step_swap] step.IH by (auto split: option.splits if_splits)
  next
    case (step_delete k dres)
    then show ?thesis using delete[OF _ step_delete(1,3)] step.IH by (auto split: if_splits)
  qed
qed (use assms in simp)

text \<open>
  A version swaps once: after a swap that expected it no other one ever does, except the creation
  of an object that was deleted.
\<close>

lemma swap_once:
  assumes "ok st" "room st" "key \<noteq> []" "st_CompareAndSwap store None key token body st = (Inr (ob, True), st1)"
    and "(store_step store room K)\<^sup>*\<^sup>* st1 st'" "token \<noteq> [] \<or> key \<in> K"
  shows "object st1 key = Some ob" "ob_Body ob = body"
    "st_CompareAndSwap store None key token body' st' = (Inr (case object st' key of None \<Rightarrow> zero_Object | Some ob \<Rightarrow> ob, False), st')"
proof -
  have c: "case object st key of None \<Rightarrow> token = [] | Some x \<Rightarrow> ob_Token x = token"
    using swap[OF assms(1-4)] stale[OF assms(1,3), of token body] assms(4) by (auto split: if_splits option.splits)
  then have S: "ok st1" "object st1 = (object st)(key \<mapsto> ob)" "ob_Body ob = body" "ob_Token ob \<notin> issued st" "issued st \<subseteq> issued st1"
    using swap[OF assms(1-4)] by auto
  show "object st1 key = Some ob" "ob_Body ob = body" using S(2,3) by simp_all
  note F = steps_fresh[OF assms(5) S(1,5), of key]
  have fresh: "ok st'" "\<forall>x. object st' key = Some x \<longrightarrow> ob_Token x \<notin> issued st" "key \<in> K \<longrightarrow> object st' key \<noteq> None"
    using F S(2,4) by auto
  have "case object st' key of None \<Rightarrow> token \<noteq> [] | Some x \<Rightarrow> ob_Token x \<noteq> token"
  proof (cases "object st' key")
    case None
    then show ?thesis using fresh(3) assms(6) by auto
  next
    case (Some x)
    then have "ob_Token x \<noteq> []" "ob_Token x \<notin> issued st" using tokens[OF fresh(1)] fresh(2) by auto
    then show ?thesis using c tokens[OF assms(1), of key] Some by (auto split: option.splits)
  qed
  then show "st_CompareAndSwap store None key token body' st' = (Inr (case object st' key of None \<Rightarrow> zero_Object | Some ob \<Rightarrow> ob, False), st')"
    by (rule stale[OF fresh(1) assms(3)])
qed

end


section \<open>The in-memory store keeps the protocol\<close>

definition mem_lookup :: "MemStore \<Rightarrow> string \<Rightarrow> Object option" where
  "mem_lookup s key = map_option (cloneObject key) (map_of (ms_objects s) key)"

definition mem_issued :: "MemStore \<Rightarrow> string set" where
  "mem_issued s = {fmt_d 20 n | n :: u64. 0 < n \<and> n \<le> ms_next s}"

definition mem_ok :: "MemStore \<Rightarrow> bool" where
  "mem_ok s \<longleftrightarrow> distinct (map fst (ms_objects s)) \<and> [] \<notin> fst ` set (ms_objects s)
     \<and> (\<forall>(key, stored)\<in>set (ms_objects s). mo_token stored \<in> mem_issued s)"

definition mem_room :: "MemStore \<Rightarrow> bool" where
  "mem_room s \<longleftrightarrow> ms_next s \<noteq> MaxUint64"


lemma map_of_update: "map_of (AList.update k v xs) = (map_of xs)(k \<mapsto> v)"
  by (rule ext) (simp add: update_conv)

lemma mem_succ: "mem_room s \<Longrightarrow> unat (ms_next s + 1) = unat (ms_next s) + 1"
  using unat_succ_lsn[of "ms_next s"] by (simp add: mem_room_def le_MaxRecordLSN_iff ReservedLSN_def MaxUint64_def)

lemma mem_issued_succ:
  assumes "mem_room s" "ms_next s' = ms_next s + 1"
  shows "mem_issued s' = insert (fmt_d 20 (ms_next s + 1)) (mem_issued s)" "fmt_d 20 (ms_next s + 1) \<notin> mem_issued s"
proof -
  have le: "n \<le> ms_next s + 1 \<longleftrightarrow> n = ms_next s + 1 \<or> n \<le> ms_next s" for n :: u64
    using mem_succ[OF assms(1)] by (auto simp: word_le_nat_alt word_unat_eq_iff)
  have pos: "0 < ms_next s + 1" using mem_succ[OF assms(1)] by (simp add: word_less_nat_alt)
  show "mem_issued s' = insert (fmt_d 20 (ms_next s + 1)) (mem_issued s)"
    unfolding mem_issued_def assms(2) le using pos by blast
  show "fmt_d 20 (ms_next s + 1) \<notin> mem_issued s"
    using mem_succ[OF assms(1)] by (auto simp: mem_issued_def word_le_nat_alt)
qed

lemma issued_nonempty: "tok \<in> mem_issued s \<Longrightarrow> tok \<noteq> []"
proof -
  assume "tok \<in> mem_issued s"
  then obtain n :: u64 where "tok = fmt_d 20 n" by (auto simp: mem_issued_def)
  then have "length tok = 20" by simp
  then show ?thesis by auto
qed

text \<open>What a creation does to the view of the store.\<close>

lemma store_object_spec:
  fixes s :: MemStore
  defines "tok \<equiv> fmt_d 20 (ms_next s + 1)"
  assumes "mem_ok s" "mem_room s" "key \<noteq> []" "s' = store_object key \<lparr>mo_body = body, mo_token = tok, mo_createdAt = t\<rparr> (s\<lparr>ms_next := ms_next s + 1\<rparr>)"
  shows "mem_ok s'" "mem_lookup s' = (mem_lookup s)(key \<mapsto> \<lparr>ob_Key = key, ob_Body = body, ob_Token = tok, ob_CreatedAt = t\<rparr>)"
    "mem_issued s' = insert tok (mem_issued s)" "tok \<notin> mem_issued s" "tok \<noteq> []"
proof -
  have n: "ms_next s' = ms_next s + 1" by (simp add: assms(5) store_object_def)
  show i: "mem_issued s' = insert tok (mem_issued s)" "tok \<notin> mem_issued s"
    using mem_issued_succ[OF assms(3) n] by (simp_all add: tok_def)
  show "mem_lookup s' = (mem_lookup s)(key \<mapsto> \<lparr>ob_Key = key, ob_Body = body, ob_Token = tok, ob_CreatedAt = t\<rparr>)"
    by (rule ext) (simp add: mem_lookup_def assms(5) store_object_def map_of_update cloneObject_def)
  have "length tok = 20" by (simp add: tok_def)
  then show "tok \<noteq> []" by auto
  have d: "distinct (map fst (ms_objects s'))"
    using assms(2) by (simp add: assms(5) store_object_def mem_ok_def distinct_update)
  have "mo_token stored \<in> mem_issued s'" if "(k, stored) \<in> set (ms_objects s')" for k stored
  proof -
    have "map_of (ms_objects s') k = Some stored" using d that by simp
    then have "stored = \<lparr>mo_body = body, mo_token = tok, mo_createdAt = t\<rparr> \<or> map_of (ms_objects s) k = Some stored"
      by (auto simp: assms(5) store_object_def map_of_update split: if_splits)
    then show ?thesis using assms(2) i(1) by (auto simp: mem_ok_def dest: map_of_SomeD)
  qed
  moreover have "[] \<notin> fst ` set (ms_objects s')"
    using assms(2,4) by (simp add: assms(5) store_object_def mem_ok_def dom_update)
  ultimately show "mem_ok s'" using d by (auto simp: mem_ok_def)
qed

interpretation mem: object_store "mem_store clock" mem_lookup mem_issued mem_room mem_ok for clock
proof
  fix key st body pres st' token cres ob dres
  show "key \<noteq> [] \<Longrightarrow> st_Get (mem_store clock) None key st
      = (case mem_lookup st key of None \<Rightarrow> Inl [ErrObjectNotFound] | Some ob \<Rightarrow> Inr ob, st)"
    by (simp add: mem_store_def mem_Get_def mem_lookup_def split: option.splits)
  show "mem_ok st \<Longrightarrow> mem_lookup st key = Some ob \<Longrightarrow> ob_Token ob \<in> mem_issued st \<and> ob_Token ob \<noteq> []"
  proof -
    assume "mem_ok st" "mem_lookup st key = Some ob"
    then obtain stored where "ob = cloneObject key stored" "mo_token stored \<in> mem_issued st"
      by (auto simp: mem_lookup_def mem_ok_def dest: map_of_SomeD)
    then show ?thesis using issued_nonempty[of "mo_token stored" st] by (auto simp: cloneObject_def)
  qed
  show "mem_ok st \<Longrightarrow> key \<noteq> [] \<Longrightarrow> st_Delete (mem_store clock) None key st = (dres, st') \<Longrightarrow>
      mem_ok st' \<and> dres = Inr () \<and> mem_lookup st' = (mem_lookup st)(key := None) \<and> mem_issued st' = mem_issued st"
  proof -
    assume a: "mem_ok st" "key \<noteq> []" "st_Delete (mem_store clock) None key st = (dres, st')"
    then have s: "st' = st\<lparr>ms_objects := AList.delete key (ms_objects st)\<rparr>" "dres = Inr ()"
      by (auto simp: mem_store_def mem_Delete_def)
    have i: "mem_issued st' = mem_issued st" by (simp add: s(1) mem_issued_def)
    have sub: "set (AList.delete key (ms_objects st)) \<subseteq> set (ms_objects st)" by (auto simp: AList.delete_eq)
    have "mem_ok st'" using a(1) sub unfolding mem_ok_def i by (auto simp: s(1) distinct_delete)
    moreover have "mem_lookup st' = (mem_lookup st)(key := None)" by (rule ext) (simp add: s(1) mem_lookup_def delete_conv)
    ultimately show ?thesis using i s(2) by simp
  qed
  show "mem_ok st \<Longrightarrow> key \<noteq> [] \<Longrightarrow> (case mem_lookup st key of None \<Rightarrow> token \<noteq> [] | Some ob \<Rightarrow> ob_Token ob \<noteq> token) \<Longrightarrow>
      st_CompareAndSwap (mem_store clock) None key token body st
        = (Inr (case mem_lookup st key of None \<Rightarrow> zero_Object | Some ob \<Rightarrow> ob, False), st)"
    by (auto simp: mem_store_def mem_CompareAndSwap_def mem_lookup_def cloneObject_def split: option.splits)
  assume a: "mem_ok st" "mem_room st" "key \<noteq> []"
  note S = store_object_spec[OF a refl]
  show "mem_ok st' \<and> (case mem_lookup st key of
        None \<Rightarrow> \<exists>ob. pres = Inr ob \<and> ob_Body ob = body \<and> ob_Token ob \<notin> mem_issued st \<and> ob_Token ob \<noteq> []
          \<and> mem_lookup st' = (mem_lookup st)(key \<mapsto> ob) \<and> mem_issued st' = insert (ob_Token ob) (mem_issued st)
      | Some ob \<Rightarrow> st' = st \<and> pres = (if ob_Body ob = body then Inr ob else Inl [ErrImmutableConflict]))"
    if "st_Put (mem_store clock) None key body st = (pres, st')"
    using that a S(1-3)[of body "clock (ms_next st + 1)"] S(4,5)
    by (auto simp: mem_store_def mem_Put_def newObjectLocked_def cloneObject_def Let_def mem_lookup_def[of st] split: option.splits if_splits)
  show "mem_ok st' \<and> (if (case mem_lookup st key of None \<Rightarrow> token = [] | Some ob \<Rightarrow> ob_Token ob = token)
        then \<exists>ob. cres = Inr (ob, True) \<and> ob_Body ob = body \<and> ob_Token ob \<notin> mem_issued st \<and> ob_Token ob \<noteq> []
          \<and> mem_lookup st' = (mem_lookup st)(key \<mapsto> ob) \<and> mem_issued st' = insert (ob_Token ob) (mem_issued st)
        else st' = st)"
    if "st_CompareAndSwap (mem_store clock) None key token body st = (cres, st')"
    using that a S(1-3)[of body] S(4,5)
    by (auto simp: mem_store_def mem_CompareAndSwap_def newObjectLocked_def cloneObject_def Let_def mem_lookup_def[of st] split: option.splits if_splits)
qed



section \<open>Listing\<close>

definition list_info :: "string \<times> mem_object \<Rightarrow> ObjectInfo" where
  "list_info = (\<lambda>(key, stored). \<lparr>oi_Key = key, oi_Token = mo_token stored,
     oi_SizeBytes = length (mo_body stored), oi_CreatedAt = mo_createdAt stored\<rparr>)"

definition listed :: "MemStore \<Rightarrow> string \<Rightarrow> ObjectInfo list" where
  "listed s prefix = sort_key oi_Key (map list_info (filter (\<lambda>(key, _). HasPrefix key prefix) (ms_objects s)))"

lemma oi_Key_info [simp]: "oi_Key (list_info kv) = fst kv"
  by (simp add: list_info_def split: prod.splits)

lemma listed_after:
  "sort_key oi_Key (map list_info (filter (\<lambda>(key, _). \<not> (\<not> HasPrefix key prefix \<or> after \<noteq> [] \<and> key \<le> after)) (ms_objects s)))
     = filter (\<lambda>x. after = [] \<or> after < oi_Key x) (listed s prefix)"
  unfolding listed_def filter_sort filter_map filter_filter
  by (rule arg_cong[where f = "\<lambda>xs. sort_key oi_Key (map list_info xs)"], rule filter_cong) (auto simp: not_le)

lemma mem_List_eq:
  "mem_List None opts s =
     (let objects = filter (\<lambda>x. lo_AfterKey opts = [] \<or> lo_AfterKey opts < oi_Key x) (listed s (lo_Prefix opts));
          limit = nat (NormalizedLimit opts)
      in if limit < length objects
         then Inr \<lparr>og_Objects = take limit objects, og_NextAfterKey = oi_Key (last (take limit objects)), og_HasMore = True\<rparr>
         else Inr \<lparr>og_Objects = objects, og_NextAfterKey = [], og_HasMore = False\<rparr>)"
  unfolding mem_List_def option.case Let_def list_info_def[symmetric]
  using listed_after[of "lo_Prefix opts" "lo_AfterKey opts" s] by simp

lemma listed_strict:
  assumes "mem_ok s"
  shows "sorted_wrt (\<lambda>x y. oi_Key x < oi_Key y) (listed s prefix)" "\<forall>x\<in>set (listed s prefix). oi_Key x \<noteq> []"
proof -
  let ?xs = "map list_info (filter (\<lambda>(key, _). HasPrefix key prefix) (ms_objects s))"
  have "distinct (map fst (filter (\<lambda>(key, _). HasPrefix key prefix) (ms_objects s)))"
    using assms by (auto simp: mem_ok_def intro: distinct_map_filter)
  then have "distinct (map oi_Key ?xs)" by (simp add: o_def)
  then have "distinct (map oi_Key (listed s prefix))" unfolding listed_def distinct_map distinct_sort set_sort .
  then show "sorted_wrt (\<lambda>x y. oi_Key x < oi_Key y) (listed s prefix)"
    using sorted_sort_key[of oi_Key "map list_info (filter (\<lambda>(key, _). HasPrefix key prefix) (ms_objects s))"]
    unfolding listed_def[symmetric] by (simp add: strict_sorted_iff sorted_wrt_map[symmetric])
  show "\<forall>x\<in>set (listed s prefix). oi_Key x \<noteq> []"
    using assms by (auto simp: listed_def mem_ok_def image_iff)
qed

text \<open>A client that follows pages: each request continues after the last key of the page before.\<close>

fun follow_list :: "(ListOptions \<Rightarrow> ObjectPage res) \<Rightarrow> nat \<Rightarrow> ListOptions \<Rightarrow> ObjectInfo list res option" where
  "follow_list req 0 opts = None"
| "follow_list req (Suc fuel) opts =
     (case req opts of Inl err \<Rightarrow> Some (Inl err)
      | Inr page \<Rightarrow>
          if og_HasMore page
          then (case follow_list req fuel (opts\<lparr>lo_AfterKey := og_NextAfterKey page\<rparr>) of
              Some (Inr rest) \<Rightarrow> Some (Inr (og_Objects page @ rest)) | other \<Rightarrow> other)
          else Some (Inr (og_Objects page)))"

lemma strict_filter_drop:
  assumes "sorted_wrt (\<lambda>x y. f x < f y) xs" "0 < n" "n \<le> length xs"
  shows "filter (\<lambda>x. f (last (take n xs)) < (f x :: 'b::linorder)) xs = drop n xs"
proof -
  let ?k = "f (last (take n xs))"
  have l: "last (take n xs) = xs ! (n - 1)" using assms(2,3) by (subst last_conv_nth) (auto simp: min_def)
  have "f (xs ! i) \<le> ?k" if "i < n" for i
  proof (cases "i = n - 1")
    case False
    then have "i < n - 1" "n - 1 < length xs" using that assms(2,3) by auto
    then show ?thesis using assms(1) l by (simp add: sorted_wrt_iff_nth_less less_imp_le)
  qed (simp add: l)
  then have a: "filter (\<lambda>x. ?k < f x) (take n xs) = []" by (auto simp: filter_empty_conv in_set_conv_nth not_less)
  have "?k < f (xs ! i)" if "n \<le> i" "i < length xs" for i
    using assms that l by (simp add: sorted_wrt_iff_nth_less)
  then have b: "filter (\<lambda>x. ?k < f x) (drop n xs) = drop n xs" by (auto simp: filter_id_conv in_set_conv_nth)
  show ?thesis using a b by (metis append_Nil append_take_drop_id filter_append)
qed

lemma NormalizedLimit_pos: "0 < nat (NormalizedLimit opts)"
  by (simp add: NormalizedLimit_def DefaultListLimit_def MaxListLimit_def)

lemma follow_list_spec:
  assumes "mem_ok s"
  shows "length (filter (\<lambda>x. lo_AfterKey opts = [] \<or> lo_AfterKey opts < oi_Key x) (listed s (lo_Prefix opts))) < fuel \<Longrightarrow>
    follow_list (\<lambda>opts. mem_List None opts s) fuel opts
      = Some (Inr (filter (\<lambda>x. lo_AfterKey opts = [] \<or> lo_AfterKey opts < oi_Key x) (listed s (lo_Prefix opts))))"
proof (induction fuel arbitrary: opts)
  case (Suc fuel)
  let ?P = "\<lambda>x. lo_AfterKey opts = [] \<or> lo_AfterKey opts < oi_Key x" and ?L = "listed s (lo_Prefix opts)"
  let ?M = "filter ?P ?L" and ?n = "nat (NormalizedLimit opts)"
  have m: "sorted_wrt (\<lambda>x y. oi_Key x < oi_Key y) ?M" "\<forall>x\<in>set ?M. oi_Key x \<noteq> []"
    using listed_strict[OF assms, of "lo_Prefix opts"] by (auto intro: sorted_wrt_filter)
  show ?case
  proof (cases "?n < length ?M")
    case True
    let ?k = "oi_Key (last (take ?n ?M))" and ?o = "opts\<lparr>lo_AfterKey := oi_Key (last (take ?n ?M))\<rparr>"
    have in_M: "last (take ?n ?M) \<in> set ?M"
    proof -
      have "take ?n ?M \<noteq> []" using True NormalizedLimit_pos[of opts] by auto
      then show ?thesis using last_in_set in_set_takeD by metis
    qed
    then have k: "?k \<noteq> []" "lo_AfterKey opts = [] \<or> lo_AfterKey opts < ?k" using m(2) by auto
    have "filter (\<lambda>x. ?k < oi_Key x) ?M = drop ?n ?M"
      using strict_filter_drop[OF m(1) NormalizedLimit_pos] True by simp
    moreover have "filter (\<lambda>x. ?k < oi_Key x) ?M = filter (\<lambda>x. ?k < oi_Key x) ?L"
      using k(2) unfolding filter_filter by (intro filter_cong) auto
    ultimately have next_M: "filter (\<lambda>x. lo_AfterKey ?o = [] \<or> lo_AfterKey ?o < oi_Key x) (listed s (lo_Prefix ?o)) = drop ?n ?M"
      using k(1) by simp
    have len: "length (drop ?n ?M) < fuel" using Suc(2) True NormalizedLimit_pos[of opts] by simp
    have "follow_list (\<lambda>opts. mem_List None opts s) fuel ?o = Some (Inr (drop ?n ?M))"
      using Suc(1)[of ?o] unfolding next_M using len by simp
    then show ?thesis using True by (simp add: mem_List_eq Let_def)
  next
    case False
    then show ?thesis by (simp add: mem_List_eq Let_def)
  qed
qed simp


section \<open>Properties\<close>

text \<open>C29: the in-memory store gives the mutual exclusion the catalog relies on. Once a compare-and-swap
  succeeded, reading the key returns what it wrote, and after any further puts, swaps and deletions
  by anyone a compare-and-swap that expects the same version fails, changes nothing and returns the
  current object, as long as the counter of versions does not run out; the only exception is the
  creation of a key that was deleted in between, so that a swap that expects no object needs the
  key not to be deleted.\<close>

theorem memory_store_swap_once:
  assumes "mem_ok s" "mem_room s" "key \<noteq> []"
    and "mem_CompareAndSwap clock None key token body s = (Inr (ob, True), s1)"
    and "(store_step (mem_store clock) mem_room K)\<^sup>*\<^sup>* s1 s'" "token \<noteq> [] \<or> key \<in> K"
  shows "mem_Get None key s1 = Inr ob \<and> ob_Body ob = body
    \<and> mem_CompareAndSwap clock None key token body' s'
      = (Inr (case mem_lookup s' key of None \<Rightarrow> zero_Object | Some current \<Rightarrow> current, False), s')"
proof -
  have a: "st_CompareAndSwap (mem_store clock) None key token body s = (Inr (ob, True), s1)"
    using assms(4) by (simp add: mem_store_def)
  note S = mem.swap_once[OF assms(1-3) a assms(5,6)]
  show ?thesis using S(1,2) S(3)[of body'] mem.get[OF assms(3), of clock s1] by (simp add: mem_store_def)
qed

definition sample_store :: MemStore where
  "sample_store = snd (mem_CompareAndSwap (\<lambda>_. 7) None ''k'' [] [1] New)"

theorem memory_store_swap_once_witness:
  "\<exists>s'. store_step (mem_store (\<lambda>_. 7)) mem_room {''k''} sample_store s' \<and> ms_next s' = 2
     \<and> mem_CompareAndSwap (\<lambda>_. 7) None ''k'' [] [2] s'
       = (Inr (\<lparr>ob_Key = ''k'', ob_Body = [1], ob_Token = fmt_d 20 (1 :: u64), ob_CreatedAt = 7\<rparr>, False), s')"
proof -
  have a: "mem_CompareAndSwap (\<lambda>_. 7) None ''k'' [] [1] New
      = (Inr (\<lparr>ob_Key = ''k'', ob_Body = [1], ob_Token = fmt_d 20 (1 :: u64), ob_CreatedAt = 7\<rparr>, True), sample_store)"
    by (simp add: sample_store_def mem_CompareAndSwap_def New_def newObjectLocked_def cloneObject_def)
  have ok: "mem_ok New" "mem_room New" "mem_room sample_store"
    by (simp_all add: mem_ok_def mem_room_def New_def MaxUint64_def sample_store_def mem_CompareAndSwap_def
        newObjectLocked_def store_object_def)
  obtain r s' where p: "mem_Put (\<lambda>_. 7) None ''j'' [5] sample_store = (r, s')" by fastforce
  then have s': "ms_next s' = 2" "mem_lookup s' ''k'' = Some \<lparr>ob_Key = ''k'', ob_Body = [1], ob_Token = fmt_d 20 (1 :: u64), ob_CreatedAt = 7\<rparr>"
    by (auto simp: mem_Put_def sample_store_def mem_CompareAndSwap_def New_def newObjectLocked_def store_object_def
        mem_lookup_def cloneObject_def)
  have st: "store_step (mem_store (\<lambda>_. 7)) mem_room {''k''} sample_store s'"
    using store_step.step_put[of mem_room sample_store "''j''" "mem_store (\<lambda>_. 7)" "[5]" r s' "{''k''}"] ok(3) p
    by (simp add: mem_store_def)
  have "(store_step (mem_store (\<lambda>_. 7)) mem_room {''k''})\<^sup>*\<^sup>* sample_store s'" using st by blast
  from memory_store_swap_once[OF ok(1,2) _ a this, of "[2]"] show ?thesis using st s' by auto
qed

text \<open>C30: a client of the in-memory store that follows listing pages under a prefix, with any page limit,
  receives every object under the prefix exactly once, in the order of the keys, after at most one
  request more than there are such objects.\<close>

theorem memory_store_listing_complete:
  assumes "mem_ok s" "length (listed s prefix) < fuel"
  shows "follow_list (\<lambda>opts. mem_List None opts s) fuel \<lparr>lo_Prefix = prefix, lo_AfterKey = [], lo_Limit = limit\<rparr>
      = Some (Inr (listed s prefix))
    \<and> sorted_wrt (\<lambda>x y. oi_Key x < oi_Key y) (listed s prefix)
    \<and> oi_Key ` set (listed s prefix) = {key. mem_lookup s key \<noteq> None \<and> HasPrefix key prefix}"
proof -
  have "oi_Key ` set (listed s prefix) = {key. mem_lookup s key \<noteq> None \<and> HasPrefix key prefix}"
    by (auto simp: listed_def mem_lookup_def image_iff map_of_eq_None_iff) (metis domI domIff map_of_SomeD fst_conv weak_map_of_SomeI)+
  then show ?thesis
    using follow_list_spec[OF assms(1), of "\<lparr>lo_Prefix = prefix, lo_AfterKey = [], lo_Limit = limit\<rparr>" fuel] assms(2)
      listed_strict(1)[OF assms(1)] by simp
qed

theorem memory_store_listing_complete_witness:
  "follow_list (\<lambda>opts. mem_List None opts sample_store) 2 \<lparr>lo_Prefix = ''k'', lo_AfterKey = [], lo_Limit = 1\<rparr>
     = Some (Inr [\<lparr>oi_Key = ''k'', oi_Token = fmt_d 20 (1 :: u64), oi_SizeBytes = 1, oi_CreatedAt = 7\<rparr>])"
proof -
  have objs: "ms_objects sample_store = [(''k'', \<lparr>mo_body = [1], mo_token = fmt_d 20 (1 :: u64), mo_createdAt = 7\<rparr>)]"
    "ms_next sample_store = 1"
    by (simp_all add: sample_store_def mem_CompareAndSwap_def New_def newObjectLocked_def store_object_def)
  then have "listed sample_store ''k'' = [\<lparr>oi_Key = ''k'', oi_Token = fmt_d 20 (1 :: u64), oi_SizeBytes = 1, oi_CreatedAt = 7\<rparr>]"
    by (simp add: listed_def list_info_def HasPrefix_def)
  moreover have "mem_ok sample_store" using objs by (auto simp: mem_ok_def mem_issued_def)
  ultimately show ?thesis using memory_store_listing_complete[of sample_store "''k''" 2 1] by simp
qed

end
