(* ===== verification/Spec2Isabelle.thy ===== *)
theory Spec2Isabelle
  imports Seg_Properties Memory_Catalog_Inv Cat_Retention_Spec Blob_Store
begin

text \<open>
  objlog keeps a partitioned, append-only log in an object store. A writer packs records into
  immutable \<^emph>\<open>segments\<close> and commits a reference to each segment in a \<^emph>\<open>catalog\<close>; a reader asks
  the catalog which segment holds a log sequence number or a timestamp and reads that segment by
  ranges. This library models the segment format, the segment writer and reader, the two
  catalogs, the object keys and the store interface with its in-memory implementation, and proves
  that they do what they promise. Paths below are under \<^verbatim>\<open>src/\<close>.

  \<^bold>\<open>Conventions.\<close> Unsigned and signed Go integers are words (\<^verbatim>\<open>u8\<close> to \<^verbatim>\<open>u64\<close>, and \<^verbatim>\<open>i64\<close> read with
  \<^verbatim>\<open>sint\<close>), so that overflow wraps as in Go; lengths of slices are naturals. A fallible function
  returns \<^verbatim>\<open>'a res\<close>, an error on the left: an error is the list of the sentinels that
  \<^verbatim>\<open>errors.Is\<close> finds in it, and \<^verbatim>\<open>GoPanic\<close> stands for a run-time panic. A context is the error it
  was cancelled with, if it was. Slices are values: the copies that \<^verbatim>\<open>Clone\<close> methods make are the
  identity. Operations under a mutex are single steps. A Go loop is a structural recursion or a
  \<^verbatim>\<open>function\<close> with a termination proof, so that no definition of the program runs on fuel. Fuel
  appears only in the clients that follow pages of a listing until one is the last
  (\<^verbatim>\<open>follow_pages\<close>, \<^verbatim>\<open>follow_list\<close>): one request more than there are objects to list is shown to be
  enough.

  \<^bold>\<open>Shared theories.\<close> \<^verbatim>\<open>Prelude\<close> has results, errors, byte strings, little-endian fields, CRC-32C
  and the binary search of \<^verbatim>\<open>sort.Search\<close>; \<^verbatim>\<open>Go_Std\<close> the parts of the Go library the sources use
  (paths, UTF-8, SHA-256, formatting); \<^verbatim>\<open>Fixed_Codec\<close> the interface of fixed-size records that
  parse from what they marshal to; \<^verbatim>\<open>Tiling\<close> ranges that cover an interval once, and searches in
  them; \<^verbatim>\<open>Collector\<close> the page collectors of the catalogs.

  \<^bold>\<open>Segment format\<close> (\<^verbatim>\<open>internal/segformat\<close>). \<^verbatim>\<open>Seg_Format\<close> holds the regions of a segment and
  their validation, \<^verbatim>\<open>Seg_Index\<close> shows that a valid block index covers the records and bytes of
  its segment once, \<^verbatim>\<open>Seg_Codec\<close> that every region parses exactly from what marshalling writes,
  and that CRC-32C detects a changed byte. \<^verbatim>\<open>Raw_Block\<close> has the encoder, the decoder and the
  incremental scanner of a block's records: a round trip, and a refinement between the two ways to
  decode, errors included.

  \<^bold>\<open>Segment blocks and reader\<close> (\<^verbatim>\<open>internal/segblock\<close>, \<^verbatim>\<open>internal/segreader\<close>). \<^verbatim>\<open>Seg_Block\<close> seals
  and opens one block. \<^verbatim>\<open>Seg_Reader\<close> opens a segment over a store that answers ranged reads, scans
  it, reads from a number with a limit and searches by timestamp. \<^verbatim>\<open>Seg_Reader_Spec\<close> shows that
  what a reader returns is exactly the run of numbers asked for whatever bytes the store gave;
  \<^verbatim>\<open>Seg_Whole\<close> that a reader over one read of the object agrees with a reader by ranges.

  \<^bold>\<open>Segment writer\<close> (\<^verbatim>\<open>internal/segwriter\<close>). \<^verbatim>\<open>Seg_Packer\<close> has the sink interface, the in-memory
  sink and the packer that hashes what it passes on; the locale \<^verbatim>\<open>segment_sink\<close> is what the packer
  relies on of a sink, interpreted on the in-memory one. \<^verbatim>\<open>Seg_Writer\<close> has the writer with its
  goroutines. The sealing workers and the emitter are the step relation \<^verbatim>\<open>bg\<close>: a worker takes a
  job, posts its result or stops; the emitter receives a result, or does one iteration of its loop
  over the results that are next in order, so that steps of workers come between two iterations;
  and a cancelled context may record its error. Once the writer is cancelled, each return of a
  buffer may drop it, as either branch of that \<^verbatim>\<open>select\<close> may be taken. The flag of \<^verbatim>\<open>bg\<close> says
  whether contexts may be cancelled meanwhile. The operations of the owner (\<^verbatim>\<open>SegWriter_Append\<close>,
  \<^verbatim>\<open>SegWriter_Close\<close>, \<^verbatim>\<open>SegWriter_Abort\<close>) are functions of a schedule, which says at each wait
  which steps the pipeline takes and which ready branch of the \<^verbatim>\<open>select\<close> is taken; the value
  \<^verbatim>\<open>None\<close> is a wait that never ends. The safety theorems hold for every schedule that \<^verbatim>\<open>follows\<close>
  the step relation, those on progress for every schedule that is \<^verbatim>\<open>steady\<close> (no context is
  cancelled) and \<^verbatim>\<open>fair\<close> (a wait ends only if the owner can go on or the pipeline is at rest).
  Sums of options wrap around as Go's \<^verbatim>\<open>int\<close> does (\<^verbatim>\<open>go_int\<close>) and a channel of negative size
  panics; the memory that large channels and many goroutines need is not modelled.
  \<^verbatim>\<open>Seg_Pipeline\<close> shows that blocks leave the pipeline once and in order, with a sequential
  reference for what is emitted; \<^verbatim>\<open>Seg_Writer_Inv\<close> lifts this to the invariant of the writer and to
  what closing publishes; \<^verbatim>\<open>Seg_Roundtrip\<close> that a published segment reads back;
  \<^verbatim>\<open>Seg_Writer_Run\<close> that the pipeline comes to rest, by a measure of its load; and
  \<^verbatim>\<open>Seg_Writer_Live\<close> that no wait of an encoding lasts for ever under a steady and fair schedule.
  \<^verbatim>\<open>Seg_Properties\<close> states the properties of reader and writer.

  \<^bold>\<open>Catalogs.\<close> \<^verbatim>\<open>Partition_Meta\<close> (\<^verbatim>\<open>internal/pmeta\<close>, \<^verbatim>\<open>internal/catalog/types.go\<close>) has segment
  references, heads and requests; \<^verbatim>\<open>Catalog_Spec\<close> the abstract catalog, a list of adjacent segments,
  and its three reads. \<^verbatim>\<open>Memory_Catalog\<close> and \<^verbatim>\<open>Memory_Catalog_Inv\<close> (\<^verbatim>\<open>internal/catalog/memory.go\<close>)
  are the in-process catalog as a state machine: the reachable states keep the invariant, lookups
  and paging are exact, stale writers are fenced, appends may be retried, and retention keeps a
  suffix. The paged catalog (\<^verbatim>\<open>catformat\<close> and \<^verbatim>\<open>catengine\<close> under \<^verbatim>\<open>internal/catalog/blob/internal\<close>) is a
  tree of pages below a head. \<^verbatim>\<open>Cat_Format\<close>, \<^verbatim>\<open>Cat_Ranges\<close>, \<^verbatim>\<open>Cat_Codec\<close> and \<^verbatim>\<open>Cat_Roundtrip\<close>
  are its objects, their validation and byte layouts; \<^verbatim>\<open>Cat_Config\<close> the configuration and keys of
  pages; \<^verbatim>\<open>Cat_Reader\<close>, \<^verbatim>\<open>Cat_Reader_Spec\<close>, \<^verbatim>\<open>Cat_Reach\<close> and \<^verbatim>\<open>Cat_Reads\<close> the reads, which
  refine the reads of the list the tree stands for, and the reachability walks that reclamation
  asks for; \<^verbatim>\<open>Cat_Tree\<close>, \<^verbatim>\<open>Cat_Tree_Spec\<close>, \<^verbatim>\<open>Cat_Append\<close>, \<^verbatim>\<open>Cat_Takeover\<close>, \<^verbatim>\<open>Cat_Retention\<close> and
  \<^verbatim>\<open>Cat_Retention_Spec\<close> the mutations, which refine appending to, fencing and trimming that list.

  \<^bold>\<open>Keys and store.\<close> \<^verbatim>\<open>Key_Layout\<close> (\<^verbatim>\<open>internal/keylayout\<close>) has stream identifiers and object keys;
  \<^verbatim>\<open>Blob_Store\<close> (\<^verbatim>\<open>internal/blobstore\<close>) the conditional store and its in-memory implementation,
  with the listing laws and, over any sequence of puts, swaps and deletions (\<^verbatim>\<open>store_step\<close>), the
  compare-and-swap laws a catalog relies on.

  \<^bold>\<open>Divergences.\<close> Three lemmas record where the code differs from its intent or documents:
  \<^verbatim>\<open>Append_refuses_last_lsn\<close> (a segment that ends at the last number is refused),
  \<^verbatim>\<open>ApplyRetention_commits_no_op\<close> (a policy that drops nothing is still committed) and
  \<^verbatim>\<open>writer_options_overflow\<close> (the largest parallelism makes \<^verbatim>\<open>New\<close> panic).

  \<^bold>\<open>Parameters and hypotheses.\<close> The xxhash package is the parameter \<^verbatim>\<open>xxh\<close>, with no hypothesis. The
  zstd package is the pair \<^verbatim>\<open>zenc\<close>, \<^verbatim>\<open>zdec\<close>; the hypothesis \<^verbatim>\<open>zstd_codec\<close>, that decoding inverts
  encoding, is used only where a segment is read back. A store is a parameter of the readers: the
  safety theorems hold for every store, the refinements for a store that holds the named objects.
  The wall clock, the number of processors and random identifiers are arguments.

  \<^bold>\<open>Not modelled.\<close> The clients of the providers and the uploading sinks (network calls through
  their SDKs), the caches, the polling log reader and the timed log writer around these
  components, the commit loop with its retries around the catalog's head, background
  reclamation, and the command-line tools, benchmarks and test support.
\<close>

end
